(* ===== verification/Paxe_Prelude.thy ===== *)
theory Paxe_Prelude
  imports Main "HOL-Library.Word" "HOL-Library.Product_Lexorder" "HOL-Library.Monad_Syntax"
begin

text \<open>
  Shared vocabulary of the development: the machine types of the crate, the slice operations of
  Rust's standard library with their panics, big-endian integer conversion, saturating counters,
  and the generic contract of an encoder and its decoder.

  Conventions used by every component theory. A Rust \<open>Result<T, E>\<close> is a value of
  \<open>'e + 'a\<close>, with \<open>Inl\<close> for \<open>Err\<close> and \<open>Inr\<close> for \<open>Ok\<close>. An operation that can panic returns an
  \<open>option\<close>, and \<open>None\<close> is the panic (under \<open>panic = "abort"\<close> nothing is observable after it), so
  that the absence of panics is a theorem and not a modelling decision. Lengths and offsets
  (\<open>usize\<close>) are \<open>nat\<close>; the two places that use checked arithmetic on them name the bound
  \<open>USIZE_MAX\<close>. All other integers are words of their Rust width.
\<close>

unbundle bit_operations_syntax

named_theorems wire_simps \<open>lengths and layout of the byte strings on the wire\<close>

type_synonym u8 = "8 word"
type_synonym u16 = "16 word"
type_synonym u32 = "32 word"
type_synonym u64 = "64 word"
type_synonym byte = "8 word"
type_synonym bytes = "8 word list"

abbreviation Ok :: "'a \<Rightarrow> 'e + 'a" where
  "Ok \<equiv> Inr"

abbreviation Err :: "'e \<Rightarrow> 'e + 'a" where
  "Err \<equiv> Inl"

definition USIZE_MAX :: nat where
  "USIZE_MAX = 2 ^ 64 - 1"

section \<open>Slices\<close>

text \<open>
  \<open>xs.get(i..j)\<close>, and \<open>xs[i..j]\<close> where \<open>None\<close> is the panic. The open-ended forms
  \<open>get(..j)\<close> and \<open>get(i..)\<close> fill in the missing bound.
\<close>

definition subslice :: "nat \<Rightarrow> nat \<Rightarrow> 'a list \<Rightarrow> 'a list option" where
  "subslice i j xs = (if i \<le> j \<and> j \<le> length xs then Some (take (j - i) (drop i xs)) else None)"

definition subslice_to :: "nat \<Rightarrow> 'a list \<Rightarrow> 'a list option" where
  "subslice_to j xs = subslice 0 j xs"

definition subslice_from :: "nat \<Rightarrow> 'a list \<Rightarrow> 'a list option" where
  "subslice_from i xs = subslice i (length xs) xs"

text \<open>\<open>try_into\<close> from a slice to an array of \<open>n\<close> elements.\<close>

definition to_array :: "nat \<Rightarrow> 'a list \<Rightarrow> 'a list option" where
  "to_array n xs = (if length xs = n then Some xs else None)"

text \<open>\<open>dst.copy_from_slice(src)\<close> panics unless the lengths agree; the result is the new \<open>dst\<close>.\<close>

definition copy_from_slice :: "'a list \<Rightarrow> 'a list \<Rightarrow> 'a list option" where
  "copy_from_slice dst src = (if length dst = length src then Some src else None)"

text \<open>\<open>split_at_mut\<close> panics when the split point is past the end.\<close>

definition split_at :: "nat \<Rightarrow> 'a list \<Rightarrow> ('a list \<times> 'a list) option" where
  "split_at n xs = (if n \<le> length xs then Some (take n xs, drop n xs) else None)"

text \<open>A foreign call that writes \<open>src\<close> at the start of a buffer and leaves the rest alone.\<close>

definition overwrite :: "'a list \<Rightarrow> 'a list \<Rightarrow> 'a list" where
  "overwrite dst src = src @ drop (length src) dst"

text \<open>\<open>a - b\<close> on \<open>usize\<close>: \<open>None\<close> is the underflow panic (a wrap in release builds).\<close>

definition usize_sub :: "nat \<Rightarrow> nat \<Rightarrow> nat option" where
  "usize_sub a b = (if b \<le> a then Some (a - b) else None)"

lemma subslice_Some_iff:
  "subslice i j xs = Some ys \<longleftrightarrow> i \<le> j \<and> j \<le> length xs \<and> ys = take (j - i) (drop i xs)"
  by (auto simp: subslice_def)

lemma subslice_in_range [simp]:
  "i \<le> j \<Longrightarrow> j \<le> length xs \<Longrightarrow> subslice i j xs = Some (take (j - i) (drop i xs))"
  by (simp add: subslice_def)

lemma subslice_to_in_range [simp]:
  "j \<le> length xs \<Longrightarrow> subslice_to j xs = Some (take j xs)"
  by (simp add: subslice_to_def)

lemma subslice_to_None [simp]:
  "length xs < j \<Longrightarrow> subslice_to j xs = None"
  by (simp add: subslice_to_def subslice_def)

lemma subslice_from_in_range [simp]:
  "i \<le> length xs \<Longrightarrow> subslice_from i xs = Some (drop i xs)"
  by (simp add: subslice_from_def)

lemma subslice_from_None [simp]:
  "length xs < i \<Longrightarrow> subslice_from i xs = None"
  by (simp add: subslice_from_def subslice_def)

lemma to_array_exact [simp]: "length xs = n \<Longrightarrow> to_array n xs = Some xs"
  by (simp add: to_array_def)

lemma to_array_Some_iff: "to_array n xs = Some ys \<longleftrightarrow> length xs = n \<and> ys = xs"
  by (auto simp: to_array_def)

lemma copy_from_slice_exact [simp]:
  "length dst = length src \<Longrightarrow> copy_from_slice dst src = Some src"
  by (simp add: copy_from_slice_def)

lemma split_at_in_range [simp]:
  "n \<le> length xs \<Longrightarrow> split_at n xs = Some (take n xs, drop n xs)"
  by (simp add: split_at_def)

lemma usize_sub_in_range [simp]: "b \<le> a \<Longrightarrow> usize_sub a b = Some (a - b)"
  by (simp add: usize_sub_def)

lemma length_overwrite [simp]:
  "length src \<le> length dst \<Longrightarrow> length (overwrite dst src) = length dst"
  by (simp add: overwrite_def)

lemma overwrite_exact [simp]: "length src = length dst \<Longrightarrow> overwrite dst src = src"
  by (simp add: overwrite_def)

lemma take_overwrite [simp]: "take (length src) (overwrite dst src) = src"
  by (simp add: overwrite_def)

lemma take_take_drop: "take i xs @ take j (drop i xs) @ drop (i + j) xs = xs"
  by (metis add.commute append_take_drop_id drop_drop)

section \<open>Big-endian integers\<close>

text \<open>\<open>u16::to_be_bytes\<close>, \<open>u32::to_be_bytes\<close> and their inverses.\<close>

definition u16_to_be_bytes :: "u16 \<Rightarrow> bytes" where
  "u16_to_be_bytes w = [ucast (drop_bit 8 w), ucast w]"

definition u16_from_be_bytes :: "byte \<Rightarrow> byte \<Rightarrow> u16" where
  "u16_from_be_bytes b0 b1 = push_bit 8 (ucast b0) OR ucast b1"

definition u32_to_be_bytes :: "u32 \<Rightarrow> bytes" where
  "u32_to_be_bytes w =
     [ucast (drop_bit 24 w), ucast (drop_bit 16 w), ucast (drop_bit 8 w), ucast w]"

definition u32_from_be_bytes :: "byte \<Rightarrow> byte \<Rightarrow> byte \<Rightarrow> byte \<Rightarrow> u32" where
  "u32_from_be_bytes b0 b1 b2 b3 =
     push_bit 24 (ucast b0) OR push_bit 16 (ucast b1) OR push_bit 8 (ucast b2) OR ucast b3"

lemma length_u16_to_be_bytes [simp, wire_simps]: "length (u16_to_be_bytes w) = 2"
  by (simp add: u16_to_be_bytes_def)

lemma length_u32_to_be_bytes [simp, wire_simps]: "length (u32_to_be_bytes w) = 4"
  by (simp add: u32_to_be_bytes_def)

lemma u16_from_to_be:
  "u16_from_be_bytes (ucast (drop_bit 8 w)) (ucast w) = w"
  unfolding u16_from_be_bytes_def
  by (rule bit_word_eqI) (auto simp: bit_simps not_less)

lemma u16_to_from_be [simp]:
  "u16_to_be_bytes (u16_from_be_bytes b0 b1) = [b0, b1]"
proof -
  have "ucast (drop_bit 8 (u16_from_be_bytes b0 b1)) = b0"
    unfolding u16_from_be_bytes_def
    by (rule bit_word_eqI) (auto simp: bit_simps dest: bit_imp_le_length)
  moreover have "ucast (u16_from_be_bytes b0 b1) = b1"
    unfolding u16_from_be_bytes_def
    by (rule bit_word_eqI) (auto simp: bit_simps)
  ultimately show ?thesis by (simp add: u16_to_be_bytes_def)
qed

lemma u32_from_to_be:
  "u32_from_be_bytes (ucast (drop_bit 24 w)) (ucast (drop_bit 16 w)) (ucast (drop_bit 8 w))
     (ucast w) = w"
proof (rule bit_word_eqI)
  fix n :: nat
  assume "n < LENGTH(32)"
  then show "bit (u32_from_be_bytes (ucast (drop_bit 24 w)) (ucast (drop_bit 16 w))
      (ucast (drop_bit 8 w)) (ucast w)) n = bit w n"
    unfolding u32_from_be_bytes_def
    by (cases "24 \<le> n"; cases "16 \<le> n"; cases "8 \<le> n") (auto simp: bit_simps)
qed

lemma u32_to_from_be [simp]:
  "u32_to_be_bytes (u32_from_be_bytes b0 b1 b2 b3) = [b0, b1, b2, b3]"
proof -
  have "ucast (drop_bit 24 (u32_from_be_bytes b0 b1 b2 b3)) = b0"
    unfolding u32_from_be_bytes_def
    by (rule bit_word_eqI) (auto simp: bit_simps dest: bit_imp_le_length)
  moreover have "ucast (drop_bit 16 (u32_from_be_bytes b0 b1 b2 b3)) = b1"
    unfolding u32_from_be_bytes_def
    by (rule bit_word_eqI) (auto simp: bit_simps dest: bit_imp_le_length)
  moreover have "ucast (drop_bit 8 (u32_from_be_bytes b0 b1 b2 b3)) = b2"
    unfolding u32_from_be_bytes_def
    by (rule bit_word_eqI) (auto simp: bit_simps dest: bit_imp_le_length)
  moreover have "ucast (u32_from_be_bytes b0 b1 b2 b3) = b3"
    unfolding u32_from_be_bytes_def
    by (rule bit_word_eqI) (auto simp: bit_simps dest: bit_imp_le_length)
  ultimately show ?thesis by (simp add: u32_to_be_bytes_def)
qed

section \<open>Saturating counters\<close>

text \<open>\<open>u64::saturating_add\<close>.\<close>

definition saturating_add :: "u64 \<Rightarrow> u64 \<Rightarrow> u64" where
  "saturating_add a b = (if unat a + unat b < 2 ^ 64 then a + b else 0xFFFFFFFFFFFFFFFF)"

lemma unat_saturating_add:
  "unat (saturating_add a b) = min (unat a + unat b) (2 ^ 64 - 1)"
  by (auto simp: saturating_add_def unat_word_ariths)

lemma saturating_add_1_below:
  "unat a < 2 ^ 64 - 1 \<Longrightarrow> unat (saturating_add a 1) = Suc (unat a)"
  by (simp add: unat_saturating_add)

lemma saturating_add_mono: "a \<le> saturating_add a b"
  using unsigned_less [where 'a = nat, of a] by (simp add: word_le_nat_alt unat_saturating_add)

section \<open>The contract of an encoder and its decoder\<close>

text \<open>
  The crate has several pairs of functions in which one direction writes a value and the other
  reads it back: integers and bytes, flags and their byte, prefixes, header text and its
  escapes, node-to-node messages. Each pair promises the same law on its valid values, and the
  clients rely on the same consequences: no two valid values share an encoding, and a decoder
  answers for the encoded value whatever it does elsewhere.
\<close>

locale coding =
  fixes valid :: "'a \<Rightarrow> bool"
    and enc :: "'a \<Rightarrow> 'b"
    and dec :: "'b \<Rightarrow> 'a option"
  assumes dec_enc: "valid x \<Longrightarrow> dec (enc x) = Some x"
begin

lemma enc_inj: "valid x \<Longrightarrow> valid y \<Longrightarrow> enc x = enc y \<longleftrightarrow> x = y"
  by (metis dec_enc option.inject)

lemma enc_inj_on: "inj_on enc {x. valid x}"
  by (rule inj_onI) (simp add: enc_inj)

lemma dec_range: "valid x \<Longrightarrow> \<exists>y. dec (enc x) = Some y \<and> y = x"
  by (simp add: dec_enc)

end

text \<open>A coding that also rejects every input that is not an encoding.\<close>

locale exact_coding = coding +
  assumes dec_exact: "dec y = Some x \<Longrightarrow> valid x \<and> enc x = y"
begin

lemma dec_iff: "dec y = Some x \<longleftrightarrow> valid x \<and> enc x = y"
  using dec_enc dec_exact by auto

lemma dec_inj: "dec y = Some x \<Longrightarrow> dec z = Some x \<Longrightarrow> y = z"
  using dec_exact by metis

lemma image_enc_valid: "enc ` {x. valid x} = {y. dec y \<noteq> None}"
  by (auto simp: dec_enc intro: rev_image_eqI dest: dec_exact)

end

interpretation be16: exact_coding "\<lambda>_. True" u16_to_be_bytes
  "\<lambda>bs. case bs of [b0, b1] \<Rightarrow> Some (u16_from_be_bytes b0 b1) | _ \<Rightarrow> None"
  by unfold_locales
    (auto simp: u16_to_be_bytes_def [of "u16_from_be_bytes _ _", symmetric] u16_from_to_be
      split: list.splits, auto simp: u16_to_be_bytes_def u16_from_to_be)

interpretation be32: exact_coding "\<lambda>_. True" u32_to_be_bytes
  "\<lambda>bs. case bs of [b0, b1, b2, b3] \<Rightarrow> Some (u32_from_be_bytes b0 b1 b2 b3) | _ \<Rightarrow> None"
  by unfold_locales
    (auto simp: u32_to_be_bytes_def [of "u32_from_be_bytes _ _ _ _", symmetric] u32_from_to_be
      split: list.splits, auto simp: u32_to_be_bytes_def u32_from_to_be)

section \<open>State machines\<close>

text \<open>
  A component with calls is a function from a call and a state to a reply and a new state, with
  \<open>None\<close> for a panic. \<open>reachable\<close> is what its calls can lead to from a start state.
\<close>

inductive reachable :: "('c \<Rightarrow> 's \<Rightarrow> ('r \<times> 's) option) \<Rightarrow> 's \<Rightarrow> 's \<Rightarrow> bool"
  for step :: "'c \<Rightarrow> 's \<Rightarrow> ('r \<times> 's) option" and s0 :: 's where
  reachable_start: "reachable step s0 s0"
| reachable_call: "reachable step s0 s \<Longrightarrow> step c s = Some (r, s') \<Longrightarrow> reachable step s0 s'"

inductive_cases reachable_elim: "reachable step s0 s"

text \<open>
  The contract of a machine whose calls may stop: a call that returns keeps the invariant and
  relates the two states by a preorder (what only ever grows).
\<close>

locale safe_machine =
  fixes step :: "'c \<Rightarrow> 's \<Rightarrow> ('r \<times> 's) option"
    and inv :: "'s \<Rightarrow> bool"
    and later :: "'s \<Rightarrow> 's \<Rightarrow> bool"
  assumes step_inv: "inv s \<Longrightarrow> step c s = Some (r, s') \<Longrightarrow> inv s' \<and> later s s'"
    and later_refl: "later s s"
    and later_trans: "later s t \<Longrightarrow> later t u \<Longrightarrow> later s u"
begin

lemma reachable_inv: "reachable step s0 s \<Longrightarrow> inv s0 \<Longrightarrow> inv s \<and> later s0 s"
  by (induction rule: reachable.induct) (auto simp: later_refl intro: later_trans dest: step_inv)

end

text \<open>A machine whose calls always return from a state in the invariant.\<close>

locale machine = safe_machine +
  assumes step_total: "inv s \<Longrightarrow> \<exists>r s'. step c s = Some (r, s')"
begin

lemma never_stuck: "reachable step s0 s \<Longrightarrow> inv s0 \<Longrightarrow> step c s \<noteq> None"
  using reachable_inv step_total by fastforce

end

end
