(* ===== verification/Rust_Text.thy ===== *)
theory Rust_Text
  imports Paxe_Prelude
begin

text \<open>
  The part of Rust's text library that the crate uses. A \<open>str\<close> or \<open>String\<close> is the list of its
  Unicode scalar values (\<open>chars()\<close>); its UTF-8 bytes are computed by \<open>as_bytes\<close>, and \<open>len()\<close>
  counts those bytes. \<open>from_utf8\<close> is the validating decoder. Numbers are printed by \<open>show_nat\<close>
  and read by \<open>parse_unsigned\<close>, which follows \<open>from_str_radix\<close> of the unsigned types: a single
  leading \<open>+\<close> is accepted, a lone sign is not, and overflow is an error. The main facts are the
  two round trips: UTF-8 encoding against decoding, and decimal printing against parsing.
\<close>

type_synonym ustr = "nat list"

definition str :: "string \<Rightarrow> ustr" where
  "str s = map of_char s"

section \<open>UTF-8\<close>

definition is_scalar :: "nat \<Rightarrow> bool" where
  "is_scalar c \<longleftrightarrow> c < 0xD800 \<or> 0xE000 \<le> c \<and> c < 0x110000"

definition mk_byte :: "nat \<Rightarrow> byte" where
  "mk_byte n = of_nat n"

definition utf8_char :: "nat \<Rightarrow> bytes" where
  "utf8_char c =
     (if c < 0x80 then [mk_byte c]
      else if c < 0x800 then [mk_byte (0xC0 + c div 64), mk_byte (0x80 + c mod 64)]
      else if c < 0x10000 then
        [mk_byte (0xE0 + c div 4096), mk_byte (0x80 + c div 64 mod 64), mk_byte (0x80 + c mod 64)]
      else
        [mk_byte (0xF0 + c div 262144), mk_byte (0x80 + c div 4096 mod 64),
         mk_byte (0x80 + c div 64 mod 64), mk_byte (0x80 + c mod 64)])"

definition as_bytes :: "ustr \<Rightarrow> bytes" where
  "as_bytes s = concat (map utf8_char s)"

definition str_len :: "ustr \<Rightarrow> nat" where
  "str_len s = length (as_bytes s)"

text \<open>
  One decoding step: the first character and the bytes after it. The lead byte fixes the number
  of continuation bytes; overlong forms, surrogates and values past the last code point are
  refused, which are exactly the byte ranges of the standard's table.
\<close>

definition is_cont :: "nat \<Rightarrow> bool" where
  "is_cont x \<longleftrightarrow> 0x80 \<le> x \<and> x < 0xC0"

fun utf8_step :: "bytes \<Rightarrow> (nat \<times> bytes) option" where
  "utf8_step [] = None"
| "utf8_step (b0 # r) =
     (let x = unat b0 in
      if x < 0x80 then Some (x, r)
      else if 0xC2 \<le> x \<and> x < 0xE0 then
        (case r of
           b1 # r1 \<Rightarrow>
             if is_cont (unat b1) then Some ((x - 0xC0) * 64 + (unat b1 - 0x80), r1) else None
         | _ \<Rightarrow> None)
      else if 0xE0 \<le> x \<and> x < 0xF0 then
        (case r of
           b1 # b2 # r2 \<Rightarrow>
             let c = (x - 0xE0) * 4096 + (unat b1 - 0x80) * 64 + (unat b2 - 0x80) in
             if is_cont (unat b1) \<and> is_cont (unat b2) \<and> 0x800 \<le> c \<and> is_scalar c
             then Some (c, r2) else None
         | _ \<Rightarrow> None)
      else if 0xF0 \<le> x \<and> x < 0xF5 then
        (case r of
           b1 # b2 # b3 # r3 \<Rightarrow>
             let c = (x - 0xF0) * 262144 + (unat b1 - 0x80) * 4096 + (unat b2 - 0x80) * 64
                     + (unat b3 - 0x80) in
             if is_cont (unat b1) \<and> is_cont (unat b2) \<and> is_cont (unat b3)
                \<and> 0x10000 \<le> c \<and> is_scalar c
             then Some (c, r3) else None
         | _ \<Rightarrow> None)
      else None)"

lemma utf8_step_shorter: "utf8_step bs = Some (c, r) \<Longrightarrow> length r < length bs"
  by (cases bs) (auto simp: Let_def split: if_splits list.splits)

function from_utf8 :: "bytes \<Rightarrow> ustr option" where
  "from_utf8 bs =
     (if bs = [] then Some []
      else case utf8_step bs of
        None \<Rightarrow> None
      | Some (c, r) \<Rightarrow> map_option (Cons c) (from_utf8 r))"
  by pat_completeness auto
termination
  by (relation "measure length") (auto dest: utf8_step_shorter)

declare from_utf8.simps [simp del]

lemma from_utf8_Nil [simp]: "from_utf8 [] = Some []"
  by (simp add: from_utf8.simps)

lemma as_bytes_simps [simp]:
  "as_bytes [] = []" "as_bytes (c # s) = utf8_char c @ as_bytes s"
  "as_bytes (s @ t) = as_bytes s @ as_bytes t"
  by (simp_all add: as_bytes_def)

lemma unat_mk_byte [simp]: "n < 256 \<Longrightarrow> unat (mk_byte n) = n"
  by (simp add: mk_byte_def unat_of_nat)

lemma mk_byte_unat [simp]: "mk_byte (unat b) = b"
  by (simp add: mk_byte_def)

lemma utf8_char_nonempty [simp]: "utf8_char c \<noteq> []"
  by (simp add: utf8_char_def)

lemma recompose64: "(c div 64 :: nat) * 64 + c mod 64 = c"
  by (rule div_mult_mod_eq)

lemma recompose4096: "(c div 4096 :: nat) * 4096 + c div 64 mod 64 * 64 + c mod 64 = c"
proof -
  have "c div 4096 * 64 + c div 64 mod 64 = c div 64"
    using div_mult_mod_eq [of "c div 64" 64] by (simp add: div_mult2_eq [symmetric])
  then have "(c div 4096 * 64 + c div 64 mod 64) * 64 + c mod 64 = c"
    using div_mult_mod_eq [of c 64] by simp
  then show ?thesis by (simp add: algebra_simps)
qed

lemma recompose262144:
  "(c div 262144 :: nat) * 262144 + c div 4096 mod 64 * 4096 + c div 64 mod 64 * 64 + c mod 64 = c"
proof -
  have "c div 262144 * 64 + c div 4096 mod 64 = c div 4096"
    using div_mult_mod_eq [of "c div 4096" 64] by (simp add: div_mult2_eq [symmetric])
  then have "(c div 262144 * 64 + c div 4096 mod 64) * 4096 = c div 4096 * 4096"
    by simp
  with recompose4096 [of c] show ?thesis by (simp add: algebra_simps)
qed

lemma utf8_step_char:
  assumes "is_scalar c"
  shows "utf8_step (utf8_char c @ r) = Some (c, r)"
proof -
  have top: "c < 0x110000" using assms by (auto simp: is_scalar_def)
  consider "c < 0x80" | "0x80 \<le> c" "c < 0x800" | "0x800 \<le> c" "c < 0x10000" | "0x10000 \<le> c"
    by linarith
  then show ?thesis
  proof cases
    case 1
    then show ?thesis by (simp add: utf8_char_def)
  next
    case 2
    then have "2 \<le> c div 64" "c div 64 < 32"
      by (simp_all add: less_eq_div_iff_mult_less_eq div_less_iff_less_mult)
    with 2 show ?thesis
      by (simp add: utf8_char_def is_cont_def recompose64)
  next
    case 3
    then have "c div 4096 < 16" by (simp add: div_less_iff_less_mult)
    with 3 assms show ?thesis
      by (simp add: utf8_char_def is_cont_def recompose4096)
  next
    case 4
    have "c div 262144 < 5" using top by (simp add: div_less_iff_less_mult)
    with 4 assms show ?thesis
      by (simp add: utf8_char_def is_cont_def recompose262144)
  qed
qed

lemma digit64:
  fixes a z :: nat
  assumes "z < 64"
  shows "(a * 64 + z) div 64 = a" "(a * 64 + z) mod 64 = z"
  using assms by simp_all

lemma utf8_char_2:
  assumes "0xC2 \<le> x" "x < 0xE0" "y < 64"
  shows "utf8_char ((x - 0xC0) * 64 + y) = [mk_byte x, mk_byte (0x80 + y)]"
proof -
  have "0x80 \<le> (x - 0xC0) * 64 + y" "(x - 0xC0) * 64 + y < 0x800" using assms by linarith+
  with assms show ?thesis by (simp add: utf8_char_def)
qed

lemma utf8_char_3:
  assumes x: "0xE0 \<le> x" "x < 0xF0" and "y < 64" "z < 64"
    and c: "c = (x - 0xE0) * 4096 + y * 64 + z" "0x800 \<le> c"
  shows "utf8_char c = [mk_byte x, mk_byte (0x80 + y), mk_byte (0x80 + z)]"
proof -
  have c': "c = ((x - 0xE0) * 64 + y) * 64 + z" by (simp add: c)
  have d1: "c div 64 = (x - 0xE0) * 64 + y" "c mod 64 = z"
    unfolding c' by (rule digit64 [OF \<open>z < 64\<close>])+
  have "c div 4096 = x - 0xE0" "c div 64 mod 64 = y"
    using digit64 [OF \<open>y < 64\<close>] d1(1) div_mult2_eq [of c 64 64] by simp_all
  moreover have "c < 0x10000" using assms by simp
  ultimately show ?thesis using x c(2) d1(2) by (simp add: utf8_char_def)
qed

lemma utf8_char_4:
  assumes x: "0xF0 \<le> x" and "y < 64" "z < 64" "v < 64"
    and c: "c = (x - 0xF0) * 262144 + y * 4096 + z * 64 + v" "0x10000 \<le> c"
  shows "utf8_char c =
    [mk_byte x, mk_byte (0x80 + y), mk_byte (0x80 + z), mk_byte (0x80 + v)]"
proof -
  have c': "c = (((x - 0xF0) * 64 + y) * 64 + z) * 64 + v" by (simp add: c)
  have d1: "c div 64 = ((x - 0xF0) * 64 + y) * 64 + z" "c mod 64 = v"
    unfolding c' by (rule digit64 [OF \<open>v < 64\<close>])+
  have d2: "c div 4096 = (x - 0xF0) * 64 + y" "c div 64 mod 64 = z"
    using digit64 [OF \<open>z < 64\<close>, of "(x - 0xF0) * 64 + y"] d1(1) div_mult2_eq [of c 64 64]
    by (metis numeral_times_numeral semiring_norm(12,13), metis)
  have "c div 262144 = x - 0xF0" "c div 4096 mod 64 = y"
    using digit64 [OF \<open>y < 64\<close>] d2(1) div_mult2_eq [of c 4096 64] by simp_all
  with x c(2) d1(2) d2(2) show ?thesis by (simp add: utf8_char_def)
qed

lemma is_contE:
  assumes "is_cont (unat b)"
  obtains y where "y < 64" "b = mk_byte (0x80 + y)" "unat b - 0x80 = y"
proof
  show "unat b - 0x80 < 64" using assms by (auto simp: is_cont_def)
  show "b = mk_byte (0x80 + (unat b - 0x80))" using assms by (simp add: is_cont_def)
qed simp

lemma utf8_step_sound:
  assumes "utf8_step bs = Some (c, r)"
  shows "bs = utf8_char c @ r \<and> is_scalar c"
proof (cases bs)
  case Nil
  with assms show ?thesis by simp
next
  case (Cons b0 r0)
  define x where "x = unat b0"
  have b0: "b0 = mk_byte x" by (simp add: x_def)
  have eq: "utf8_step (b0 # r0) = Some (c, r)" using assms Cons by simp
  consider "x < 0x80" | "0xC2 \<le> x" "x < 0xE0" | "0xE0 \<le> x" "x < 0xF0" | "0xF0 \<le> x" "x < 0xF5"
    using eq by (force simp: Let_def x_def split: if_splits)
  then show ?thesis
  proof cases
    case 1
    with eq Cons show ?thesis
      by (auto simp: x_def [symmetric] b0 utf8_char_def is_scalar_def)
  next
    case 2
    with eq Cons show ?thesis
      by (auto simp: x_def [symmetric] b0 utf8_char_2 is_scalar_def elim!: is_contE
          split: list.splits if_splits)
  next
    case 3
    with eq Cons show ?thesis
      by (auto simp: x_def [symmetric] b0 utf8_char_3 Let_def elim!: is_contE
          split: list.splits if_splits)
  next
    case 4
    with eq Cons show ?thesis
      by (auto simp: x_def [symmetric] b0 utf8_char_4 Let_def elim!: is_contE
          split: list.splits if_splits)
  qed
qed

lemma from_utf8_char:
  "is_scalar c \<Longrightarrow> from_utf8 (utf8_char c @ r) = map_option (Cons c) (from_utf8 r)"
  by (subst from_utf8.simps) (simp add: utf8_step_char)

lemma from_utf8_as_bytes: "list_all is_scalar s \<Longrightarrow> from_utf8 (as_bytes s) = Some s"
  by (induction s) (simp_all add: from_utf8_char)

lemma from_utf8_sound: "from_utf8 bs = Some s \<Longrightarrow> as_bytes s = bs \<and> list_all is_scalar s"
proof (induction bs arbitrary: s rule: from_utf8.induct)
  case (1 bs)
  show ?case
  proof (cases "bs = []")
    case True
    with "1.prems" show ?thesis by simp
  next
    case False
    with "1.prems" obtain c r t where step: "utf8_step bs = Some (c, r)"
      and t: "from_utf8 r = Some t" "s = c # t"
      by (auto simp: from_utf8.simps [of bs] split: option.splits prod.splits)
    have "as_bytes t = r \<and> list_all is_scalar t"
      using False step t(1) "1.IH" by blast
    with utf8_step_sound [OF step] t(2) show ?thesis by simp
  qed
qed

lemma str_simps [simp]:
  "str [] = []" "str (c # s) = of_char c # str s" "str (s @ t) = str s @ str t"
  by (simp_all add: str_def)

lemma str_scalar [simp]: "list_all is_scalar (str s)"
proof (induction s)
  case (Cons c s)
  have "of_char c = (of_char c :: nat) mod 256" using of_char_of [of "of_char c :: nat"] by simp
  also have "\<dots> < 256" by simp
  finally have "of_char c < (256 :: nat)" .
  then have "is_scalar (of_char c)" unfolding is_scalar_def by linarith
  with Cons show ?case by simp
qed simp

interpretation utf8: exact_coding "list_all is_scalar" as_bytes from_utf8
  by unfold_locales (auto simp: from_utf8_as_bytes dest: from_utf8_sound)

section \<open>Numbers\<close>

text \<open>\<open>format!("{n}")\<close> on an unsigned integer.\<close>

fun show_nat :: "nat \<Rightarrow> ustr" where
  "show_nat n = (if n < 10 then [48 + n] else show_nat (n div 10) @ [48 + n mod 10])"

declare show_nat.simps [simp del]

text \<open>\<open>char::to_digit\<close> for radix 10 and 16.\<close>

definition to_digit :: "nat \<Rightarrow> nat \<Rightarrow> nat option" where
  "to_digit radix c =
     (let d = (if 48 \<le> c \<and> c \<le> 57 then c - 48
               else if 97 \<le> c \<and> c \<le> 102 then c - 97 + 10
               else if 65 \<le> c \<and> c \<le> 70 then c - 65 + 10
               else radix)
      in if d < radix then Some d else None)"

text \<open>The digit loop of \<open>from_str_radix\<close>: \<open>None\<close> for an invalid digit or for overflow past \<open>mx\<close>.\<close>

fun parse_digits :: "nat \<Rightarrow> nat \<Rightarrow> nat \<Rightarrow> ustr \<Rightarrow> nat option" where
  "parse_digits radix mx acc [] = Some acc"
| "parse_digits radix mx acc (c # cs) =
     (case to_digit radix c of
        None \<Rightarrow> None
      | Some d \<Rightarrow>
          if acc * radix + d \<le> mx then parse_digits radix mx (acc * radix + d) cs else None)"

definition parse_unsigned :: "nat \<Rightarrow> nat \<Rightarrow> ustr \<Rightarrow> nat option" where
  "parse_unsigned radix mx s =
     (case s of
        [] \<Rightarrow> None
      | c # cs \<Rightarrow>
          if (c = 43 \<or> c = 45) \<and> cs = [] then None
          else if c = 43 then parse_digits radix mx 0 cs
          else parse_digits radix mx 0 s)"

lemma parse_digits_append:
  "parse_digits radix mx acc (s @ t) =
     Option.bind (parse_digits radix mx acc s) (\<lambda>a. parse_digits radix mx a t)"
  by (induction s arbitrary: acc) (auto split: option.splits)

lemma show_nat_digits: "\<forall>c \<in> set (show_nat n). 48 \<le> c \<and> c \<le> 57"
proof (induction n rule: show_nat.induct)
  case (1 n)
  show ?case
  proof (cases "n < 10")
    case True
    then show ?thesis by (simp add: show_nat.simps [of n])
  next
    case False
    moreover have "n mod 10 < 10" by simp
    ultimately show ?thesis using 1 by (auto simp: show_nat.simps [of n])
  qed
qed

lemma show_nat_nonempty [simp]: "show_nat n \<noteq> []"
  by (simp add: show_nat.simps [of n])

lemma parse_digits_show_nat: "n \<le> mx \<Longrightarrow> parse_digits 10 mx 0 (show_nat n) = Some n"
proof (induction n rule: show_nat.induct)
  case (1 n)
  show ?case
  proof (cases "n < 10")
    case True
    with "1.prems" show ?thesis by (simp add: show_nat.simps [of n] to_digit_def)
  next
    case False
    have "n div 10 \<le> mx" using "1.prems" by (meson div_le_dividend le_trans)
    with False "1.IH" have "parse_digits 10 mx 0 (show_nat (n div 10)) = Some (n div 10)" by simp
    moreover have "n mod 10 < 10" by simp
    moreover have "n div 10 * 10 + n mod 10 = n" by simp
    ultimately show ?thesis
      using False "1.prems"
      by (simp add: show_nat.simps [of n] parse_digits_append to_digit_def)
  qed
qed

lemma parse_unsigned_show_nat:
  assumes "n \<le> mx"
  shows "parse_unsigned 10 mx (show_nat n) = Some n"
proof -
  obtain c cs where s: "show_nat n = c # cs" by (cases "show_nat n") simp_all
  then have "48 \<le> c" using show_nat_digits [of n] by simp
  with s parse_digits_show_nat [OF assms] show ?thesis by (simp add: parse_unsigned_def)
qed

interpretation decimal: coding "\<lambda>n. n \<le> mx" show_nat "parse_unsigned 10 mx" for mx
  by unfold_locales (rule parse_unsigned_show_nat)

section \<open>Searching and trimming\<close>

text \<open>\<open>char::is_whitespace\<close>: the code points with the Unicode property White_Space.\<close>

definition is_whitespace :: "nat \<Rightarrow> bool" where
  "is_whitespace c \<longleftrightarrow>
     9 \<le> c \<and> c \<le> 13 \<or> c = 0x20 \<or> c = 0x85 \<or> c = 0xA0 \<or> c = 0x1680 \<or>
     0x2000 \<le> c \<and> c \<le> 0x200A \<or> c = 0x2028 \<or> c = 0x2029 \<or> c = 0x202F \<or> c = 0x205F \<or> c = 0x3000"

definition trim_start :: "ustr \<Rightarrow> ustr" where
  "trim_start s = dropWhile is_whitespace s"

definition trim_end_matches :: "(nat \<Rightarrow> bool) \<Rightarrow> ustr \<Rightarrow> ustr" where
  "trim_end_matches p s = rev (dropWhile p (rev s))"

definition trim :: "ustr \<Rightarrow> ustr" where
  "trim s = trim_end_matches is_whitespace (trim_start s)"

text \<open>\<open>split_once\<close> with a character predicate: the text before and after the first match.\<close>

fun split_once :: "(nat \<Rightarrow> bool) \<Rightarrow> ustr \<Rightarrow> (ustr \<times> ustr) option" where
  "split_once p [] = None"
| "split_once p (c # cs) =
     (if p c then Some ([], cs) else map_option (\<lambda>(a, b). (c # a, b)) (split_once p cs))"

definition ascii_upper :: "nat \<Rightarrow> nat" where
  "ascii_upper c = (if 97 \<le> c \<and> c \<le> 122 then c - 32 else c)"

definition to_ascii_uppercase :: "ustr \<Rightarrow> ustr" where
  "to_ascii_uppercase s = map ascii_upper s"

definition eq_ignore_ascii_case :: "ustr \<Rightarrow> ustr \<Rightarrow> bool" where
  "eq_ignore_ascii_case s t \<longleftrightarrow> to_ascii_uppercase s = to_ascii_uppercase t"

lemma split_once_append:
  "\<forall>c \<in> set a. \<not> p c \<Longrightarrow> p x \<Longrightarrow> split_once p (a @ x # b) = Some (a, b)"
  by (induction a) auto

lemma split_once_None [simp]: "split_once p s = None \<longleftrightarrow> (\<forall>c \<in> set s. \<not> p c)"
  by (induction s) auto

lemma split_once_Some:
  "split_once p s = Some (a, b) \<Longrightarrow> \<exists>x. p x \<and> s = a @ x # b \<and> (\<forall>c \<in> set a. \<not> p c)"
proof (induction s arbitrary: a)
  case (Cons c s)
  then show ?case by (cases "p c") (fastforce split: prod.splits)+
qed simp

lemma dropWhile_none: "\<forall>c \<in> set s. \<not> p c \<Longrightarrow> dropWhile p s = s"
  by (cases s) simp_all

lemma trim_no_whitespace [simp]:
  assumes "\<forall>c \<in> set s. \<not> is_whitespace c"
  shows "trim s = s"
  using dropWhile_none [of s is_whitespace] dropWhile_none [of "rev s" is_whitespace] assms
  by (simp add: trim_def trim_start_def trim_end_matches_def)

section \<open>Substrings and lines\<close>

text \<open>\<open>split(c)\<close> for one character: one piece more than there are separators.\<close>

fun split_char :: "nat \<Rightarrow> ustr \<Rightarrow> ustr list" where
  "split_char c [] = [[]]"
| "split_char c (x # xs) =
     (if x = c then [] # split_char c xs
      else case split_char c xs of l # ls \<Rightarrow> (x # l) # ls | [] \<Rightarrow> [[x]])"

text \<open>\<open>split_once\<close> with a string pattern.\<close>

fun split_once_str :: "ustr \<Rightarrow> ustr \<Rightarrow> (ustr \<times> ustr) option" where
  "split_once_str pat [] = (if pat = [] then Some ([], []) else None)"
| "split_once_str pat (c # cs) =
     (if take (length pat) (c # cs) = pat then Some ([], drop (length pat) (c # cs))
      else map_option (\<lambda>(a, b). (c # a, b)) (split_once_str pat cs))"

text \<open>\<open>s[i..j]\<close> on byte offsets: \<open>None\<close> is the panic off the end or inside a character.\<close>

fun byte_split :: "nat \<Rightarrow> ustr \<Rightarrow> (ustr \<times> ustr) option" where
  "byte_split n [] = (if n = 0 then Some ([], []) else None)"
| "byte_split n (c # cs) =
     (if n = 0 then Some ([], c # cs)
      else if length (utf8_char c) \<le> n
        then map_option (\<lambda>(a, b). (c # a, b)) (byte_split (n - length (utf8_char c)) cs)
      else None)"

definition str_slice :: "nat \<Rightarrow> nat \<Rightarrow> ustr \<Rightarrow> ustr option" where
  "str_slice i j s =
     (if i > j then None
      else do {
        (_, rest) \<leftarrow> byte_split i s;
        (piece, _) \<leftarrow> byte_split (j - i) rest;
        Some piece
      })"

text \<open>
  \<open>format!("{s:?}")\<close>: quotes, the backslash escapes, and \<open>\u{..}\<close> for what is not written as it
  is. \<open>plain\<close> is the Unicode table behind that decision (printable and not grapheme-extending).
\<close>

definition hex_digit :: "nat \<Rightarrow> nat" where
  "hex_digit d = (if d < 10 then 48 + d else 87 + d)"

fun show_hex :: "nat \<Rightarrow> ustr" where
  "show_hex n = (if n < 16 then [hex_digit n] else show_hex (n div 16) @ [hex_digit (n mod 16)])"

declare show_hex.simps [simp del]

definition debug_char :: "(nat \<Rightarrow> bool) \<Rightarrow> nat \<Rightarrow> ustr" where
  "debug_char plain c =
     (if c = 0 then [92, 48]
      else if c = 9 then [92, 116]
      else if c = 13 then [92, 114]
      else if c = 10 then [92, 110]
      else if c = 34 then [92, 34]
      else if c = 92 then [92, 92]
      else if plain c then [c]
      else [92, 117, 123] @ show_hex c @ [125])"

definition debug_str :: "(nat \<Rightarrow> bool) \<Rightarrow> ustr \<Rightarrow> ustr" where
  "debug_str plain s = [34] @ concat (map (debug_char plain) s) @ [34]"

lemma split_char_none: "c \<notin> set s \<Longrightarrow> split_char c s = [s]"
  by (induction s) auto

lemma split_char_nonempty [simp]: "split_char c s \<noteq> []"
  by (cases s) (auto split: list.splits)

lemma split_char_append: "c \<notin> set a \<Longrightarrow> split_char c (a @ c # b) = a # split_char c b"
  by (induction a) auto

lemma show_nat_no_space: "c \<in> set (show_nat n) \<Longrightarrow> \<not> is_whitespace c \<and> c \<noteq> 32 \<and> c < 128"
  using show_nat_digits [of n] by (auto simp: is_whitespace_def)

lemma trim_show_nat [simp]: "trim (show_nat n) = show_nat n"
  by (simp add: show_nat_no_space)

lemma trim_start_none: "s = [] \<or> \<not> is_whitespace (hd s) \<Longrightarrow> trim_start s = s"
  by (cases s) (auto simp: trim_start_def)

lemma trim_start_show_nat [simp]: "trim_start (show_nat n @ s) = show_nat n @ s"
  by (rule trim_start_none) (metis hd_append2 hd_in_set show_nat_no_space show_nat_nonempty)

text \<open>Plain ASCII text, padding and hexadecimal digits.\<close>

lemma byte_split_ascii: "\<forall>c \<in> set s. c < 128 \<Longrightarrow> n \<le> length s \<Longrightarrow> byte_split n s = Some (take n s, drop n s)"
proof (induction s arbitrary: n)
  case (Cons c s)
  then show ?case by (cases n) (auto simp: utf8_char_def)
qed simp

lemma str_slice_ascii:
  "\<forall>c \<in> set s. c < 128 \<Longrightarrow> i \<le> j \<Longrightarrow> j \<le> length s \<Longrightarrow> str_slice i j s = Some (take (j - i) (drop i s))"
proof -
  assume s: "\<forall>c \<in> set s. c < 128" "i \<le> j" "j \<le> length s"
  then have "\<forall>c \<in> set (drop i s). c < 128" by (meson in_set_dropD)
  from byte_split_ascii [OF this, of "j - i"] byte_split_ascii [OF s(1), of i] s show ?thesis
    by (simp add: str_slice_def)
qed

lemma str_len_ascii: "\<forall>c \<in> set s. c < 128 \<Longrightarrow> str_len s = length s"
  by (induction s) (auto simp: str_len_def utf8_char_def)

lemma trim_padded:
  assumes "\<forall>c \<in> set a. is_whitespace c" "\<forall>c \<in> set b. is_whitespace c" "s \<noteq> []" "\<forall>c \<in> set s. \<not> is_whitespace c"
  shows "trim (a @ s @ b) = s"
proof -
  have "dropWhile is_whitespace (a @ s @ b) = s @ b"
    using assms by (cases s) (simp_all add: dropWhile_append2)
  moreover have "dropWhile is_whitespace (rev b @ rev s) = rev s"
  proof -
    have "dropWhile is_whitespace (rev b @ rev s) = dropWhile is_whitespace (rev s)"
      using assms(2) by (intro dropWhile_append2) simp
    also have "\<dots> = rev s" using assms(4) by (auto simp: dropWhile_eq_self_iff hd_rev)
    finally show ?thesis .
  qed
  ultimately show ?thesis by (simp add: trim_def trim_start_def trim_end_matches_def)
qed

lemma hex_digit_props: "d < 16 \<Longrightarrow> to_digit 16 (hex_digit d) = Some d \<and> hex_digit d < 128 \<and> \<not> is_whitespace (hex_digit d)
    \<and> hex_digit d \<noteq> 43 \<and> hex_digit d \<noteq> 45"
  by (auto simp: hex_digit_def to_digit_def is_whitespace_def)

lemma parse_hex_pair: "a < 16 \<Longrightarrow> b < 16 \<Longrightarrow> parse_unsigned 16 255 [hex_digit a, hex_digit b] = Some (a * 16 + b)"
  by (simp add: parse_unsigned_def hex_digit_props)

section \<open>64-bit numbers\<close>

definition parse_u64 :: "ustr \<Rightarrow> u64 option" where
  "parse_u64 s = map_option of_nat (parse_unsigned 10 (2 ^ 64 - 1) s)"

definition show_u64 :: "u64 \<Rightarrow> ustr" where
  "show_u64 v = show_nat (unat v)"

lemma parse_show_u64 [simp]: "parse_u64 (show_u64 v) = Some v"
proof -
  have "unat v \<le> 2 ^ 64 - 1" using unsigned_less [where 'a = nat, of v] by simp
  then show ?thesis by (simp add: parse_u64_def show_u64_def parse_unsigned_show_nat)
qed

interpretation u64_text: coding "\<lambda>_. True" show_u64 parse_u64
  by unfold_locales simp

end
