(* ===== verification/Sodium.thy ===== *)
theory Sodium
  imports Rust_Text
begin

text \<open>
  The libsodium boundary, \<open>src/src/sodium.rs\<close>. libsodium, libc and the Win32 calls are not part
  of the repository: the record \<open>sodium_lib\<close> has one field per foreign declaration of the file
  and is an argument of everything that reaches a foreign call. What the crate relies on of them
  is stated as the predicates \<open>aead_contract\<close>, \<open>memory_contract\<close> and \<open>random_contract\<close>, taken
  from the contract comments at the declarations. The record \<open>world\<close> is the process state those
  calls act on: the guarded heap, the bytes left behind by released memory and by dropped DEK
  guards, the number of CSPRNG draws, the page-lock bookkeeping and the core-dump limit.

  Main facts: encryption and decryption through the wrappers agree with the AEAD of the library
  on every branch, a failed decryption wipes the output region, no wrapper panics, the Windows
  working set grows only on a quota refusal and never past its ceiling, and the startup check
  succeeds exactly when all its parts do. \<open>demo_sodium\<close> is a small executable library that
  satisfies the contracts; the witnesses of the development run on it.
\<close>

section \<open>Constants and errors\<close>

definition KEYBYTES :: nat where "KEYBYTES = 32"

definition NPUBBYTES :: nat where "NPUBBYTES = 12"

definition ABYTES :: nat where "ABYTES = 16"

lemmas sodium_sizes = KEYBYTES_def NPUBBYTES_def ABYTES_def

datatype sodium_error =
    InitFailed
  | AbiMismatch ustr nat nat
  | AesGcmUnavailable
  | AuthFailed
  | InvalidLength
  | AllocFailed
  | MlockFailed
  | MunlockFailed
  | Internal

fun show_sodium_error :: "sodium_error \<Rightarrow> ustr" where
  "show_sodium_error InitFailed = str ''sodium_init failed''"
| "show_sodium_error (AbiMismatch what ours theirs) =
     str ''libsodium ABI mismatch on '' @ what @ str '': crate constant '' @ show_nat ours @
     str '', linked library reports '' @ show_nat theirs"
| "show_sodium_error AesGcmUnavailable =
     str ''AES-256-GCM unavailable: this libsodium build or CPU has no hardware crypto path. '' @
     str ''Some distro builds ship without it (e.g. Debian trixie arm64, Ubuntu 24.04 arm64); '' @
     str ''use a libsodium with the ARM crypto extensions (>= 1.0.20) or '' @
     str ''the self-contained build of this crate''"
| "show_sodium_error AuthFailed = str ''authentication failed''"
| "show_sodium_error InvalidLength = str ''invalid buffer length''"
| "show_sodium_error AllocFailed = str ''guarded allocation failed''"
| "show_sodium_error MlockFailed = str ''sodium_mlock failed''"
| "show_sodium_error MunlockFailed = str ''sodium_munlock failed''"
| "show_sodium_error Internal = str ''impossible libsodium result''"

section \<open>The process state and the foreign declarations\<close>

record rlimit =
  rlim_cur :: u64
  rlim_max :: u64

text \<open>
  \<open>heap\<close> lists the live guarded allocations by address. \<open>released\<close> records, for every
  \<open>sodium_free\<close>, the bytes the region held when it was handed over and the bytes left behind.
  \<open>wiped\<close> records what each dropped DEK guard left on the stack.
\<close>

record world =
  heap :: "(nat \<times> bytes) list"
  released :: "(bytes \<times> bytes) list"
  wiped :: "bytes list"
  draws :: nat
  lib_ready :: bool
  lock_calls :: nat
  ws_granted :: nat
  core_limit :: rlimit
  exit_hooks :: nat

text \<open>
  Foreign functions return what they report and write: \<open>x_encrypt\<close> and \<open>x_decrypt\<close> give the
  return code, the bytes written to the output and the length written through the length
  pointer. \<open>x_random\<close> is the CSPRNG's answer to its n-th call. \<open>x_malloc\<close> sees the live heap and
  answers an address with unspecified contents, or NULL. \<open>cfg_windows\<close> and \<open>cfg_unix64\<close> are
  the compile-time target switches of the source.
\<close>

record sodium_lib =
  x_version :: "bytes option"
  x_init :: "bool \<Rightarrow> int"
  x_available :: int
  x_keybytes :: nat
  x_npubbytes :: nat
  x_abytes :: nat
  x_encrypt :: "bytes \<Rightarrow> bytes \<Rightarrow> bytes \<Rightarrow> bytes \<Rightarrow> int \<times> bytes \<times> nat"
  x_decrypt :: "bytes \<Rightarrow> bytes \<Rightarrow> bytes \<Rightarrow> bytes \<Rightarrow> int \<times> bytes \<times> nat"
  x_random :: "nat \<Rightarrow> nat \<Rightarrow> bytes"
  x_malloc :: "nat \<Rightarrow> (nat \<times> bytes) list \<Rightarrow> (nat \<times> bytes) option"
  x_free :: "bytes \<Rightarrow> bytes"
  x_mlock :: "nat \<Rightarrow> nat \<Rightarrow> int"
  x_munlock :: "bytes \<Rightarrow> int \<times> bytes"
  x_memzero :: "bytes \<Rightarrow> bytes"
  x_memcmp :: "bytes \<Rightarrow> bytes \<Rightarrow> int"
  x_getrlimit :: int
  x_setrlimit :: "rlimit \<Rightarrow> int"
  x_last_os_error :: "nat \<Rightarrow> int option"
  x_get_working_set :: "int \<times> nat \<times> nat"
  x_set_working_set :: "nat \<Rightarrow> nat \<Rightarrow> int"
  x_atexit :: int
  cfg_windows :: bool
  cfg_unix64 :: bool

definition gcm :: "sodium_lib \<Rightarrow> bytes \<Rightarrow> bytes \<Rightarrow> bytes \<Rightarrow> bytes \<Rightarrow> bytes" where
  "gcm L k n a m = fst (snd (x_encrypt L k n a m))"

text \<open>
  Combined-mode AES-256-GCM: encryption always succeeds and appends a 16-byte tag; decryption
  recovers the plaintext of every encryption, reports success only for the exact ciphertext that
  encrypting the recovered plaintext produces (the tag is recomputed and compared), and in every
  case touches only the plaintext region of its output.
\<close>

definition aead_contract :: "sodium_lib \<Rightarrow> bool" where
  "aead_contract L \<longleftrightarrow>
     (\<forall>k n a m. length k = KEYBYTES \<longrightarrow> length n = NPUBBYTES \<longrightarrow>
        x_encrypt L k n a m = (0, gcm L k n a m, length m + ABYTES) \<and>
        length (gcm L k n a m) = length m + ABYTES \<and>
        x_decrypt L k n a (gcm L k n a m) = (0, m, length m)) \<and>
     (\<forall>k n a c rc m wr. length k = KEYBYTES \<longrightarrow> length n = NPUBBYTES \<longrightarrow> ABYTES \<le> length c \<longrightarrow>
        x_decrypt L k n a c = (rc, m, wr) \<longrightarrow>
        length m = length c - ABYTES \<and> (rc = 0 \<longrightarrow> gcm L k n a m = c))"

text \<open>
  Secure memory: zeroing zeroes, \<open>sodium_free\<close> leaves zeroes, an allocation is as long as asked
  and does not overlap a live one, and the constant-time comparison answers 0 exactly on equal
  buffers.
\<close>

definition memory_contract :: "sodium_lib \<Rightarrow> bool" where
  "memory_contract L \<longleftrightarrow>
     (\<forall>bs. x_memzero L bs = replicate (length bs) 0) \<and>
     (\<forall>bs. x_free L bs = replicate (length bs) 0) \<and>
     (\<forall>n h p c. x_malloc L n h = Some (p, c) \<longrightarrow> p \<notin> fst ` set h \<and> length c = n) \<and>
     (\<forall>a b. length a = length b \<longrightarrow> (x_memcmp L a b = 0 \<longleftrightarrow> a = b))"

definition random_contract :: "sodium_lib \<Rightarrow> bool" where
  "random_contract L \<longleftrightarrow> (\<forall>i n. length (x_random L i n) = n)"

definition sodium_contract :: "sodium_lib \<Rightarrow> bool" where
  "sodium_contract L \<longleftrightarrow> aead_contract L \<and> memory_contract L \<and> random_contract L"

section \<open>Initialisation and startup\<close>

datatype init_status = Fresh | AlreadyInitialised

definition sodium_init :: "sodium_lib \<Rightarrow> world \<Rightarrow> (sodium_error + init_status) \<times> world" where
  "sodium_init L w =
     (let rc = x_init L (lib_ready w) in
      if rc = 0 then (Ok Fresh, w\<lparr>lib_ready := True\<rparr>)
      else if rc = 1 then (Ok AlreadyInitialised, w\<lparr>lib_ready := True\<rparr>)
      else (Err InitFailed, w))"

definition version_string :: "sodium_lib \<Rightarrow> ustr" where
  "version_string L =
     (case x_version L of
        None \<Rightarrow> str ''(unknown)''
      | Some bs \<Rightarrow>
          (case from_utf8 bs of
             Some s \<Rightarrow> s
           | None \<Rightarrow> str ''(non-UTF-8 version string)''))"

text \<open>The loop of \<open>check_sizes\<close> over its table of (name, ours, theirs).\<close>

fun first_mismatch :: "(ustr \<times> nat \<times> nat) list \<Rightarrow> sodium_error + unit" where
  "first_mismatch [] = Ok ()"
| "first_mismatch ((name, ours, theirs) # checks) =
     (if ours \<noteq> theirs then Err (AbiMismatch name ours theirs) else first_mismatch checks)"

definition check_sizes :: "sodium_lib \<Rightarrow> sodium_error + unit" where
  "check_sizes L = first_mismatch
     [(str ''KEYBYTES'', KEYBYTES, x_keybytes L),
      (str ''NPUBBYTES'', NPUBBYTES, x_npubbytes L),
      (str ''ABYTES'', ABYTES, x_abytes L)]"

definition aes_gcm_available :: "sodium_lib \<Rightarrow> bool" where
  "aes_gcm_available L \<longleftrightarrow> x_available L = 1"

definition require_aes_gcm :: "sodium_lib \<Rightarrow> sodium_error + unit" where
  "require_aes_gcm L = (if aes_gcm_available L then Ok () else Err AesGcmUnavailable)"

definition startup_check :: "sodium_lib \<Rightarrow> world \<Rightarrow> (sodium_error + ustr) \<times> world" where
  "startup_check L w =
     (case sodium_init L w of
        (Err e, w1) \<Rightarrow> (Err e, w1)
      | (Ok _, w1) \<Rightarrow>
          (case check_sizes L of
             Err e \<Rightarrow> (Err e, w1)
           | Ok _ \<Rightarrow>
               (case require_aes_gcm L of
                  Err e \<Rightarrow> (Err e, w1)
                | Ok _ \<Rightarrow> (Ok (version_string L), w1))))"

text \<open>
  \<open>disable_core_dumps\<close>: lower the soft limit to 0, keep the hard limit. The error is the failing
  call's return code. Elsewhere than on 64-bit Unix it is a no-op.
\<close>

definition disable_core_dumps :: "sodium_lib \<Rightarrow> world \<Rightarrow> (int + unit) \<times> world" where
  "disable_core_dumps L w =
     (if \<not> cfg_unix64 L then (Ok (), w)
      else if x_getrlimit L \<noteq> 0 then (Err (x_getrlimit L), w)
      else let requested = \<lparr>rlim_cur = 0, rlim_max = rlim_max (core_limit w)\<rparr> in
        if x_setrlimit L requested \<noteq> 0 then (Err (x_setrlimit L requested), w)
        else (Ok (), w\<lparr>core_limit := requested\<rparr>))"

text \<open>\<open>register_exit_hook\<close> discards the result of \<open>atexit\<close>: a failed registration is not reported.\<close>

definition register_exit_hook :: "sodium_lib \<Rightarrow> world \<Rightarrow> world" where
  "register_exit_hook L w = (if x_atexit L = 0 then w\<lparr>exit_hooks := Suc (exit_hooks w)\<rparr> else w)"

section \<open>Secure memory\<close>

definition memzero :: "sodium_lib \<Rightarrow> bytes \<Rightarrow> bytes" where
  "memzero L buf = (if buf = [] then buf else x_memzero L buf)"

definition usize_saturating_add :: "nat \<Rightarrow> nat \<Rightarrow> nat" where
  "usize_saturating_add a b = min (a + b) USIZE_MAX"

definition ERROR_WORKING_SET_QUOTA :: int where "ERROR_WORKING_SET_QUOTA = 1453"

definition ERROR_NOT_ENOUGH_QUOTA :: int where "ERROR_NOT_ENOUGH_QUOTA = 1816"

definition WS_HEADROOM :: nat where "WS_HEADROOM = 8 * 1024 * 1024"

definition WS_MAX_TOTAL :: nat where "WS_MAX_TOTAL = 64 * 1024 * 1024"

text \<open>
  The last OS error is the one the failed lock call set, so it is indexed by the number of lock
  calls made. \<open>ws_granted\<close> is the static \<open>GRANTED\<close>.
\<close>

definition grow_locked_page_budget :: "sodium_lib \<Rightarrow> nat \<Rightarrow> world \<Rightarrow> bool \<times> world" where
  "grow_locked_page_budget L len w =
     (if x_last_os_error L (lock_calls w) \<notin>
           {Some ERROR_WORKING_SET_QUOTA, Some ERROR_NOT_ENOUGH_QUOTA} then (False, w)
      else let step = usize_saturating_add len WS_HEADROOM;
               total = usize_saturating_add (ws_granted w) step in
        if total > WS_MAX_TOTAL then (False, w)
        else case x_get_working_set L of
          (queried, minimum, maximum) \<Rightarrow>
            if queried = 0 then (False, w)
            else let new_minimum = usize_saturating_add minimum step;
                     new_maximum = max (usize_saturating_add maximum step) new_minimum in
              if x_set_working_set L new_minimum new_maximum = 0 then (False, w)
              else (True, w\<lparr>ws_granted := total\<rparr>))"

definition try_mlock :: "sodium_lib \<Rightarrow> nat \<Rightarrow> world \<Rightarrow> bool \<times> world" where
  "try_mlock L len w = (x_mlock L (lock_calls w) len = 0, w\<lparr>lock_calls := Suc (lock_calls w)\<rparr>)"

definition mlock :: "sodium_lib \<Rightarrow> bytes \<Rightarrow> world \<Rightarrow> (sodium_error + unit) \<times> world" where
  "mlock L buf w =
     (if buf = [] then (Ok (), w)
      else case try_mlock L (length buf) w of
        (True, w1) \<Rightarrow> (Ok (), w1)
      | (False, w1) \<Rightarrow>
          if cfg_windows L then
            (case grow_locked_page_budget L (length buf) w1 of
               (True, w2) \<Rightarrow>
                 (case try_mlock L (length buf) w2 of
                    (True, w3) \<Rightarrow> (Ok (), w3)
                  | (False, w3) \<Rightarrow> (Err MlockFailed, w3))
             | (False, w2) \<Rightarrow> (Err MlockFailed, w2))
          else (Err MlockFailed, w1))"

definition munlock :: "sodium_lib \<Rightarrow> bytes \<Rightarrow> (sodium_error + unit) \<times> bytes" where
  "munlock L buf =
     (if buf = [] then (Ok (), buf)
      else case x_munlock L buf of
        (rc, buf') \<Rightarrow> ((if rc = 0 then Ok () else Err MunlockFailed), buf'))"

definition ct_eq :: "sodium_lib \<Rightarrow> bytes \<Rightarrow> bytes \<Rightarrow> bool" where
  "ct_eq L a b =
     (if length a \<noteq> length b then False else if a = [] then True else x_memcmp L a b = 0)"

subsection \<open>Guarded allocations\<close>

record galloc =
  ga_ptr :: nat
  ga_len :: nat

definition galloc_len :: "galloc \<Rightarrow> nat" where
  "galloc_len g = ga_len g"

definition galloc_is_empty :: "galloc \<Rightarrow> bool" where
  "galloc_is_empty g \<longleftrightarrow> ga_len g = 0"

definition mem :: "world \<Rightarrow> nat \<rightharpoonup> bytes" where
  "mem w = map_of (heap w)"

definition galloc_new :: "sodium_lib \<Rightarrow> nat \<Rightarrow> world \<Rightarrow> (sodium_error + galloc) \<times> world" where
  "galloc_new L len w =
     (case x_malloc L len (heap w) of
        None \<Rightarrow> (Err AllocFailed, w)
      | Some (p, c) \<Rightarrow> (Ok \<lparr>ga_ptr = p, ga_len = len\<rparr>, w\<lparr>heap := (p, c) # heap w\<rparr>))"

text \<open>
  \<open>as_slice\<close>, and writing through \<open>as_mut_slice\<close>. Reading through a dangling pointer would be
  undefined behaviour; the keystore's invariant excludes it and the model reads nothing there.
\<close>

definition galloc_slice :: "world \<Rightarrow> galloc \<Rightarrow> bytes" where
  "galloc_slice w g = (case mem w (ga_ptr g) of Some bs \<Rightarrow> take (ga_len g) bs | None \<Rightarrow> [])"

definition galloc_write :: "galloc \<Rightarrow> bytes \<Rightarrow> world \<Rightarrow> world" where
  "galloc_write g bs w = w\<lparr>heap := map (\<lambda>(p, c). (p, if p = ga_ptr g then bs else c)) (heap w)\<rparr>"

definition galloc_drop :: "sodium_lib \<Rightarrow> galloc \<Rightarrow> world \<Rightarrow> world" where
  "galloc_drop L g w =
     (let c = galloc_slice w g in
      w\<lparr>heap := filter (\<lambda>(p, _). p \<noteq> ga_ptr g) (heap w), released := (c, x_free L c) # released w\<rparr>)"

section \<open>Authenticated encryption\<close>

text \<open>The debug rendering of \<open>Key\<close>, \<open>Nonce\<close> and \<open>Tag\<close> names the type and the size only.\<close>

definition debug_fixed_bytes :: "ustr \<Rightarrow> nat \<Rightarrow> bytes \<Rightarrow> ustr" where
  "debug_fixed_bytes name n bs = name @ str ''([..; '' @ show_nat n @ str ''])''"

definition aead_encrypt ::
  "sodium_lib \<Rightarrow> bytes \<Rightarrow> bytes \<Rightarrow> bytes \<Rightarrow> bytes \<Rightarrow> bytes \<Rightarrow> (sodium_error + nat) \<times> bytes" where
  "aead_encrypt L key nonce aad plaintext out =
     (if length plaintext + ABYTES > USIZE_MAX then (Err InvalidLength, out)
      else let needed = length plaintext + ABYTES in
        if length out < needed then (Err InvalidLength, out)
        else case x_encrypt L key nonce aad plaintext of
          (rc, c, written) \<Rightarrow>
            let out' = overwrite out c in
            if rc \<noteq> 0 \<or> written \<noteq> needed then (Err Internal, out') else (Ok needed, out'))"

definition aead_decrypt ::
  "sodium_lib \<Rightarrow> bytes \<Rightarrow> bytes \<Rightarrow> bytes \<Rightarrow> bytes \<Rightarrow> bytes \<Rightarrow> ((sodium_error + nat) \<times> bytes) option"
  where
  "aead_decrypt L key nonce aad ciphertext out =
     (case usize_sub (length ciphertext) ABYTES of
        None \<Rightarrow> Some (Err InvalidLength, out)
      | Some plen \<Rightarrow>
          if length out < plen then Some (Err InvalidLength, out)
          else case x_decrypt L key nonce aad ciphertext of
            (rc, m, written) \<Rightarrow>
              let out' = overwrite out m in
              if rc \<noteq> 0 then
                do {
                  region \<leftarrow> subslice_to plen out';
                  Some (Err AuthFailed, overwrite out' (memzero L region))
                }
              else if written \<noteq> plen then Some (Err Internal, out')
              else Some (Ok plen, out'))"

section \<open>Randomness\<close>

definition randombytes_fill :: "sodium_lib \<Rightarrow> nat \<Rightarrow> world \<Rightarrow> bytes \<times> world" where
  "randombytes_fill L n w =
     (if n = 0 then ([], w) else (x_random L (draws w) n, w\<lparr>draws := Suc (draws w)\<rparr>))"

definition random_key :: "sodium_lib \<Rightarrow> world \<Rightarrow> bytes \<times> world" where
  "random_key L w = randombytes_fill L KEYBYTES w"

definition random_nonce :: "sodium_lib \<Rightarrow> world \<Rightarrow> bytes \<times> world" where
  "random_nonce L w = randombytes_fill L NPUBBYTES w"

section \<open>A concrete library\<close>

text \<open>
  An executable library on which witnesses run: the ciphertext is the plaintext followed by a
  16-byte checksum of key, nonce, associated data and plaintext. It satisfies the contracts and
  is no cipher.
\<close>

definition demo_tag :: "bytes \<Rightarrow> bytes \<Rightarrow> bytes \<Rightarrow> bytes \<Rightarrow> bytes" where
  "demo_tag k n a m =
     (let s = foldl (\<lambda>acc b. acc * 3 + b + 1) 7 (k @ n @ a @ m) in map (\<lambda>i. s + of_nat i) [0..<16])"

definition demo_decrypt :: "bytes \<Rightarrow> bytes \<Rightarrow> bytes \<Rightarrow> bytes \<Rightarrow> int \<times> bytes \<times> nat" where
  "demo_decrypt k n a c =
     (let p = length c - ABYTES; m = take p c in
      if drop p c = demo_tag k n a m then (0, m, p) else (- 1, m, 0))"

definition demo_sodium :: sodium_lib where
  "demo_sodium =
     \<lparr>x_version = Some (as_bytes (str ''1.0.22'')),
      x_init = (\<lambda>ready. if ready then 1 else 0),
      x_available = 1,
      x_keybytes = 32, x_npubbytes = 12, x_abytes = 16,
      x_encrypt = (\<lambda>k n a m. (0, m @ demo_tag k n a m, length m + ABYTES)),
      x_decrypt = demo_decrypt,
      x_random = (\<lambda>i n. map (\<lambda>j. of_nat (7 * i + j)) [0..<n]),
      x_malloc = (\<lambda>n h. Some (Suc (foldr max (map fst h) 0), replicate n 0xDB)),
      x_free = (\<lambda>bs. replicate (length bs) 0),
      x_mlock = (\<lambda>_ _. 0),
      x_munlock = (\<lambda>bs. (0, replicate (length bs) 0)),
      x_memzero = (\<lambda>bs. replicate (length bs) 0),
      x_memcmp = (\<lambda>a b. if a = b then 0 else - 1),
      x_getrlimit = 0,
      x_setrlimit = (\<lambda>_. 0),
      x_last_os_error = (\<lambda>_. None),
      x_get_working_set = (1, 204800, 1413120),
      x_set_working_set = (\<lambda>_ _. 1),
      x_atexit = 0,
      cfg_windows = False,
      cfg_unix64 = True\<rparr>"

definition fresh_world :: world where
  "fresh_world =
     \<lparr>heap = [], released = [], wiped = [], draws = 0, lib_ready = False, lock_calls = 0,
      ws_granted = 0, core_limit = \<lparr>rlim_cur = 0xFFFFFFFFFFFFFFFF, rlim_max = 0xFFFFFFFFFFFFFFFF\<rparr>,
      exit_hooks = 0\<rparr>"

lemma demo_fields:
  "x_malloc demo_sodium n h = Some (Suc (foldr max (map fst h) 0), replicate n 0xDB)"
  "x_mlock demo_sodium i n = 0" "x_init demo_sodium r = (if r then 1 else 0)"
  "x_random demo_sodium i n = map (\<lambda>j. of_nat (7 * i + j)) [0..<n]"
  by (simp_all add: demo_sodium_def)

lemma fresh_fields:
  "heap fresh_world = []" "lib_ready fresh_world = False" "lock_calls fresh_world = 0"
  "released fresh_world = []" "wiped fresh_world = []"
  by (simp_all add: fresh_world_def)

lemma foldr_max_bound: "x \<in> set xs \<Longrightarrow> x < Suc (foldr max xs (0 :: nat))"
  by (induction xs) auto

lemma length_demo_tag [simp]: "length (demo_tag k n a m) = ABYTES"
  by (simp add: demo_tag_def ABYTES_def Let_def)

lemma demo_gcm: "gcm demo_sodium k n a m = m @ demo_tag k n a m"
  by (simp add: gcm_def demo_sodium_def)

lemma demo_decrypt_cases:
  assumes "x_decrypt demo_sodium k n a c = (rc, m, wr)"
  shows "m = take (length c - ABYTES) c"
    and "rc = 0 \<Longrightarrow> drop (length c - ABYTES) c = demo_tag k n a m"
  using assms by (auto simp: demo_sodium_def demo_decrypt_def Let_def split: if_splits)

lemma demo_aead: "aead_contract demo_sodium"
  unfolding aead_contract_def
proof (intro conjI allI impI)
  fix k n a m :: bytes
  show "x_encrypt demo_sodium k n a m = (0, gcm demo_sodium k n a m, length m + ABYTES)"
    unfolding demo_gcm by (simp add: demo_sodium_def)
  show "length (gcm demo_sodium k n a m) = length m + ABYTES"
    by (simp add: demo_gcm)
  show "x_decrypt demo_sodium k n a (gcm demo_sodium k n a m) = (0, m, length m)"
    unfolding demo_gcm by (simp add: demo_sodium_def demo_decrypt_def)
next
  fix k n a c m :: bytes and rc :: int and wr :: nat
  assume len: "ABYTES \<le> length c" and dec: "x_decrypt demo_sodium k n a c = (rc, m, wr)"
  from demo_decrypt_cases(1) [OF dec] show "length m = length c - ABYTES" by simp
  assume "rc = 0"
  with demo_decrypt_cases [OF dec] have "m @ demo_tag k n a m = c"
    by (metis append_take_drop_id)
  then show "gcm demo_sodium k n a m = c" by (simp add: demo_gcm)
qed

lemma demo_memory: "memory_contract demo_sodium"
  unfolding memory_contract_def
proof (intro conjI allI impI)
  fix n p :: nat and h and c :: bytes
  assume "x_malloc demo_sodium n h = Some (p, c)"
  then have eq: "p = Suc (foldr max (map fst h) 0)" "c = replicate n 0xDB"
    by (simp_all add: demo_fields)
  show "p \<notin> fst ` set h"
  proof
    assume "p \<in> fst ` set h"
    then have "p \<in> set (map fst h)" by simp
    from foldr_max_bound [OF this] eq(1) show False by simp
  qed
  show "length c = n" by (simp add: eq(2))
qed (simp_all add: demo_sodium_def)

lemma demo_random: "random_contract demo_sodium"
  by (simp add: random_contract_def demo_sodium_def)

lemma demo_contract: "sodium_contract demo_sodium"
  by (simp add: sodium_contract_def demo_aead demo_memory demo_random)

section \<open>The wrappers against the contract\<close>

lemma sodium_contractD:
  assumes "sodium_contract L"
  shows "aead_contract L" "memory_contract L" "random_contract L"
  using assms by (simp_all add: sodium_contract_def)

lemma memzero_zero: "memory_contract L \<Longrightarrow> memzero L buf = replicate (length buf) 0"
  by (simp add: memzero_def memory_contract_def)

lemma free_zero: "memory_contract L \<Longrightarrow> x_free L buf = replicate (length buf) 0"
  by (simp add: memory_contract_def)

lemma malloc_fresh:
  "memory_contract L \<Longrightarrow> x_malloc L n h = Some (p, c) \<Longrightarrow> p \<notin> fst ` set h \<and> length c = n"
  unfolding memory_contract_def by blast

lemma aead_contract_enc:
  assumes "aead_contract L" "length k = KEYBYTES" "length n = NPUBBYTES"
  shows "x_encrypt L k n a m = (0, gcm L k n a m, length m + ABYTES)"
    and "length (gcm L k n a m) = length m + ABYTES"
    and "x_decrypt L k n a (gcm L k n a m) = (0, m, length m)"
  using assms unfolding aead_contract_def by blast+

lemma aead_contract_dec:
  assumes "aead_contract L" "length k = KEYBYTES" "length n = NPUBBYTES" "ABYTES \<le> length c"
    and "x_decrypt L k n a c = (rc, m, wr)"
  shows "length m = length c - ABYTES" and "rc = 0 \<Longrightarrow> gcm L k n a m = c"
  using assms unfolding aead_contract_def by blast+

lemmas length_gcm [wire_simps] = aead_contract_enc(2)

text \<open>The decryption verdict as a partial function, and that it inverts encryption exactly.\<close>

definition gcm_open :: "sodium_lib \<Rightarrow> bytes \<Rightarrow> bytes \<Rightarrow> bytes \<Rightarrow> bytes \<Rightarrow> bytes option" where
  "gcm_open L k n a c = (case x_decrypt L k n a c of (rc, m, _) \<Rightarrow> if rc = 0 then Some m else None)"

lemma gcm_open_gcm [simp]:
  assumes "aead_contract L" "length k = KEYBYTES" "length n = NPUBBYTES"
  shows "gcm_open L k n a (gcm L k n a m) = Some m"
  unfolding gcm_open_def aead_contract_enc(3) [OF assms] by simp

lemma gcm_open_sound:
  assumes "aead_contract L" "length k = KEYBYTES" "length n = NPUBBYTES" "ABYTES \<le> length c"
    and "gcm_open L k n a c = Some m"
  shows "c = gcm L k n a m"
proof -
  from assms(5) obtain wr where "x_decrypt L k n a c = (0, m, wr)"
    by (auto simp: gcm_open_def split: prod.splits if_splits)
  from aead_contract_dec(2) [OF assms(1-4) this] show ?thesis by simp
qed

lemma gcm_open_iff:
  assumes "aead_contract L" "length k = KEYBYTES" "length n = NPUBBYTES" "ABYTES \<le> length c"
  shows "gcm_open L k n a c = Some m \<longleftrightarrow> c = gcm L k n a m"
  using gcm_open_sound [OF assms] gcm_open_gcm [OF assms(1-3)] by auto

lemma gcm_inject:
  assumes "aead_contract L" "length k = KEYBYTES" "length n = NPUBBYTES"
  shows "gcm L k n a m = gcm L k n a m' \<longleftrightarrow> m = m'"
  using gcm_open_gcm [OF assms, of a m] gcm_open_gcm [OF assms, of a m']
  by (metis option.inject)

lemma aead_encrypt_ok:
  assumes "aead_contract L" "length k = KEYBYTES" "length n = NPUBBYTES"
    and "length m + ABYTES \<le> USIZE_MAX" "length m + ABYTES \<le> length out"
  shows "aead_encrypt L k n a m out = (Ok (length m + ABYTES), overwrite out (gcm L k n a m))"
  using assms(4,5) unfolding aead_encrypt_def aead_contract_enc(1) [OF assms(1-3)]
  by (simp add: Let_def)

lemma aead_decrypt_spec:
  assumes "aead_contract L" "memory_contract L" "length k = KEYBYTES" "length n = NPUBBYTES"
  shows "aead_decrypt L k n a c out =
    (if length c < ABYTES \<or> length out < length c - ABYTES then Some (Err InvalidLength, out)
     else case gcm_open L k n a c of
       Some m \<Rightarrow> Some (Ok (length m), overwrite out m)
     | None \<Rightarrow> Some (Err AuthFailed, overwrite out (replicate (length c - ABYTES) 0)))"
proof (cases "length c < ABYTES \<or> length out < length c - ABYTES")
  case True
  then show ?thesis by (auto simp: aead_decrypt_def usize_sub_def)
next
  case False
  then have c: "ABYTES \<le> length c" and out: "length c - ABYTES \<le> length out" by auto
  obtain rc m wr where dec: "x_decrypt L k n a c = (rc, m, wr)" by (metis prod_cases3)
  note len = aead_contract_dec(1) [OF assms(1,3,4) c dec]
  show ?thesis
  proof (cases "rc = 0")
    case True
    from aead_contract_dec(2) [OF assms(1,3,4) c dec True]
    have "x_decrypt L k n a c = (0, m, length m)"
      using aead_contract_enc(3) [OF assms(1,3,4), of a m] by simp
    then show ?thesis using len c out
      by (simp add: aead_decrypt_def gcm_open_def Let_def)
  next
    case rc: False
    with dec c out len show ?thesis
      by (simp add: aead_decrypt_def gcm_open_def Let_def memzero_zero [OF assms(2)])
        (simp add: overwrite_def)
  qed
qed

lemma aead_decrypt_no_panic: "aead_decrypt L k n a c out \<noteq> None"
proof (cases "ABYTES \<le> length c \<and> length c - ABYTES \<le> length out")
  case True
  moreover obtain rc m wr where "x_decrypt L k n a c = (rc, m, wr)" by (metis prod_cases3)
  moreover from True have "length c - ABYTES \<le> length (overwrite out m)"
    by (simp add: overwrite_def) arith
  ultimately show ?thesis by (simp add: aead_decrypt_def Let_def)
next
  case False
  then show ?thesis by (auto simp: aead_decrypt_def usize_sub_def)
qed

lemma ct_eq_iff: "memory_contract L \<Longrightarrow> ct_eq L a b \<longleftrightarrow> a = b"
  unfolding ct_eq_def memory_contract_def by auto

lemma length_random [wire_simps]:
  "random_contract L \<Longrightarrow> length (fst (random_nonce L w)) = NPUBBYTES"
  "random_contract L \<Longrightarrow> length (fst (random_key L w)) = KEYBYTES"
  by (simp_all add: random_nonce_def random_key_def randombytes_fill_def random_contract_def
      sodium_sizes)

section \<open>Page locking\<close>

lemma grow_total_increases:
  assumes "\<not> WS_MAX_TOTAL < usize_saturating_add g (usize_saturating_add len WS_HEADROOM)"
  shows "g < usize_saturating_add g (usize_saturating_add len WS_HEADROOM)"
  using assms by (simp add: usize_saturating_add_def WS_HEADROOM_def WS_MAX_TOTAL_def USIZE_MAX_def
      min_def split: if_splits)

lemma grow_total_exact:
  assumes "\<not> WS_MAX_TOTAL < usize_saturating_add g (usize_saturating_add len WS_HEADROOM)"
  shows "usize_saturating_add g (usize_saturating_add len WS_HEADROOM) = g + len + WS_HEADROOM"
  using assms by (simp add: usize_saturating_add_def WS_HEADROOM_def WS_MAX_TOTAL_def USIZE_MAX_def
      min_def split: if_splits)

lemma grow_locked_page_budget_cases:
  assumes grow: "grow_locked_page_budget L len w = (grown, w')"
  obtains "\<not> grown" "w' = w"
  | total where "grown" "w' = w\<lparr>ws_granted := total\<rparr>" "ws_granted w < total" "total \<le> WS_MAX_TOTAL"
      "total = ws_granted w + len + WS_HEADROOM"
      "x_last_os_error L (lock_calls w) \<in> {Some ERROR_WORKING_SET_QUOTA, Some ERROR_NOT_ENOUGH_QUOTA}"
proof -
  obtain q mi ma where ws: "x_get_working_set L = (q, mi, ma)" by (metis prod_cases3)
  define step where "step = usize_saturating_add len WS_HEADROOM"
  define total where "total = usize_saturating_add (ws_granted w) step"
  define mi' where "mi' = usize_saturating_add mi step"
  define ma' where "ma' = max (usize_saturating_add ma step) mi'"
  define quota where "quota \<longleftrightarrow>
    x_last_os_error L (lock_calls w) \<in> {Some ERROR_WORKING_SET_QUOTA, Some ERROR_NOT_ENOUGH_QUOTA}"
  have "grow_locked_page_budget L len w =
      (if quota \<and> total \<le> WS_MAX_TOTAL \<and> q \<noteq> 0 \<and> x_set_working_set L mi' ma' \<noteq> 0
       then (True, w\<lparr>ws_granted := total\<rparr>) else (False, w))"
    unfolding grow_locked_page_budget_def Let_def ws prod.case
      step_def [symmetric] total_def [symmetric] mi'_def [symmetric] ma'_def [symmetric]
    using quota_def by auto
  with grow have "(grown, w') = (False, w) \<or>
      (grown, w') = (True, w\<lparr>ws_granted := total\<rparr>) \<and> total \<le> WS_MAX_TOTAL \<and> quota"
    by (simp split: if_splits)
  moreover have "ws_granted w < total" if "total \<le> WS_MAX_TOTAL"
    using grow_total_increases [of "ws_granted w" len] that by (simp add: total_def step_def)
  moreover have "total = ws_granted w + len + WS_HEADROOM" if "total \<le> WS_MAX_TOTAL"
    using grow_total_exact [of "ws_granted w" len] that by (simp add: total_def step_def)
  ultimately show thesis using that by (auto simp: quota_def)
qed

text \<open>What \<open>mlock\<close> changes of the process state: its bookkeeping only.\<close>

definition lock_frame :: "world \<Rightarrow> world \<Rightarrow> bool" where
  "lock_frame w w' \<longleftrightarrow> w' = w\<lparr>lock_calls := lock_calls w', ws_granted := ws_granted w'\<rparr> \<and>
     (ws_granted w \<le> WS_MAX_TOTAL \<longrightarrow> ws_granted w' \<le> WS_MAX_TOTAL)"

lemma lock_frame_refl: "lock_frame w w"
  by (simp add: lock_frame_def)

lemma lock_frame_trans: "lock_frame w w1 \<Longrightarrow> lock_frame w1 w2 \<Longrightarrow> lock_frame w w2"
  unfolding lock_frame_def by (cases w, cases w1, cases w2) simp

lemma try_mlock_frame: "try_mlock L n w = (b, w') \<Longrightarrow> lock_frame w w'"
  by (auto simp: try_mlock_def lock_frame_def)

lemma grow_frame: "grow_locked_page_budget L n w = (b, w') \<Longrightarrow> lock_frame w w'"
  by (erule grow_locked_page_budget_cases) (auto simp: lock_frame_def)

lemma mlock_frame:
  assumes "mlock L buf w = (r, w')"
  shows "lock_frame w w'"
  using assms
  by (auto simp: mlock_def lock_frame_refl split: if_splits prod.splits bool.splits
      dest!: try_mlock_frame grow_frame intro: lock_frame_trans)

lemma mlock_memory:
  assumes "mlock L buf w = (r, w')"
  shows "heap w' = heap w" "released w' = released w"
  using mlock_frame [OF assms] unfolding lock_frame_def
  by (metis (no_types, lifting) world.ext_inject world.surjective world.update_convs(6,7))+

lemma mlock_result: "mlock L buf w = (r, w') \<Longrightarrow> r = Ok () \<or> r = Err MlockFailed"
  by (auto simp: mlock_def split: if_splits prod.splits bool.splits)

text \<open>The three ways through \<open>mlock\<close>: one call or none, a refused growth, a growth and a second call.\<close>

lemma mlock_cases:
  assumes "mlock L buf w = (r, w')"
  obtains "buf = [] \<or> x_mlock L (lock_calls w) (length buf) = 0" "r = Ok ()"
      "lock_calls w' \<le> Suc (lock_calls w)" "ws_granted w' = ws_granted w"
  | "buf \<noteq> []" "x_mlock L (lock_calls w) (length buf) \<noteq> 0" "r = Err MlockFailed"
      "lock_calls w' = Suc (lock_calls w)" "ws_granted w' = ws_granted w"
  | "buf \<noteq> []" "x_mlock L (lock_calls w) (length buf) \<noteq> 0" "cfg_windows L"
      "x_last_os_error L (Suc (lock_calls w)) \<in> {Some ERROR_WORKING_SET_QUOTA, Some ERROR_NOT_ENOUGH_QUOTA}"
      "lock_calls w' = lock_calls w + 2" "ws_granted w' = ws_granted w + length buf + WS_HEADROOM"
      "ws_granted w' \<noteq> ws_granted w"
      "r = (if x_mlock L (Suc (lock_calls w)) (length buf) = 0 then Ok () else Err MlockFailed)"
proof -
  define w1 where "w1 = w\<lparr>lock_calls := Suc (lock_calls w)\<rparr>"
  show thesis
  proof (cases "buf = [] \<or> x_mlock L (lock_calls w) (length buf) = 0")
    case True
    then show thesis using assms by (intro that(1)) (auto simp: mlock_def try_mlock_def split: if_splits)
  next
    case refused: False
    show thesis
    proof (cases "cfg_windows L")
      case False
      then show thesis using assms refused by (intro that(2)) (auto simp: mlock_def try_mlock_def)
    next
      case True
      obtain g w2 where g: "grow_locked_page_budget L (length buf) w1 = (g, w2)" by fastforce
      from grow_locked_page_budget_cases [OF g] show thesis
      proof cases
        case 1
        then show thesis using True refused assms g by (intro that(2)) (auto simp: mlock_def try_mlock_def w1_def)
      next
        case (2 total)
        then show thesis using True refused assms g
          by (intro that(3)) (auto simp: mlock_def try_mlock_def w1_def split: bool.splits)
      qed
    qed
  qed
qed

lemma demo_mlock: "\<exists>w'. mlock demo_sodium buf w = (Ok (), w')"
  by (simp add: mlock_def try_mlock_def demo_fields)

section \<open>Properties\<close>

text \<open>Decryption through the wrapper, on every branch: it never panics; short input or a short
  output buffer is reported with the buffer untouched; the exact ciphertext of a plaintext under the
  same key, nonce and associated data yields that plaintext at the front of the buffer; and anything
  else is an authentication failure that leaves zeroes where the plaintext would have been.\<close>

lemma aead_decrypt_behaviour:
  assumes "aead_contract L" "memory_contract L" "length k = KEYBYTES" "length n = NPUBBYTES"
  shows "aead_decrypt L k n a c out =
    (if length c < ABYTES \<or> length out < length c - ABYTES then Some (Err InvalidLength, out)
     else if \<exists>m. c = gcm L k n a m then
       Some (Ok (length c - ABYTES), overwrite out (THE m. c = gcm L k n a m))
     else Some (Err AuthFailed, overwrite out (replicate (length c - ABYTES) 0)))"
proof (cases "length c < ABYTES \<or> length out < length c - ABYTES")
  case True
  then show ?thesis by (simp add: aead_decrypt_spec [OF assms])
next
  case False
  then have iff: "gcm_open L k n a c = Some m \<longleftrightarrow> c = gcm L k n a m" for m
    using gcm_open_iff [OF assms(1,3,4)] by simp
  show ?thesis
  proof (cases "gcm_open L k n a c")
    case None
    then have "\<nexists>m. c = gcm L k n a m" using iff by simp
    then show ?thesis using False None by (simp add: aead_decrypt_spec [OF assms])
  next
    case (Some m)
    then have c: "c = gcm L k n a m" using iff by simp
    then have "(THE m. c = gcm L k n a m) = m" using gcm_inject [OF assms(1,3,4)] by auto
    moreover have "length c = length m + ABYTES" using c length_gcm [OF assms(1,3,4)] by simp
    ultimately show ?thesis using False Some c by (auto simp: aead_decrypt_spec [OF assms])
  qed
qed

text \<open>C39. Page locking, whatever the operating system answers. The lock succeeds exactly when the buffer is
  empty, the first call succeeds, or the working set was grown and the second call succeeds, and any
  other outcome is \<open>MlockFailed\<close>, after at most two calls. The working set granted to the process
  grows only on Windows and only after a lock refused with a quota error, by the length of the
  buffer and 8 MiB, and never passes its 64 MiB ceiling. Of the process state nothing but the number
  of lock calls and the granted amount changes.\<close>

theorem mlock_budget:
  assumes "mlock L buf w = (r, w')" "ws_granted w \<le> WS_MAX_TOTAL"
  shows "w' = w\<lparr>lock_calls := lock_calls w', ws_granted := ws_granted w'\<rparr> \<and>
    lock_calls w' \<le> lock_calls w + 2 \<and> ws_granted w' \<le> WS_MAX_TOTAL \<and>
    (ws_granted w' \<noteq> ws_granted w \<longrightarrow> ws_granted w' = ws_granted w + length buf + WS_HEADROOM \<and>
      cfg_windows L \<and> x_mlock L (lock_calls w) (length buf) \<noteq> 0 \<and>
      x_last_os_error L (Suc (lock_calls w)) \<in> {Some ERROR_WORKING_SET_QUOTA, Some ERROR_NOT_ENOUGH_QUOTA}) \<and>
    r = (if buf = [] \<or> x_mlock L (lock_calls w) (length buf) = 0 \<or>
            ws_granted w' \<noteq> ws_granted w \<and> x_mlock L (Suc (lock_calls w)) (length buf) = 0
         then Ok () else Err MlockFailed)"
proof -
  have "w' = w\<lparr>lock_calls := lock_calls w', ws_granted := ws_granted w'\<rparr>" "ws_granted w' \<le> WS_MAX_TOTAL"
    using mlock_frame [OF assms(1)] assms(2) by (simp_all add: lock_frame_def)
  moreover from assms(1) have "lock_calls w' \<le> lock_calls w + 2 \<and>
    (ws_granted w' \<noteq> ws_granted w \<longrightarrow> ws_granted w' = ws_granted w + length buf + WS_HEADROOM \<and>
      cfg_windows L \<and> x_mlock L (lock_calls w) (length buf) \<noteq> 0 \<and>
      x_last_os_error L (Suc (lock_calls w)) \<in> {Some ERROR_WORKING_SET_QUOTA, Some ERROR_NOT_ENOUGH_QUOTA}) \<and>
    r = (if buf = [] \<or> x_mlock L (lock_calls w) (length buf) = 0 \<or>
            ws_granted w' \<noteq> ws_granted w \<and> x_mlock L (Suc (lock_calls w)) (length buf) = 0
         then Ok () else Err MlockFailed)"
    by (rule mlock_cases) auto
  ultimately show ?thesis by blast
qed

theorem mlock_budget_witness:
  "fst (mlock (demo_sodium\<lparr>cfg_windows := True, x_mlock := \<lambda>i _. if i = 0 then - 1 else 0,
       x_last_os_error := \<lambda>_. Some ERROR_WORKING_SET_QUOTA\<rparr>) [1] fresh_world) = Ok () \<and>
   ws_granted (snd (mlock (demo_sodium\<lparr>cfg_windows := True, x_mlock := \<lambda>i _. if i = 0 then - 1 else 0,
       x_last_os_error := \<lambda>_. Some ERROR_WORKING_SET_QUOTA\<rparr>) [1] fresh_world)) = 8 * 1024 * 1024 + 1"
proof -
  define L where "L = demo_sodium\<lparr>cfg_windows := True, x_mlock := \<lambda>i _. if i = 0 then - 1 else 0,
       x_last_os_error := \<lambda>_. Some ERROR_WORKING_SET_QUOTA\<rparr>"
  obtain r w' where m: "mlock L [1] fresh_world = (r, w')" by fastforce
  have "ws_granted fresh_world \<le> WS_MAX_TOTAL" by (simp add: fresh_world_def)
  note b = mlock_budget [OF m this]
  have "ws_granted (snd (mlock L [1] fresh_world)) \<noteq> ws_granted fresh_world"
    by (simp add: L_def mlock_def try_mlock_def grow_locked_page_budget_def demo_sodium_def fresh_world_def
        usize_saturating_add_def WS_HEADROOM_def WS_MAX_TOTAL_def USIZE_MAX_def)
  then have "ws_granted w' = ws_granted fresh_world + 1 + WS_HEADROOM" "r = Ok ()"
    using b m by (simp_all add: L_def fresh_world_def)
  then show ?thesis
    unfolding L_def [symmetric] m by (simp add: fresh_world_def WS_HEADROOM_def)
qed

text \<open>The outcome of the startup check on every branch: a failure names the first part that failed.\<close>

lemma startup_check_result:
  "fst (startup_check L w) =
    (if x_init L (lib_ready w) \<notin> {0, 1} then Err InitFailed
     else if x_keybytes L \<noteq> 32 then Err (AbiMismatch (str ''KEYBYTES'') 32 (x_keybytes L))
     else if x_npubbytes L \<noteq> 12 then Err (AbiMismatch (str ''NPUBBYTES'') 12 (x_npubbytes L))
     else if x_abytes L \<noteq> 16 then Err (AbiMismatch (str ''ABYTES'') 16 (x_abytes L))
     else if x_available L \<noteq> 1 then Err AesGcmUnavailable
     else Ok (version_string L))"
  by (simp add: startup_check_def sodium_init_def check_sizes_def require_aes_gcm_def
      aes_gcm_available_def sodium_sizes Let_def)

end
