(* ===== verification/Ordered_Map.thy ===== *)
theory Ordered_Map
  imports Paxe_Prelude
begin

text \<open>
  \<open>std::collections::BTreeMap\<close> as the crate uses it: the keystore's table of link keys and the
  demo server's store. A map is the list of its entries in ascending key order, which is what
  iteration and \<open>range\<close> observe. \<open>bt_insert\<close> and \<open>bt_remove\<close> return the displaced value beside
  the new map, as the source's calls do. The locale \<open>key_table\<close> states what a client relies on;
  the interpretation shows that the ordered list provides it.
\<close>

type_synonym ('k, 'v) btree_map = "('k \<times> 'v) list"

definition bt_ok :: "('k :: linorder, 'v) btree_map \<Rightarrow> bool" where
  "bt_ok m \<longleftrightarrow> sorted_wrt (<) (map fst m)"

definition bt_get :: "('k, 'v) btree_map \<Rightarrow> 'k \<Rightarrow> 'v option" where
  "bt_get m = map_of m"

fun bt_put :: "'k :: linorder \<Rightarrow> 'v \<Rightarrow> ('k, 'v) btree_map \<Rightarrow> ('k, 'v) btree_map" where
  "bt_put k v [] = [(k, v)]"
| "bt_put k v ((a, b) # m) =
     (if k < a then (k, v) # (a, b) # m
      else if k = a then (k, v) # m
      else (a, b) # bt_put k v m)"

fun bt_delete :: "'k :: linorder \<Rightarrow> ('k, 'v) btree_map \<Rightarrow> ('k, 'v) btree_map" where
  "bt_delete k [] = []"
| "bt_delete k ((a, b) # m) = (if k = a then m else (a, b) # bt_delete k m)"

definition bt_insert :: "'k :: linorder \<Rightarrow> 'v \<Rightarrow> ('k, 'v) btree_map \<Rightarrow> 'v option \<times> ('k, 'v) btree_map"
  where "bt_insert k v m = (bt_get m k, bt_put k v m)"

definition bt_remove :: "'k :: linorder \<Rightarrow> ('k, 'v) btree_map \<Rightarrow> 'v option \<times> ('k, 'v) btree_map"
  where "bt_remove k m = (bt_get m k, bt_delete k m)"

definition bt_contains_key :: "('k, 'v) btree_map \<Rightarrow> 'k \<Rightarrow> bool" where
  "bt_contains_key m k \<longleftrightarrow> bt_get m k \<noteq> None"

text \<open>\<open>range(lo..=hi)\<close>, then \<open>next()\<close> and \<open>next_back()\<close> of the iterator.\<close>

definition bt_range :: "'k :: linorder \<Rightarrow> 'k \<Rightarrow> ('k, 'v) btree_map \<Rightarrow> ('k \<times> 'v) list" where
  "bt_range lo hi m = filter (\<lambda>(k, _). lo \<le> k \<and> k \<le> hi) m"

definition next_entry :: "'a list \<Rightarrow> 'a option" where
  "next_entry es = (if es = [] then None else Some (hd es))"

definition next_back :: "'a list \<Rightarrow> 'a option" where
  "next_back es = (if es = [] then None else Some (last es))"

section \<open>What a client relies on\<close>

locale key_table =
  fixes ok :: "'m \<Rightarrow> bool"
    and look :: "'m \<Rightarrow> 'k \<Rightarrow> 'v option"
    and put :: "'k \<Rightarrow> 'v \<Rightarrow> 'm \<Rightarrow> 'm"
    and del :: "'k \<Rightarrow> 'm \<Rightarrow> 'm"
    and count :: "'m \<Rightarrow> nat"
  assumes look_put: "ok m \<Longrightarrow> look (put k v m) = (look m)(k \<mapsto> v)"
    and look_del: "ok m \<Longrightarrow> look (del k m) = (look m)(k := None)"
    and ok_put: "ok m \<Longrightarrow> ok (put k v m)"
    and ok_del: "ok m \<Longrightarrow> ok (del k m)"
    and count_card: "ok m \<Longrightarrow> finite (dom (look m)) \<and> count m = card (dom (look m))"
begin

lemma count_put_new: "ok m \<Longrightarrow> look m k = None \<Longrightarrow> count (put k v m) = Suc (count m)"
  by (simp add: count_card ok_put look_put domIff)

lemma count_put_old: "ok m \<Longrightarrow> look m k \<noteq> None \<Longrightarrow> count (put k v m) = count m"
  by (simp add: count_card ok_put look_put domIff insert_absorb)

lemma count_del: "ok m \<Longrightarrow> look m k \<noteq> None \<Longrightarrow> Suc (count (del k m)) = count m"
  using card.remove [of "dom (look m)" k] by (simp add: count_card ok_del look_del domIff)

lemma count_del_absent: "ok m \<Longrightarrow> look m k = None \<Longrightarrow> count (del k m) = count m"
  by (simp add: count_card ok_del look_del domIff)

lemma capped_put:
  assumes "ok m" "count m \<le> cap" "look m k \<noteq> None \<or> count m < cap"
  shows "count (put k v m) \<le> cap"
  using assms by (cases "look m k") (auto simp: count_put_new count_put_old)

lemma capped_del: "ok m \<Longrightarrow> count m \<le> cap \<Longrightarrow> count (del k m) \<le> cap"
  by (cases "look m k") (auto simp: count_del_absent dest: count_del [of m k])

end

section \<open>The ordered list provides it\<close>

lemma bt_ok_Nil [simp]: "bt_ok []"
  by (simp add: bt_ok_def)

lemma bt_ok_Cons:
  "bt_ok ((a, b) # m) \<longleftrightarrow> bt_ok m \<and> (\<forall>k \<in> fst ` set m. a < k)"
  by (auto simp: bt_ok_def)

lemma keys_bt_put: "fst ` set (bt_put k v m) = insert k (fst ` set m)"
  by (induction k v m rule: bt_put.induct) auto

lemma keys_bt_delete: "bt_ok m \<Longrightarrow> fst ` set (bt_delete k m) = fst ` set m - {k}"
  by (induction k m rule: bt_delete.induct) (auto simp: bt_ok_Cons)

lemma set_bt_delete: "bt_ok m \<Longrightarrow> set (bt_delete k m) = {e \<in> set m. fst e \<noteq> k}"
  by (induction k m rule: bt_delete.induct) (auto simp: bt_ok_Cons)

lemma set_bt_put: "bt_ok m \<Longrightarrow> set (bt_put k v m) = insert (k, v) {e \<in> set m. fst e \<noteq> k}"
  by (induction k v m rule: bt_put.induct) (auto simp: bt_ok_Cons)

lemma bt_put_below: "\<forall>a \<in> fst ` set m. k < a \<Longrightarrow> bt_put k v m = (k, v) # m"
  by (cases m) auto

lemma bt_delete_absent: "k \<notin> fst ` set m \<Longrightarrow> bt_delete k m = m"
  by (induction k m rule: bt_delete.induct) auto

lemma bt_put_delete: "bt_ok m \<Longrightarrow> bt_put k v (bt_delete k m) = bt_put k v m"
proof (induction k m rule: bt_delete.induct)
  case (2 k a b m)
  consider "k = a" | "k < a" | "a < k" by fastforce
  then show ?case
  proof cases
    case 2
    then have "k \<notin> fst ` set m" using "2.prems" by (fastforce simp: bt_ok_Cons)
    with 2 show ?thesis by (auto simp: bt_delete_absent)
  qed (use 2 in \<open>auto simp: bt_ok_Cons bt_put_below\<close>)
qed simp

lemma bt_ok_put: "bt_ok m \<Longrightarrow> bt_ok (bt_put k v m)"
  by (induction k v m rule: bt_put.induct) (auto simp: bt_ok_Cons keys_bt_put)

lemma bt_ok_delete: "bt_ok m \<Longrightarrow> bt_ok (bt_delete k m)"
  by (induction k m rule: bt_delete.induct) (auto simp: bt_ok_Cons keys_bt_delete)

lemma bt_get_put: "bt_get (bt_put k v m) = (bt_get m)(k \<mapsto> v)"
  by (induction k v m rule: bt_put.induct) (auto simp: bt_get_def fun_eq_iff)

lemma bt_get_delete: "bt_ok m \<Longrightarrow> bt_get (bt_delete k m) = (bt_get m)(k := None)"
  unfolding bt_get_def
  by (induction k m rule: bt_delete.induct)
    (force simp: bt_ok_Cons fun_eq_iff map_of_eq_None_iff)+

lemma bt_ok_distinct: "bt_ok m \<Longrightarrow> distinct (map fst m)"
  by (auto simp: bt_ok_def strict_sorted_iff)

lemma bt_get_mem: "bt_ok m \<Longrightarrow> bt_get m k = Some v \<longleftrightarrow> (k, v) \<in> set m"
  by (simp add: bt_get_def bt_ok_distinct)

lemma bt_get_None: "bt_get m k = None \<longleftrightarrow> k \<notin> fst ` set m"
  by (simp add: bt_get_def map_of_eq_None_iff)

lemma bt_length: "bt_ok m \<Longrightarrow> finite (dom (bt_get m)) \<and> length m = card (dom (bt_get m))"
  using distinct_card [OF bt_ok_distinct, of m]
  by (simp add: bt_get_def finite_dom_map_of dom_map_of_conv_image_fst)

interpretation bt: key_table bt_ok bt_get bt_put bt_delete length
  by unfold_locales
    (simp_all add: bt_get_put bt_get_delete bt_ok_put bt_ok_delete bt_length)

section \<open>Ranges\<close>

lemma last_filter_max:
  fixes m :: "('k :: linorder \<times> 'v) list"
  assumes "sorted_wrt (<) (map fst m)" "filter p m \<noteq> []" "e \<in> set m" "p e"
  shows "fst e \<le> fst (last (filter p m))"
  using assms
proof (induction m)
  case (Cons x m)
  show ?case
  proof (cases "filter p m = []")
    case True
    with Cons.prems show ?thesis by (auto simp: filter_empty_conv split: if_splits)
  next
    case False
    then have "last (filter p m) \<in> set m" by (meson filter_is_subset last_in_set subsetD)
    with Cons False show ?thesis by (auto simp: order.strict_implies_order)
  qed
qed simp

lemma next_back_range:
  assumes "bt_ok m" and "next_back (bt_range lo hi m) = Some (k, v)"
  shows "bt_get m k = Some v \<and> lo \<le> k \<and> k \<le> hi \<and>
    (\<forall>k'. lo \<le> k' \<and> k' \<le> hi \<and> bt_get m k' \<noteq> None \<longrightarrow> k' \<le> k)"
proof -
  let ?p = "\<lambda>(k, _). lo \<le> k \<and> k \<le> hi"
  have ne: "filter ?p m \<noteq> []" and l: "last (filter ?p m) = (k, v)"
    using assms(2) by (auto simp: next_back_def bt_range_def split: if_splits)
  then have "(k, v) \<in> set (filter ?p m)" using last_in_set by metis
  moreover have "k' \<le> k" if "lo \<le> k'" "k' \<le> hi" "bt_get m k' = Some v'" for k' v'
    using last_filter_max [of m ?p "(k', v')"] assms(1) that ne l
    by (simp add: bt_ok_def bt_get_mem [OF assms(1)])
  ultimately show ?thesis using assms(1) by (auto simp: bt_get_mem)
qed

lemma next_back_range_None:
  "bt_ok m \<Longrightarrow> next_back (bt_range lo hi m) = None \<longleftrightarrow> (\<forall>k. lo \<le> k \<and> k \<le> hi \<longrightarrow> bt_get m k = None)"
  by (force simp: next_back_def bt_range_def filter_empty_conv bt_get_None)

lemma next_entry_range:
  "next_entry (bt_range lo hi m) \<noteq> None \<longleftrightarrow> (\<exists>k. lo \<le> k \<and> k \<le> hi \<and> bt_get m k \<noteq> None)"
  by (force simp: next_entry_def bt_range_def filter_empty_conv bt_get_None)

end
