(* ===== verification/Keystore.thy ===== *)
theory Keystore
  imports Sodium Ordered_Map
begin

text \<open>
  The secure keystore, \<open>src/src/keystore.rs\<close>: per-link keys in guarded allocations, addressed by
  (peer, epoch). \<open>keystore\<close> is the struct, its entries point into the guarded heap of \<open>world\<close>, and
  every operation is a function on both. \<open>ks_inv\<close> is the representation invariant: the table is
  ordered and within capacity, each entry owns one live 32-byte region of its own, and every live
  region is owned by an entry (so nothing leaks). \<open>ks_abs\<close> reads the store as a partial map from
  (peer, epoch) to key bytes; the refinement lemmas show that each operation acts on that map as
  its documentation says, and the erasure lemmas that whatever leaves the store has been zeroed
  before it is handed to \<open>sodium_free\<close>.
\<close>

section \<open>Epochs\<close>

definition MAX_ENTRIES :: nat where "MAX_ENTRIES = 1024"

definition MAX_EPOCH :: u8 where "MAX_EPOCH = 31"

datatype epoch = Epoch u8

primrec epoch_bits :: "epoch \<Rightarrow> u8" where
  "epoch_bits (Epoch b) = b"

lemma epoch_eq_iff: "a = b \<longleftrightarrow> epoch_bits a = epoch_bits b"
  by (cases a; cases b) simp

instantiation epoch :: linorder
begin

definition less_eq_epoch :: "epoch \<Rightarrow> epoch \<Rightarrow> bool" where
  "less_eq_epoch a b \<longleftrightarrow> epoch_bits a \<le> epoch_bits b"

definition less_epoch :: "epoch \<Rightarrow> epoch \<Rightarrow> bool" where
  "less_epoch a b \<longleftrightarrow> epoch_bits a < epoch_bits b"

instance
  by standard (auto simp: less_eq_epoch_def less_epoch_def epoch_eq_iff)

end

datatype keystore_error =
    InvalidEpoch u8
  | Full
  | KsSodium sodium_error

fun show_keystore_error :: "keystore_error \<Rightarrow> ustr" where
  "show_keystore_error (InvalidEpoch b) =
     str ''invalid key epoch '' @ show_nat (unat b) @ str '': must be 0-'' @ show_nat (unat MAX_EPOCH)"
| "show_keystore_error Full =
     str ''keystore at capacity ('' @ show_nat MAX_ENTRIES @
     str '' entries); retire an epoch before installing more''"
| "show_keystore_error (KsSodium e) = str ''secure-memory failure: '' @ show_sodium_error e"

definition epoch_new :: "u8 \<Rightarrow> keystore_error + epoch" where
  "epoch_new b = (if b > MAX_EPOCH then Err (InvalidEpoch b) else Ok (Epoch b))"

text \<open>The type invariant of \<open>Epoch\<close>, whose only constructor is \<open>epoch_new\<close>.\<close>

definition epoch_ok :: "epoch \<Rightarrow> bool" where
  "epoch_ok e \<longleftrightarrow> epoch_bits e \<le> MAX_EPOCH"

section \<open>Stored keys\<close>

text \<open>
  A \<open>StoredKey\<close> is its guarded allocation. \<open>stored_key_new\<close> drops the allocation when the pages
  cannot be locked; that path releases it through \<open>sodium_free\<close> alone.
\<close>

definition stored_key_new :: "sodium_lib \<Rightarrow> bytes \<Rightarrow> world \<Rightarrow> (sodium_error + galloc) \<times> world" where
  "stored_key_new L material w =
     (case galloc_new L KEYBYTES w of
        (Err e, w1) \<Rightarrow> (Err e, w1)
      | (Ok g, w1) \<Rightarrow>
          let w2 = galloc_write g material w1 in
          (case mlock L (galloc_slice w2 g) w2 of
             (Err e, w3) \<Rightarrow> (Err e, galloc_drop L g w3)
           | (Ok _, w3) \<Rightarrow> (Ok g, w3)))"

definition expose :: "world \<Rightarrow> galloc \<Rightarrow> bytes" where
  "expose w g = galloc_slice w g"

definition debug_stored_key :: "galloc \<Rightarrow> ustr" where
  "debug_stored_key g = str ''StoredKey([..; '' @ show_nat KEYBYTES @ str ''])''"

definition stored_key_drop :: "sodium_lib \<Rightarrow> galloc \<Rightarrow> world \<Rightarrow> world" where
  "stored_key_drop L g w = galloc_drop L g (galloc_write g (memzero L (galloc_slice w g)) w)"

section \<open>The store\<close>

record keystore =
  ks_local_id :: u16
  entries :: "(u16 \<times> epoch, galloc) btree_map"

definition keystore_new :: "sodium_lib \<Rightarrow> u16 \<Rightarrow> world \<Rightarrow> (keystore_error + keystore) \<times> world" where
  "keystore_new L local_id w =
     (case sodium_init L w of
        (Err e, w1) \<Rightarrow> (Err (KsSodium e), w1)
      | (Ok _, w1) \<Rightarrow> (Ok \<lparr>ks_local_id = local_id, entries = []\<rparr>, w1))"

definition install ::
  "sodium_lib \<Rightarrow> u16 \<Rightarrow> epoch \<Rightarrow> bytes \<Rightarrow> world \<Rightarrow> keystore \<Rightarrow> (keystore_error + unit) \<times> world \<times> keystore"
  where
  "install L peer epoch material w ks =
     (if \<not> bt_contains_key (entries ks) (peer, epoch) \<and> length (entries ks) \<ge> MAX_ENTRIES
      then (Err Full, w, ks)
      else case stored_key_new L material w of
        (Err e, w1) \<Rightarrow> (Err (KsSodium e), w1, ks)
      | (Ok key, w1) \<Rightarrow>
          (case bt_insert (peer, epoch) key (entries ks) of
             (None, es) \<Rightarrow> (Ok (), w1, ks\<lparr>entries := es\<rparr>)
           | (Some replaced, es) \<Rightarrow> (Ok (), stored_key_drop L replaced w1, ks\<lparr>entries := es\<rparr>)))"

definition key_for_send :: "keystore \<Rightarrow> u16 \<Rightarrow> epoch \<Rightarrow> galloc option" where
  "key_for_send ks to_id epoch = bt_get (entries ks) (to_id, epoch)"

definition key_for_receive :: "keystore \<Rightarrow> u16 \<Rightarrow> epoch \<Rightarrow> galloc option" where
  "key_for_receive ks from_id epoch = bt_get (entries ks) (from_id, epoch)"

definition key_for_send_current :: "keystore \<Rightarrow> u16 \<Rightarrow> (epoch \<times> galloc) option" where
  "key_for_send_current ks to_id =
     map_option (\<lambda>((_, epoch), key). (epoch, key))
       (next_back (bt_range (to_id, Epoch 0) (to_id, Epoch MAX_EPOCH) (entries ks)))"

definition peer_known :: "keystore \<Rightarrow> u16 \<Rightarrow> bool" where
  "peer_known ks peer \<longleftrightarrow>
     next_entry (bt_range (peer, Epoch 0) (peer, Epoch MAX_EPOCH) (entries ks)) \<noteq> None"

definition retire :: "sodium_lib \<Rightarrow> u16 \<Rightarrow> epoch \<Rightarrow> world \<Rightarrow> keystore \<Rightarrow> bool \<times> world \<times> keystore" where
  "retire L peer epoch w ks =
     (case bt_remove (peer, epoch) (entries ks) of
        (None, es) \<Rightarrow> (False, w, ks\<lparr>entries := es\<rparr>)
      | (Some key, es) \<Rightarrow> (True, stored_key_drop L key w, ks\<lparr>entries := es\<rparr>))"

text \<open>Dropping the values of a map, in key order.\<close>

definition drop_all :: "sodium_lib \<Rightarrow> galloc list \<Rightarrow> world \<Rightarrow> world" where
  "drop_all L keys w = fold (stored_key_drop L) keys w"

definition keystore_clear :: "sodium_lib \<Rightarrow> world \<Rightarrow> keystore \<Rightarrow> world \<times> keystore" where
  "keystore_clear L w ks = (drop_all L (map snd (entries ks)) w, ks\<lparr>entries := []\<rparr>)"

text \<open>The drop glue of a \<open>KeyStore\<close> that goes out of scope.\<close>

definition keystore_drop :: "sodium_lib \<Rightarrow> keystore \<Rightarrow> world \<Rightarrow> world" where
  "keystore_drop L ks w = drop_all L (map snd (entries ks)) w"

definition keystore_len :: "keystore \<Rightarrow> nat" where
  "keystore_len ks = length (entries ks)"

definition keystore_is_empty :: "keystore \<Rightarrow> bool" where
  "keystore_is_empty ks \<longleftrightarrow> entries ks = []"

section \<open>Heap lemmas\<close>

definition wf_heap :: "world \<Rightarrow> bool" where
  "wf_heap w \<longleftrightarrow> distinct (map fst (heap w))"

definition live :: "world \<Rightarrow> nat set" where
  "live w = fst ` set (heap w)"

lemma live_mem: "live w = dom (mem w)"
  by (simp add: live_def mem_def dom_map_of_conv_image_fst)

lemma map_of_write:
  "map_of (map (\<lambda>(p, c). (p, if p = q then bs else c)) h) =
    (if q \<in> fst ` set h then (map_of h)(q \<mapsto> bs) else map_of h)"
  by (induction h) (auto simp: fun_eq_iff)

lemma map_of_release: "map_of (filter (\<lambda>(p, _). p \<noteq> q) h) = (map_of h)(q := None)"
  by (induction h) (auto simp: fun_eq_iff)

lemma mem_galloc_write: "ga_ptr g \<in> live w \<Longrightarrow> mem (galloc_write g bs w) = (mem w)(ga_ptr g \<mapsto> bs)"
  by (simp add: mem_def galloc_write_def map_of_write live_def)

lemma mem_galloc_drop: "mem (galloc_drop L g w) = (mem w)(ga_ptr g := None)"
  by (simp add: mem_def galloc_drop_def Let_def map_of_release)

lemma wf_heap_write: "wf_heap w \<Longrightarrow> wf_heap (galloc_write g bs w)"
  by (simp add: wf_heap_def galloc_write_def case_prod_beta comp_def)

lemma wf_heap_drop: "wf_heap w \<Longrightarrow> wf_heap (galloc_drop L g w)"
  by (simp add: wf_heap_def galloc_drop_def Let_def distinct_map inj_on_def)

lemma released_write [simp]: "released (galloc_write g bs w) = released w"
  by (simp add: galloc_write_def)

lemma released_drop:
  "released (galloc_drop L g w) = (galloc_slice w g, x_free L (galloc_slice w g)) # released w"
  by (simp add: galloc_drop_def Let_def)

lemma slice_after_write:
  "ga_ptr g \<in> live w \<Longrightarrow> galloc_slice (galloc_write g bs w) g = take (ga_len g) bs"
  by (simp add: galloc_slice_def mem_galloc_write)

lemma galloc_slice_cong: "mem w (ga_ptr g) = mem w' (ga_ptr g) \<Longrightarrow> galloc_slice w g = galloc_slice w' g"
  by (simp add: galloc_slice_def)

section \<open>Erasure\<close>

definition zeros :: "nat \<Rightarrow> bytes" where
  "zeros n = replicate n 0"

text \<open>
  What dropping a stored key does: its region is zero when \<open>sodium_free\<close> receives it and zero
  when it is left behind, and no other region changes.
\<close>

lemma stored_key_drop_effect:
  assumes "memory_contract L" "wf_heap w" "mem w (ga_ptr g) = Some bs" "length bs = KEYBYTES"
    "ga_len g = KEYBYTES"
  shows "mem (stored_key_drop L g w) = (mem w)(ga_ptr g := None)"
    and "wf_heap (stored_key_drop L g w)"
    and "released (stored_key_drop L g w) = (zeros KEYBYTES, zeros KEYBYTES) # released w"
proof -
  have live: "ga_ptr g \<in> live w" using assms(3) by (auto simp: live_mem)
  have slice: "galloc_slice w g = bs" using assms(3-5) by (simp add: galloc_slice_def)
  then have zero: "memzero L (galloc_slice w g) = zeros KEYBYTES"
    by (simp add: memzero_zero [OF assms(1)] zeros_def assms(4))
  show "mem (stored_key_drop L g w) = (mem w)(ga_ptr g := None)"
    by (simp add: stored_key_drop_def mem_galloc_drop mem_galloc_write live)
  show "wf_heap (stored_key_drop L g w)"
    by (simp add: stored_key_drop_def wf_heap_drop wf_heap_write assms(2))
  show "released (stored_key_drop L g w) = (zeros KEYBYTES, zeros KEYBYTES) # released w"
    by (simp add: stored_key_drop_def released_drop zero slice_after_write live
        free_zero [OF assms(1)] assms(5)) (simp add: zeros_def)
qed

lemma stored_key_new_effect:
  assumes "memory_contract L" "wf_heap w" "length material = KEYBYTES"
    and "stored_key_new L material w = (r, w')"
  shows "case r of
      Inl e \<Rightarrow> mem w' = mem w \<and> wf_heap w' \<and>
        (released w' = released w \<or> released w' = (material, zeros KEYBYTES) # released w)
    | Inr g \<Rightarrow> ga_ptr g \<notin> live w \<and> ga_len g = KEYBYTES \<and> mem w' = (mem w)(ga_ptr g \<mapsto> material) \<and>
        wf_heap w' \<and> released w' = released w"
proof (cases "x_malloc L KEYBYTES (heap w)")
  case None
  with assms show ?thesis by (auto simp: stored_key_new_def galloc_new_def)
next
  case (Some pc)
  obtain p c where pc: "pc = (p, c)" by (cases pc)
  have fresh: "p \<notin> live w" using malloc_fresh [OF assms(1), of KEYBYTES "heap w" p c] Some pc
    by (simp add: live_def)
  define g where "g = \<lparr>ga_ptr = p, ga_len = KEYBYTES\<rparr>"
  define w1 where "w1 = w\<lparr>heap := (p, c) # heap w\<rparr>"
  define w2 where "w2 = galloc_write g material w1"
  have g: "ga_ptr g = p" "ga_len g = KEYBYTES" by (simp_all add: g_def)
  have mem1: "mem w1 = (mem w)(p \<mapsto> c)" and wf1: "wf_heap w1"
    using fresh assms(2) by (auto simp: mem_def w1_def wf_heap_def live_def)
  have live1: "p \<in> live w1" by (simp add: live_mem mem1)
  have mem2: "mem w2 = (mem w)(p \<mapsto> material)" and wf2: "wf_heap w2" and rel2: "released w2 = released w"
    using live1 wf1 by (simp_all add: w2_def mem_galloc_write wf_heap_write g mem1) (simp add: w1_def)
  obtain r3 w3 where lock: "mlock L (galloc_slice w2 g) w2 = (r3, w3)" by fastforce
  have "heap w3 = heap w2" "released w3 = released w2"
    using mlock_memory [OF lock] by simp_all
  then have w3: "mem w3 = mem w2" "wf_heap w3" "released w3 = released w"
    using wf2 rel2 by (simp_all add: mem_def wf_heap_def)
  have slice3: "galloc_slice w3 g = material" using assms(3) by (simp add: galloc_slice_def w3 mem2 g)
  have new: "galloc_new L KEYBYTES w = (Ok g, w1)"
    by (simp add: galloc_new_def Some pc g_def w1_def)
  have undo: "mem (galloc_drop L g w3) = mem w"
    using fresh by (simp add: mem_galloc_drop w3 mem2 g live_mem fun_upd_idem domIff)
  show ?thesis
  proof (cases r3)
    case (Inl e)
    with assms(4) new lock have "r = Err e" "w' = galloc_drop L g w3"
      by (simp_all add: stored_key_new_def w2_def Let_def)
    then show ?thesis
      by (simp add: undo wf_heap_drop w3 released_drop slice3 free_zero [OF assms(1)] assms(3) zeros_def)
  next
    case (Inr u)
    with assms(4) new lock have "r = Ok g" "w' = w3"
      by (simp_all add: stored_key_new_def w2_def Let_def)
    then show ?thesis using fresh by (simp add: g w3 mem2)
  qed
qed

text \<open>The three outcomes of \<open>stored_key_new\<close>: no region, pages that cannot be locked, a stored key.\<close>

lemma stored_key_new_outcome:
  assumes "memory_contract L" "wf_heap w" "length m = KEYBYTES"
  obtains "x_malloc L KEYBYTES (heap w) = None" "fst (stored_key_new L m w) = Err AllocFailed"
      "snd (stored_key_new L m w) = w"
  | a c where "x_malloc L KEYBYTES (heap w) = Some (a, c)"
      "fst (mlock L m (w\<lparr>heap := (a, m) # heap w\<rparr>)) = Err MlockFailed"
      "fst (stored_key_new L m w) = Err MlockFailed"
      "released (snd (stored_key_new L m w)) = (m, zeros KEYBYTES) # released w"
  | a c g where "x_malloc L KEYBYTES (heap w) = Some (a, c)"
      "fst (mlock L m (w\<lparr>heap := (a, m) # heap w\<rparr>)) = Ok ()" "fst (stored_key_new L m w) = Ok g"
proof (cases "x_malloc L KEYBYTES (heap w)")
  case None
  then show thesis by (intro that(1)) (simp_all add: stored_key_new_def galloc_new_def)
next
  case (Some ac)
  obtain a c where ac: "ac = (a, c)" by (cases ac)
  have fresh: "a \<notin> fst ` set (heap w)" using malloc_fresh [OF assms(1)] Some ac by blast
  define g where "g = \<lparr>ga_ptr = a, ga_len = KEYBYTES\<rparr>"
  define w2 where "w2 = w\<lparr>heap := (a, m) # heap w\<rparr>"
  have "map (\<lambda>(p, d). (p, if p = a then m else d)) (heap w) = heap w"
    using fresh by (force intro: map_idI)
  then have w2: "galloc_write g m (w\<lparr>heap := (a, c) # heap w\<rparr>) = w2"
    by (simp add: galloc_write_def g_def w2_def)
  have slice: "galloc_slice w2 g = m" by (simp add: galloc_slice_def g_def w2_def mem_def assms(3))
  obtain q w3 where lock: "mlock L m w2 = (q, w3)" by fastforce
  have new: "stored_key_new L m w = (case q of Err x \<Rightarrow> (Err x, galloc_drop L g w3) | Ok _ \<Rightarrow> (Ok g, w3))"
    by (simp add: stored_key_new_def galloc_new_def Some ac g_def [symmetric] w2 slice Let_def lock split: sum.split)
  have same: "heap w3 = heap w2" "released w3 = released w"
    using mlock_memory [OF lock] by (simp_all add: w2_def)
  show thesis
  proof (cases "q = Ok ()")
    case True
    then show thesis using Some ac lock new by (intro that(3)) (auto simp: w2_def)
  next
    case False
    then have q: "q = Err MlockFailed" using mlock_result [OF lock] by simp
    have "released (galloc_drop L g w3) = (m, zeros KEYBYTES) # released w"
      using same galloc_slice_cong [of w3 g w2] by (simp add: released_drop mem_def slice free_zero [OF assms(1)] assms(3) zeros_def)
    then show thesis using Some ac lock new q by (intro that(2)) (auto simp: w2_def)
  qed
qed

section \<open>Invariant and abstraction\<close>

definition key_ok :: "world \<Rightarrow> (u16 \<times> epoch) \<times> galloc \<Rightarrow> bool" where
  "key_ok w e \<longleftrightarrow> epoch_ok (snd (fst e)) \<and> ga_len (snd e) = KEYBYTES \<and>
     (\<exists>bs. mem w (ga_ptr (snd e)) = Some bs \<and> length bs = KEYBYTES)"

definition ptr_of :: "(u16 \<times> epoch) \<times> galloc \<Rightarrow> nat" where
  "ptr_of e = ga_ptr (snd e)"

definition ks_inv :: "world \<Rightarrow> keystore \<Rightarrow> bool" where
  "ks_inv w ks \<longleftrightarrow> bt_ok (entries ks) \<and> length (entries ks) \<le> MAX_ENTRIES \<and>
     (\<forall>e \<in> set (entries ks). key_ok w e) \<and> inj_on ptr_of (set (entries ks)) \<and>
     wf_heap w \<and> live w = ptr_of ` set (entries ks)"

type_synonym key_map = "u16 \<times> epoch \<rightharpoonup> bytes"

definition ks_abs :: "world \<Rightarrow> keystore \<Rightarrow> key_map" where
  "ks_abs w ks = (\<lambda>k. map_option (expose w) (bt_get (entries ks) k))"

lemma ks_absI: "bt_get (entries ks) (p, e) = Some g \<Longrightarrow> ks_abs w ks (p, e) = Some (expose w g)"
  by (simp add: ks_abs_def)

lemma ks_inv_entry:
  assumes "ks_inv w ks" "bt_get (entries ks) k = Some g"
  obtains bs where "mem w (ga_ptr g) = Some bs" "length bs = KEYBYTES" "ga_len g = KEYBYTES"
    "expose w g = bs" "epoch_ok (snd k)" "(k, g) \<in> set (entries ks)"
proof -
  from assms have "(k, g) \<in> set (entries ks)" by (simp add: ks_inv_def bt_get_mem)
  moreover with assms(1) have "key_ok w (k, g)" by (simp add: ks_inv_def)
  ultimately show thesis using that
    by (auto simp: key_ok_def expose_def galloc_slice_def)
qed

lemma ks_abs_length:
  assumes "ks_inv w ks" "ks_abs w ks k = Some bs"
  shows "length bs = KEYBYTES" and "epoch_ok (snd k)"
  using assms(2) ks_inv_entry [OF assms(1), of k] by (auto simp: ks_abs_def)

lemma ks_abs_dom: "ks_abs w ks k = None \<longleftrightarrow> bt_get (entries ks) k = None"
  by (simp add: ks_abs_def)

text \<open>
  The two ways an operation changes the store: the entry at \<open>k\<close>, if any, is dropped, and a fresh
  region may take its place.
\<close>

lemma entries_without:
  assumes "ks_inv w ks"
  shows "{e \<in> set (entries ks). fst e \<noteq> k} =
    (case bt_get (entries ks) k of None \<Rightarrow> set (entries ks) | Some g \<Rightarrow> set (entries ks) - {(k, g)})"
proof -
  have ok: "bt_ok (entries ks)" using assms by (simp add: ks_inv_def)
  show ?thesis
  proof (cases "bt_get (entries ks) k")
    case None
    then have "k \<notin> fst ` set (entries ks)" by (simp add: bt_get_None)
    then show ?thesis unfolding None by auto
  next
    case (Some g)
    have "fst e = k \<longleftrightarrow> e = (k, g)" if "e \<in> set (entries ks)" for e
      using that Some bt_get_mem [OF ok, of k "snd e"]
      by (metis fst_conv option.inject prod.collapse)
    then show ?thesis using Some by auto
  qed
qed

lemma other_entry_ptr:
  assumes "ks_inv w ks" "bt_get (entries ks) k = Some g" "e \<in> set (entries ks)" "fst e \<noteq> k"
  shows "ptr_of e \<noteq> ga_ptr g"
proof
  assume eq: "ptr_of e = ga_ptr g"
  have "(k, g) \<in> set (entries ks)" using assms(1,2) by (simp add: ks_inv_def bt_get_mem)
  with assms(1,3) eq have "e = (k, g)" by (simp add: ks_inv_def inj_on_def ptr_of_def)
  with assms(4) show False by simp
qed

lemma ks_inv_drop:
  assumes "memory_contract L" and inv: "ks_inv w ks" and get: "bt_get (entries ks) k = Some g"
  defines "w' \<equiv> stored_key_drop L g w" and "ks' \<equiv> ks\<lparr>entries := bt_delete k (entries ks)\<rparr>"
  shows "ks_inv w' ks'" and "ks_abs w' ks' = (ks_abs w ks)(k := None)"
    and "released w' = (zeros KEYBYTES, zeros KEYBYTES) # released w"
proof -
  obtain bs where bs: "mem w (ga_ptr g) = Some bs" "length bs = KEYBYTES" "ga_len g = KEYBYTES"
    and kg: "(k, g) \<in> set (entries ks)"
    using ks_inv_entry [OF inv get] by metis
  have ok: "bt_ok (entries ks)" and wf: "wf_heap w" using inv by (simp_all add: ks_inv_def)
  note eff = stored_key_drop_effect [OF assms(1) wf bs, folded w'_def]
  have set': "set (entries ks') = set (entries ks) - {(k, g)}"
    using entries_without [OF inv, of k] get by (simp add: ks'_def set_bt_delete [OF ok])
  have others: "ptr_of e \<noteq> ga_ptr g" if "e \<in> set (entries ks')" for e
    using that other_entry_ptr [OF inv get, of e] entries_without [OF inv, of k] get
    by (auto simp: set')
  have "ptr_of ` set (entries ks') = ptr_of ` set (entries ks) - {ga_ptr g}"
    using inj_on_image_set_diff [of ptr_of "set (entries ks)" "set (entries ks)" "{(k, g)}"] inv kg
    by (simp add: set' ks_inv_def ptr_of_def)
  moreover have "live w = ptr_of ` set (entries ks)" using inv by (simp add: ks_inv_def)
  ultimately have "live w' = ptr_of ` set (entries ks')"
    by (simp add: live_mem eff)
  moreover have "\<forall>e \<in> set (entries ks'). key_ok w' e"
  proof
    fix e
    assume e: "e \<in> set (entries ks')"
    then have "key_ok w e" using inv by (simp add: set' ks_inv_def)
    with others [OF e] show "key_ok w' e" by (simp add: key_ok_def eff ptr_of_def)
  qed
  moreover have "length (entries ks') \<le> MAX_ENTRIES"
    using bt.capped_del [OF ok, of MAX_ENTRIES k] inv by (simp add: ks'_def ks_inv_def)
  ultimately show "ks_inv w' ks'"
    using inv ok eff by (simp add: ks_inv_def set' inj_on_diff) (simp add: ks'_def bt_ok_delete)
  show "ks_abs w' ks' = (ks_abs w ks)(k := None)"
  proof
    fix j
    show "ks_abs w' ks' j = ((ks_abs w ks)(k := None)) j"
    proof (cases "j = k \<or> bt_get (entries ks) j = None")
      case True
      then show ?thesis by (auto simp: ks_abs_def ks'_def bt_get_delete [OF ok])
    next
      case False
      then obtain g' where g': "bt_get (entries ks) j = Some g'" by auto
      with other_entry_ptr [OF inv get, of "(j, g')"] False ok
      have "ga_ptr g' \<noteq> ga_ptr g" by (simp add: bt_get_mem ptr_of_def)
      with False g' show ?thesis
        by (simp add: ks_abs_def ks'_def bt_get_delete [OF ok] expose_def galloc_slice_def eff)
    qed
  qed
  show "released w' = (zeros KEYBYTES, zeros KEYBYTES) # released w" by (rule eff)
qed

lemma ks_inv_add:
  assumes inv: "ks_inv w ks" and fresh: "ga_ptr g \<notin> live w" "ga_len g = KEYBYTES"
    and mem: "mem w' = (mem w)(ga_ptr g \<mapsto> bs)" "length bs = KEYBYTES" "wf_heap w'"
    and new: "bt_get (entries ks) k = None" "epoch_ok (snd k)" "length (entries ks) < MAX_ENTRIES"
  defines "ks' \<equiv> ks\<lparr>entries := bt_put k g (entries ks)\<rparr>"
  shows "ks_inv w' ks'" and "ks_abs w' ks' = (ks_abs w ks)(k \<mapsto> bs)"
proof -
  have ok: "bt_ok (entries ks)" using inv by (simp add: ks_inv_def)
  have set': "set (entries ks') = insert (k, g) (set (entries ks))"
    using entries_without [OF inv, of k] new(1) by (simp add: ks'_def set_bt_put [OF ok])
  have ne: "ptr_of e \<noteq> ga_ptr g" if "e \<in> set (entries ks)" for e
    using that fresh(1) inv by (force simp: ks_inv_def)
  have "live w' = ptr_of ` set (entries ks')"
    using inv by (auto simp: live_mem mem set' ks_inv_def ptr_of_def)
  moreover have "\<forall>e \<in> set (entries ks'). key_ok w' e"
    using inv ne mem new(2) fresh(2) by (auto simp: set' ks_inv_def key_ok_def ptr_of_def)
  moreover have "inj_on ptr_of (set (entries ks'))"
    using inv ne by (force simp: set' ks_inv_def ptr_of_def [of "(k, g)"])
  moreover have "length (entries ks') \<le> MAX_ENTRIES"
    using bt.capped_put [OF ok, of MAX_ENTRIES k g] new by (simp add: ks'_def)
  ultimately show "ks_inv w' ks'"
    using ok mem(3) by (simp add: ks_inv_def ks'_def bt_ok_put)
  show "ks_abs w' ks' = (ks_abs w ks)(k \<mapsto> bs)"
  proof
    fix j
    have "ga_ptr g' \<noteq> ga_ptr g" if "bt_get (entries ks) j = Some g'" for g'
      using ne [of "(j, g')"] that ok by (simp add: bt_get_mem ptr_of_def)
    then show "ks_abs w' ks' j = ((ks_abs w ks)(k \<mapsto> bs)) j"
      using fresh(2) mem by (cases "bt_get (entries ks) j")
        (auto simp: ks_abs_def ks'_def bt_get_put expose_def galloc_slice_def mem)
  qed
qed

section \<open>The operations refine the map\<close>

lemma ks_inv_fresh: "heap w = [] \<Longrightarrow> ks_inv w \<lparr>ks_local_id = n, entries = []\<rparr>"
  by (simp add: ks_inv_def wf_heap_def live_def MAX_ENTRIES_def)

text \<open>
  Overwriting a slot inserts the new region first and drops the old one afterwards; the result is
  the same as dropping first.
\<close>

lemma ks_inv_replace:
  assumes "memory_contract L" and inv: "ks_inv w ks" and get: "bt_get (entries ks) k = Some g0"
    and fresh: "ga_ptr g \<notin> live w" "ga_len g = KEYBYTES"
    and mem: "mem w1 = (mem w)(ga_ptr g \<mapsto> bs)" "length bs = KEYBYTES" "wf_heap w1"
  defines "w' \<equiv> stored_key_drop L g0 w1" and "ks' \<equiv> ks\<lparr>entries := bt_put k g (entries ks)\<rparr>"
  shows "ks_inv w' ks'" and "ks_abs w' ks' = (ks_abs w ks)(k \<mapsto> bs)"
    and "released w' = (zeros KEYBYTES, zeros KEYBYTES) # released w1"
proof -
  define v where "v = stored_key_drop L g0 w"
  define ksv where "ksv = ks\<lparr>entries := bt_delete k (entries ks)\<rparr>"
  have ok: "bt_ok (entries ks)" using inv by (simp add: ks_inv_def)
  obtain b0 where b0: "mem w (ga_ptr g0) = Some b0" "length b0 = KEYBYTES" "ga_len g0 = KEYBYTES"
    and epoch: "epoch_ok (snd k)"
    using ks_inv_entry [OF inv get] by metis
  have ne: "ga_ptr g \<noteq> ga_ptr g0" using fresh(1) b0(1) by (auto simp: live_mem)
  note drop1 = ks_inv_drop [OF assms(1) inv get, folded v_def ksv_def]
  have mem0: "mem w1 (ga_ptr g0) = Some b0" using b0(1) ne by (simp add: mem)
  note eff = stored_key_drop_effect [OF assms(1) mem(3) mem0 b0(2,3), folded w'_def]
  have wf: "wf_heap w" using inv by (simp add: ks_inv_def)
  note effv = stored_key_drop_effect [OF assms(1) wf b0, folded v_def]
  have memv: "mem w' = (mem v)(ga_ptr g \<mapsto> bs)" by (simp add: eff effv mem fun_upd_twist [OF ne])
  have freshv: "ga_ptr g \<notin> live v" using fresh(1) by (simp add: live_mem effv)
  have getv: "bt_get (entries ksv) k = None" by (simp add: ksv_def bt_get_delete [OF ok])
  have "Suc (length (entries ksv)) = length (entries ks)"
    using bt.count_del [OF ok, of k] get by (simp add: ksv_def)
  then have cap: "length (entries ksv) < MAX_ENTRIES" using inv by (simp add: ks_inv_def)
  note add = ks_inv_add [OF drop1(1) freshv fresh(2) memv mem(2) eff(2) getv epoch cap]
  have eq: "ksv\<lparr>entries := bt_put k g (entries ksv)\<rparr> = ks'"
    by (simp add: ksv_def ks'_def bt_put_delete [OF ok])
  show "ks_inv w' ks'" using add(1) by (simp only: eq)
  show "ks_abs w' ks' = (ks_abs w ks)(k \<mapsto> bs)" using add(2) drop1(2) by (simp add: eq)
  show "released w' = (zeros KEYBYTES, zeros KEYBYTES) # released w1" by (rule eff)
qed

lemma install_refines:
  assumes "memory_contract L" and inv: "ks_inv w ks" and "epoch_ok e" and len: "length m = KEYBYTES"
    and "install L p e m w ks = (r, w', ks')"
  shows "ks_inv w' ks' \<and>
    (case r of
       Inr _ \<Rightarrow> ks_abs w' ks' = (ks_abs w ks)((p, e) \<mapsto> m) \<and>
         released w' = (if ks_abs w ks (p, e) = None then [] else [(zeros KEYBYTES, zeros KEYBYTES)])
           @ released w
     | Inl err \<Rightarrow> ks' = ks \<and> ks_abs w' ks' = ks_abs w ks \<and>
         (released w' = released w \<or> released w' = (m, zeros KEYBYTES) # released w))"
proof (cases "bt_get (entries ks) (p, e) = None \<and> length (entries ks) \<ge> MAX_ENTRIES")
  case True
  with assms show ?thesis by (auto simp: install_def bt_contains_key_def)
next
  case False
  obtain r1 w1 where new: "stored_key_new L m w = (r1, w1)" by fastforce
  have wf: "wf_heap w" using inv by (simp add: ks_inv_def)
  note eff = stored_key_new_effect [OF assms(1) wf len new]
  show ?thesis
  proof (cases r1)
    case (Inl err)
    then have "r = Err (KsSodium err)" "w' = w1" "ks' = ks"
      using assms(5) False new by (auto simp: install_def bt_contains_key_def)
    moreover have "ks_inv w1 ks" "ks_abs w1 ks = ks_abs w ks"
      using eff Inl inv by (simp_all add: ks_inv_def key_ok_def live_mem ks_abs_def
          expose_def [abs_def] galloc_slice_def [abs_def])
    ultimately show ?thesis using eff Inl by auto
  next
    case (Inr g)
    with eff have g: "ga_ptr g \<notin> live w" "ga_len g = KEYBYTES" "mem w1 = (mem w)(ga_ptr g \<mapsto> m)"
      "wf_heap w1" "released w1 = released w" by simp_all
    show ?thesis
    proof (cases "bt_get (entries ks) (p, e)")
      case None
      then have "r = Ok ()" "w' = w1" "ks' = ks\<lparr>entries := bt_put (p, e) g (entries ks)\<rparr>"
        using assms(5) False new Inr by (simp_all add: install_def bt_contains_key_def bt_insert_def)
      then show ?thesis using ks_inv_add [OF inv g(1-3) len g(4) None] None False assms(3) g(5)
        by (simp add: ks_abs_dom)
    next
      case (Some g0)
      then have "r = Ok ()" "w' = stored_key_drop L g0 w1"
        "ks' = ks\<lparr>entries := bt_put (p, e) g (entries ks)\<rparr>"
        using assms(5) False new Inr by (simp_all add: install_def bt_contains_key_def bt_insert_def)
      then show ?thesis using ks_inv_replace [OF assms(1) inv Some g(1-3) len g(4)] Some g(5)
        by (simp add: ks_abs_dom)
    qed
  qed
qed

lemma retire_refines:
  assumes "memory_contract L" and inv: "ks_inv w ks" and "retire L p e w ks = (found, w', ks')"
  shows "ks_inv w' ks' \<and> ks_abs w' ks' = (ks_abs w ks)((p, e) := None) \<and>
    (found \<longleftrightarrow> ks_abs w ks (p, e) \<noteq> None) \<and>
    released w' = (if found then [(zeros KEYBYTES, zeros KEYBYTES)] else []) @ released w"
proof (cases "bt_get (entries ks) (p, e)")
  case None
  then have "bt_delete (p, e) (entries ks) = entries ks"
    by (simp add: bt_get_None bt_delete_absent)
  with None assms show ?thesis by (auto simp: retire_def bt_remove_def ks_abs_def)
next
  case (Some g)
  with assms(3) ks_inv_drop [OF assms(1) inv Some] show ?thesis
    by (auto simp: retire_def bt_remove_def ks_abs_def)
qed

lemma drop_all_refines:
  assumes "memory_contract L" "ks_inv w ks"
  shows "ks_inv (drop_all L (map snd (entries ks)) w) (ks\<lparr>entries := []\<rparr>) \<and>
    released (drop_all L (map snd (entries ks)) w) =
      replicate (length (entries ks)) (zeros KEYBYTES, zeros KEYBYTES) @ released w"
  using assms(2)
proof (induction "entries ks" arbitrary: w ks)
  case Nil
  have "ks\<lparr>entries := entries ks\<rparr> = ks" by simp
  then have eq: "ks\<lparr>entries := []\<rparr> = ks" using Nil.hyps by metis
  show ?case unfolding eq Nil.hyps [symmetric] using Nil.prems by (simp add: drop_all_def)
next
  case (Cons x es)
  obtain k g where x: "x = (k, g)" by (cases x)
  have get: "bt_get (entries ks) k = Some g" by (simp add: Cons.hyps(2) [symmetric] x bt_get_def)
  have es: "bt_delete k (entries ks) = es" by (simp add: Cons.hyps(2) [symmetric] x)
  note step = ks_inv_drop [OF assms(1) Cons.prems get, unfolded es]
  from Cons.hyps(1) [of "ks\<lparr>entries := es\<rparr>" "stored_key_drop L g w"] step show ?case
    by (simp add: Cons.hyps(2) [symmetric] x drop_all_def replicate_app_Cons_same)
qed

lemma clear_refines:
  assumes "memory_contract L" "ks_inv w ks" "keystore_clear L w ks = (w', ks')"
  shows "ks_inv w' ks' \<and> ks_abs w' ks' = Map.empty \<and> heap w' = [] \<and>
    released w' = replicate (keystore_len ks) (zeros KEYBYTES, zeros KEYBYTES) @ released w"
proof -
  have eq: "w' = drop_all L (map snd (entries ks)) w" "ks' = ks\<lparr>entries := []\<rparr>"
    using assms(3) by (auto simp: keystore_clear_def)
  with drop_all_refines [OF assms(1,2)] have *: "ks_inv w' ks'" "released w' =
      replicate (keystore_len ks) (zeros KEYBYTES, zeros KEYBYTES) @ released w"
    by (simp_all add: keystore_len_def)
  from *(1) have "live w' = {}" by (simp add: ks_inv_def eq)
  then have "heap w' = []" by (simp add: live_def)
  moreover have "ks_abs w' ks' = Map.empty" by (simp add: ks_abs_def eq bt_get_def fun_eq_iff)
  ultimately show ?thesis using * by simp
qed

lemma keystore_drop_clear: "keystore_drop L ks w = fst (keystore_clear L w ks)"
  by (simp add: keystore_drop_def keystore_clear_def)

section \<open>Lookups\<close>

lemma epoch_range:
  fixes p :: u16
  shows "(p, Epoch 0) \<le> k \<and> k \<le> (p, Epoch MAX_EPOCH) \<longleftrightarrow> fst k = p \<and> epoch_ok (snd k)"
  by (cases k) (auto simp: less_eq_epoch_def epoch_ok_def)

lemma ks_inv_epoch: "ks_inv w ks \<Longrightarrow> bt_get (entries ks) k \<noteq> None \<Longrightarrow> epoch_ok (snd k)"
  using ks_inv_entry by fastforce

definition lookup :: "world \<Rightarrow> keystore \<Rightarrow> u16 \<Rightarrow> epoch \<Rightarrow> bytes option" where
  "lookup w ks p e = map_option (expose w) (key_for_receive ks p e)"

definition current :: "world \<Rightarrow> keystore \<Rightarrow> u16 \<Rightarrow> (epoch \<times> bytes) option" where
  "current w ks p = map_option (\<lambda>(e, g). (e, expose w g)) (key_for_send_current ks p)"

lemma lookup_abs: "lookup w ks p e = ks_abs w ks (p, e)"
  by (simp add: lookup_def ks_abs_def key_for_receive_def)

lemma lookup_send: "map_option (expose w) (key_for_send ks p e) = lookup w ks p e"
  by (simp add: lookup_def key_for_send_def key_for_receive_def)

lemma peer_known_iff:
  assumes "ks_inv w ks"
  shows "peer_known ks p \<longleftrightarrow> (\<exists>e. lookup w ks p e \<noteq> None)"
proof -
  have "peer_known ks p \<longleftrightarrow> (\<exists>k. fst k = p \<and> epoch_ok (snd k) \<and> bt_get (entries ks) k \<noteq> None)"
    unfolding peer_known_def next_entry_range by (simp only: epoch_range conj_assoc [symmetric])
  also have "\<dots> \<longleftrightarrow> (\<exists>e. lookup w ks p e \<noteq> None)"
    unfolding lookup_abs ks_abs_dom by (metis fst_conv ks_inv_epoch [OF assms] prod.collapse)
  finally show ?thesis .
qed

lemma current_None:
  assumes "ks_inv w ks"
  shows "current w ks p = None \<longleftrightarrow> (\<forall>e. lookup w ks p e = None)"
proof -
  have ok: "bt_ok (entries ks)" using assms by (simp add: ks_inv_def)
  have "current w ks p = None \<longleftrightarrow>
      (\<forall>k. fst k = p \<and> epoch_ok (snd k) \<longrightarrow> bt_get (entries ks) k = None)"
    by (simp add: current_def key_for_send_current_def next_back_range_None [OF ok] epoch_range)
  also have "\<dots> \<longleftrightarrow> (\<forall>e. lookup w ks p e = None)"
    unfolding lookup_abs ks_abs_dom by (metis fst_conv ks_inv_epoch [OF assms] prod.collapse)
  finally show ?thesis .
qed

lemma current_Some:
  assumes "ks_inv w ks" "current w ks p = Some (e, k)"
  shows "lookup w ks p e = Some k \<and> (\<forall>e'. lookup w ks p e' \<noteq> None \<longrightarrow> e' \<le> e)"
proof -
  have ok: "bt_ok (entries ks)" using assms by (simp add: ks_inv_def)
  obtain q g where nb: "next_back (bt_range (p, Epoch 0) (p, Epoch MAX_EPOCH) (entries ks)) =
      Some ((q, e), g)" and k: "k = expose w g"
    using assms(2) by (auto simp: current_def key_for_send_current_def)
  note r = next_back_range [OF ok nb, unfolded epoch_range conj_assoc [symmetric]]
  then have q: "q = p" by (simp add: epoch_range)
  have "e' \<le> e" if "lookup w ks p e' = Some b" for e' b
  proof -
    from that obtain g' where get: "bt_get (entries ks) (p, e') = Some g'"
      by (auto simp: lookup_abs ks_abs_def)
    with ks_inv_entry [OF assms(1) get] have "epoch_ok e'" by auto
    with r get q have "(p, e') \<le> (p, e)" by (simp add: epoch_range)
    then show ?thesis by simp
  qed
  with r k q show ?thesis by (auto simp: lookup_abs ks_abs_def)
qed

lemma current_iff:
  assumes "ks_inv w ks"
  shows "current w ks p = Some (e, k) \<longleftrightarrow>
    lookup w ks p e = Some k \<and> (\<forall>e'. lookup w ks p e' \<noteq> None \<longrightarrow> e' \<le> e)"
proof
  assume *: "lookup w ks p e = Some k \<and> (\<forall>e'. lookup w ks p e' \<noteq> None \<longrightarrow> e' \<le> e)"
  then have "current w ks p \<noteq> None" using current_None [OF assms] by (metis option.distinct(1))
  then obtain d x where c: "current w ks p = Some (d, x)" by auto
  from current_Some [OF assms c] * have "d = e" by (metis antisym option.distinct(1))
  with c current_Some [OF assms c] * show "current w ks p = Some (e, k)" by simp
qed (rule current_Some [OF assms])

section \<open>The interface of a key vault\<close>

text \<open>
  What the frame layers rely on: a 32-byte key for each provisioned link, the newest epoch as the
  one to send under, and a peer counted as known exactly when some epoch of it is provisioned.
\<close>

locale link_keys =
  fixes inv :: "'s \<Rightarrow> bool"
    and look :: "'s \<Rightarrow> u16 \<Rightarrow> epoch \<Rightarrow> bytes option"
    and newest :: "'s \<Rightarrow> u16 \<Rightarrow> (epoch \<times> bytes) option"
    and known :: "'s \<Rightarrow> u16 \<Rightarrow> bool"
  assumes look_ok: "inv s \<Longrightarrow> look s p e = Some k \<Longrightarrow> length k = KEYBYTES \<and> epoch_ok e"
    and newest_Some: "inv s \<Longrightarrow> newest s p = Some (e, k) \<Longrightarrow>
      look s p e = Some k \<and> (\<forall>e'. look s p e' \<noteq> None \<longrightarrow> e' \<le> e)"
    and newest_None: "inv s \<Longrightarrow> newest s p = None \<longleftrightarrow> (\<forall>e. look s p e = None)"
    and known_iff: "inv s \<Longrightarrow> known s p \<longleftrightarrow> (\<exists>e. look s p e \<noteq> None)"
begin

lemma known_newest: "inv s \<Longrightarrow> known s p \<longleftrightarrow> newest s p \<noteq> None"
  by (simp add: known_iff newest_None)

lemma newest_key: "inv s \<Longrightarrow> newest s p = Some (e, k) \<Longrightarrow> length k = KEYBYTES \<and> epoch_ok e"
  using newest_Some look_ok by blast

lemma newest_eqI:
  assumes "inv s" "look s p e = Some k" "\<And>e'. look s p e' \<noteq> None \<Longrightarrow> e' \<le> e"
  shows "newest s p = Some (e, k)"
proof (cases "newest s p")
  case None
  with newest_None [OF assms(1), of p] assms(2) show ?thesis by simp
next
  case (Some ek)
  obtain e1 k1 where ek: "ek = (e1, k1)" by (cases ek)
  note n = newest_Some [OF assms(1) Some [unfolded ek]]
  with assms(2,3) have "e1 = e" by (simp add: antisym)
  with n assms(2) Some ek show ?thesis by simp
qed

end

text \<open>
  A vault also changes: a key is put into a slot, a slot is retired, everything is cleared. The
  updates are stated for the calls that succeed.
\<close>

locale vault = link_keys +
  fixes put :: "'s \<Rightarrow> u16 \<Rightarrow> epoch \<Rightarrow> bytes \<Rightarrow> 's option"
    and drop_slot :: "'s \<Rightarrow> u16 \<Rightarrow> epoch \<Rightarrow> 's"
    and wipe :: "'s \<Rightarrow> 's"
  assumes put_ok: "inv s \<Longrightarrow> epoch_ok e \<Longrightarrow> length k = KEYBYTES \<Longrightarrow> put s p e k = Some s' \<Longrightarrow>
      inv s' \<and> (\<forall>q d. look s' q d = (if q = p \<and> d = e then Some k else look s q d))"
    and drop_ok: "inv s \<Longrightarrow> inv (drop_slot s p e) \<and>
      (\<forall>q d. look (drop_slot s p e) q d = (if q = p \<and> d = e then None else look s q d))"
    and wipe_ok: "inv s \<Longrightarrow> inv (wipe s) \<and> (\<forall>q d. look (wipe s) q d = None)"
begin

text \<open>Rotation: a newer key is sent under as soon as it is installed, until it is retired.\<close>

lemma rotation:
  assumes "inv s" "epoch_ok e" "length k = KEYBYTES" "newest s p = Some (e0, k0)" "e0 < e"
    and "put s p e k = Some s'"
  shows "newest s' p = Some (e, k)"
    and "newest (drop_slot s' p e0) p = Some (e, k)"
    and "newest (drop_slot s' p e) p = Some (e0, k0)"
proof -
  note p = put_ok [OF assms(1-3,6)]
  note n = newest_Some [OF assms(1,4)]
  have other: "e' \<le> e0" if "look s p e' \<noteq> None" for e' using n that by blast
  show "newest s' p = Some (e, k)"
  proof (rule newest_eqI)
    show "e' \<le> e" if "look s' p e' \<noteq> None" for e'
      using that p other [of e'] assms(5) by (auto split: if_splits)
  qed (use p in auto)
  show "newest (drop_slot s' p e0) p = Some (e, k)"
  proof (rule newest_eqI)
    show "e' \<le> e" if "look (drop_slot s' p e0) p e' \<noteq> None" for e'
      using that p drop_ok [of s' p e0] other [of e'] assms(5) by (auto split: if_splits)
  qed (use p drop_ok [of s' p e0] assms(5) in auto)
  show "newest (drop_slot s' p e) p = Some (e0, k0)"
  proof (rule newest_eqI)
    show "e' \<le> e0" if "look (drop_slot s' p e) p e' \<noteq> None" for e'
      using that p drop_ok [of s' p e] other [of e'] by (auto split: if_splits)
  qed (use p drop_ok [of s' p e] n assms(5) in auto)
qed

lemma other_peer:
  assumes "inv s" "epoch_ok e" "length k = KEYBYTES" "put s p e k = Some s'" "q \<noteq> p"
  shows "newest s' q = newest s q"
proof (cases "newest s q")
  case None
  then show ?thesis using put_ok [OF assms(1-4)] newest_None assms by (metis (full_types))
next
  case (Some x)
  obtain d j where x: "x = (d, j)" by (cases x)
  have "newest s' q = Some (d, j)"
    using put_ok [OF assms(1-4)] newest_Some [OF assms(1) Some [unfolded x]] assms(5)
    by (intro newest_eqI) auto
  with Some x show ?thesis by simp
qed

end

definition store_put :: "sodium_lib \<Rightarrow> world \<times> keystore \<Rightarrow> u16 \<Rightarrow> epoch \<Rightarrow> bytes \<Rightarrow> (world \<times> keystore) option"
  where "store_put L s p e k =
    (case install L p e k (fst s) (snd s) of (Ok _, s') \<Rightarrow> Some s' | (Err _, _) \<Rightarrow> None)"

definition store_retire :: "sodium_lib \<Rightarrow> world \<times> keystore \<Rightarrow> u16 \<Rightarrow> epoch \<Rightarrow> world \<times> keystore" where
  "store_retire L s p e = snd (retire L p e (fst s) (snd s))"

definition store_clear :: "sodium_lib \<Rightarrow> world \<times> keystore \<Rightarrow> world \<times> keystore" where
  "store_clear L s = keystore_clear L (fst s) (snd s)"

interpretation ks: link_keys "\<lambda>(w, s). ks_inv w s" "\<lambda>(w, s). lookup w s" "\<lambda>(w, s). current w s"
  "\<lambda>(w, s). peer_known s"
proof unfold_locales
  fix s :: "world \<times> keystore" and p e k
  obtain w t where s: "s = (w, t)" by (cases s)
  assume inv: "case s of (w, t) \<Rightarrow> ks_inv w t"
  show "length k = KEYBYTES \<and> epoch_ok e" if "(case s of (w, t) \<Rightarrow> lookup w t) p e = Some k"
    using that inv ks_abs_length [of w t "(p, e)" k] by (simp add: s lookup_abs)
  show "(case s of (w, t) \<Rightarrow> lookup w t) p e = Some k \<and>
      (\<forall>e'. (case s of (w, t) \<Rightarrow> lookup w t) p e' \<noteq> None \<longrightarrow> e' \<le> e)"
    if "(case s of (w, t) \<Rightarrow> current w t) p = Some (e, k)"
    using that inv current_Some [of w t p e k] by (simp add: s)
  show "((case s of (w, t) \<Rightarrow> current w t) p = None) =
      (\<forall>e. (case s of (w, t) \<Rightarrow> lookup w t) p e = None)"
    using inv current_None [of w t p] by (simp add: s)
  show "(case s of (w, t) \<Rightarrow> peer_known t) p =
      (\<exists>e. (case s of (w, t) \<Rightarrow> lookup w t) p e \<noteq> None)"
    using inv peer_known_iff [of w t p] by (simp add: s)
qed

text \<open>The store is a vault over every library whose memory functions keep their contract.\<close>

interpretation kv: vault "\<lambda>(w, s). memory_contract L \<and> ks_inv w s" "\<lambda>(w, s). lookup w s"
  "\<lambda>(w, s). current w s" "\<lambda>(w, s). peer_known s" "store_put L" "store_retire L" "store_clear L"
  for L
proof unfold_locales
  fix s s' :: "world \<times> keystore" and p e k
  obtain w t where s: "s = (w, t)" by (cases s)
  assume "case s of (w, t) \<Rightarrow> memory_contract L \<and> ks_inv w t"
  then have L: "memory_contract L" and inv: "ks_inv w t" by (simp_all add: s)
  show "length k = KEYBYTES \<and> epoch_ok e" if "(case s of (w, t) \<Rightarrow> lookup w t) p e = Some k"
    using that inv ks.look_ok [of "(w, t)" p e k] by (simp add: s)
  show "(case s of (w, t) \<Rightarrow> lookup w t) p e = Some k \<and>
      (\<forall>e'. (case s of (w, t) \<Rightarrow> lookup w t) p e' \<noteq> None \<longrightarrow> e' \<le> e)"
    if "(case s of (w, t) \<Rightarrow> current w t) p = Some (e, k)"
    using that inv current_Some [of w t p e k] by (simp add: s)
  show "((case s of (w, t) \<Rightarrow> current w t) p = None) =
      (\<forall>e. (case s of (w, t) \<Rightarrow> lookup w t) p e = None)"
    using inv current_None [of w t p] by (simp add: s)
  show "(case s of (w, t) \<Rightarrow> peer_known t) p =
      (\<exists>e. (case s of (w, t) \<Rightarrow> lookup w t) p e \<noteq> None)"
    using inv peer_known_iff [of w t p] by (simp add: s)
  show "(case s' of (w, t) \<Rightarrow> memory_contract L \<and> ks_inv w t) \<and>
      (\<forall>q d. (case s' of (w, t) \<Rightarrow> lookup w t) q d =
        (if q = p \<and> d = e then Some k else (case s of (w, t) \<Rightarrow> lookup w t) q d))"
    if "epoch_ok e" "length k = KEYBYTES" "store_put L s p e k = Some s'"
    using that L inv install_refines [OF L inv that(1,2), of p]
    by (fastforce simp: s store_put_def lookup_abs split: prod.splits sum.splits)
  show "(case store_retire L s p e of (w, t) \<Rightarrow> memory_contract L \<and> ks_inv w t) \<and>
      (\<forall>q d. (case store_retire L s p e of (w, t) \<Rightarrow> lookup w t) q d =
        (if q = p \<and> d = e then None else (case s of (w, t) \<Rightarrow> lookup w t) q d))"
    using L retire_refines [OF L inv, of p e]
    by (cases "retire L p e w t") (auto simp: s store_retire_def lookup_abs)
  show "(case store_clear L s of (w, t) \<Rightarrow> memory_contract L \<and> ks_inv w t) \<and>
      (\<forall>q d. (case store_clear L s of (w, t) \<Rightarrow> lookup w t) q d = None)"
    using L clear_refines [OF L inv]
    by (cases "keystore_clear L w t") (auto simp: s store_clear_def lookup_abs)
qed

section \<open>A concrete store\<close>

text \<open>One installed key on the concrete library; the witnesses of the development start here.\<close>

definition demo_key :: bytes where
  "demo_key = replicate 32 7"

definition demo_store :: "u16 \<Rightarrow> u16 \<Rightarrow> epoch \<Rightarrow> keystore" where
  "demo_store me peer e = \<lparr>ks_local_id = me, entries = [((peer, e), \<lparr>ga_ptr = 1, ga_len = 32\<rparr>)]\<rparr>"

definition demo_world :: world where
  "demo_world = fresh_world\<lparr>lib_ready := True, heap := [(1, demo_key)], lock_calls := 1\<rparr>"

lemma demo_key_length: "length demo_key = 32"
  by (simp add: demo_key_def)

lemma demo_epoch_3: "epoch_ok (Epoch 3)"
  by (simp add: epoch_ok_def MAX_EPOCH_def)

lemma demo_installed:
  "install demo_sodium peer e demo_key (fresh_world\<lparr>lib_ready := True\<rparr>) \<lparr>ks_local_id = me, entries = []\<rparr> =
    (Ok (), demo_world, demo_store me peer e)"
proof -
  have "demo_key \<noteq> []" by (simp add: demo_key_def)
  then have "stored_key_new demo_sodium demo_key (fresh_world\<lparr>lib_ready := True\<rparr>) =
      (Ok \<lparr>ga_ptr = 1, ga_len = 32\<rparr>, demo_world)"
    by (simp add: stored_key_new_def galloc_new_def demo_fields Let_def galloc_write_def galloc_slice_def
        mem_def mlock_def try_mlock_def KEYBYTES_def demo_world_def fresh_fields demo_key_length)
  then show ?thesis
    by (simp add: install_def bt_contains_key_def bt_get_def bt_insert_def MAX_ENTRIES_def demo_store_def)
qed

lemma demo_ks_inv: "epoch_ok e \<Longrightarrow> ks_inv demo_world (demo_store me peer e)"
  by (simp add: ks_inv_def demo_store_def MAX_ENTRIES_def key_ok_def mem_def demo_world_def wf_heap_def
      live_def ptr_of_def KEYBYTES_def demo_key_length bt_ok_Cons)

lemma demo_lookup: "lookup demo_world (demo_store me peer e) p d = (if p = peer \<and> d = e then Some demo_key else None)"
  by (simp add: lookup_def demo_store_def key_for_receive_def bt_get_def expose_def galloc_slice_def
      mem_def demo_world_def demo_key_length)

lemma demo_current:
  assumes "epoch_ok e"
  shows "current demo_world (demo_store me peer e) peer = Some (e, demo_key)"
proof (rule ks.newest_eqI [of "(demo_world, demo_store me peer e)" peer e demo_key, unfolded prod.case])
  show "ks_inv demo_world (demo_store me peer e)" by (rule demo_ks_inv [OF assms])
  show "lookup demo_world (demo_store me peer e) peer e = Some demo_key" by (simp add: demo_lookup)
  show "d \<le> e" if "lookup demo_world (demo_store me peer e) peer d \<noteq> None" for d
    using that by (simp add: demo_lookup split: if_splits)
qed

lemma demo_stored_key: "\<exists>g w'. stored_key_new demo_sodium m w = (Ok g, w')"
proof -
  obtain g w1 where new: "galloc_new demo_sodium KEYBYTES w = (Ok g, w1)"
    by (simp add: galloc_new_def demo_fields)
  obtain w3 where "mlock demo_sodium (galloc_slice (galloc_write g m w1) g) (galloc_write g m w1) = (Ok (), w3)"
    using demo_mlock by blast
  then show ?thesis by (simp add: stored_key_new_def new Let_def)
qed

section \<open>Sequences of operations\<close>

datatype ks_op =
    Install u16 epoch bytes
  | Retire u16 epoch
  | Clear

fun ks_op_ok :: "ks_op \<Rightarrow> bool" where
  "ks_op_ok (Install p e m) \<longleftrightarrow> epoch_ok e \<and> length m = KEYBYTES"
| "ks_op_ok (Retire p e) \<longleftrightarrow> True"
| "ks_op_ok Clear \<longleftrightarrow> True"

text \<open>One operation on the store; the reply says whether it took effect.\<close>

fun ks_exec :: "sodium_lib \<Rightarrow> ks_op \<Rightarrow> world \<times> keystore \<Rightarrow> bool \<times> world \<times> keystore" where
  "ks_exec L (Install p e m) (w, ks) =
     (case install L p e m w ks of (r, w', ks') \<Rightarrow> (case r of Inr _ \<Rightarrow> True | Inl _ \<Rightarrow> False, w', ks'))"
| "ks_exec L (Retire p e) (w, ks) = retire L p e w ks"
| "ks_exec L Clear (w, ks) = (True, keystore_clear L w ks)"

fun ks_run :: "sodium_lib \<Rightarrow> ks_op list \<Rightarrow> world \<times> keystore \<Rightarrow> bool list \<times> world \<times> keystore" where
  "ks_run L [] s = ([], s)"
| "ks_run L (x # xs) s =
     (case ks_exec L x s of (b, s') \<Rightarrow> case ks_run L xs s' of (bs, s'') \<Rightarrow> (b # bs, s''))"

text \<open>The same operations on a plain map, told which of them took effect.\<close>

fun map_exec :: "ks_op \<Rightarrow> bool \<Rightarrow> key_map \<Rightarrow> key_map" where
  "map_exec (Install p e m) b f = (if b then f((p, e) \<mapsto> m) else f)"
| "map_exec (Retire p e) b f = f((p, e) := None)"
| "map_exec Clear b f = Map.empty"

fun map_run :: "ks_op list \<Rightarrow> bool list \<Rightarrow> key_map \<Rightarrow> key_map" where
  "map_run (x # xs) (b # bs) f = map_run xs bs (map_exec x b f)"
| "map_run _ _ f = f"

text \<open>Regions handed to \<open>sodium_free\<close> by a sequence, newest first.\<close>

definition all_zeroed :: "(bytes \<times> bytes) list \<Rightarrow> bool" where
  "all_zeroed rel \<longleftrightarrow> (\<forall>(given, left) \<in> set rel. given = zeros KEYBYTES \<and> left = zeros KEYBYTES)"

lemma ks_exec_refines:
  assumes "memory_contract L" "ks_inv w ks" "ks_op_ok x" "ks_exec L x (w, ks) = (b, w', ks')"
  shows "ks_inv w' ks' \<and> ks_abs w' ks' = map_exec x b (ks_abs w ks) \<and>
    (\<exists>new. released w' = new @ released w \<and> (\<forall>(_, left) \<in> set new. left = zeros KEYBYTES) \<and>
      (b \<longrightarrow> all_zeroed new))"
proof (cases x)
  case (Install p e m)
  obtain r where i: "install L p e m w ks = (r, w', ks')" and b: "b \<longleftrightarrow> (\<exists>u. r = Inr u)"
    using assms(4) Install by (auto split: prod.splits sum.splits)
  have "epoch_ok e" "length m = KEYBYTES" using assms(3) Install by simp_all
  from install_refines [OF assms(1,2) this i] show ?thesis
    using Install b by (cases r) (auto simp: all_zeroed_def split: if_splits)
next
  case (Retire p e)
  then show ?thesis using assms(4) retire_refines [OF assms(1,2), of p e b w' ks']
    by (auto simp: all_zeroed_def)
next
  case Clear
  then have b: "b" and c: "keystore_clear L w ks = (w', ks')" using assms(4) by auto
  note ref = clear_refines [OF assms(1,2) c]
  show ?thesis using ref b Clear
    by (intro conjI exI [of _ "replicate (keystore_len ks) (zeros KEYBYTES, zeros KEYBYTES)"])
      (auto simp: all_zeroed_def)
qed

lemma ks_run_refines:
  assumes "memory_contract L" "ks_inv w ks" "\<forall>x \<in> set xs. ks_op_ok x"
    and "ks_run L xs (w, ks) = (bs, w', ks')"
  shows "ks_inv w' ks' \<and> ks_abs w' ks' = map_run xs bs (ks_abs w ks) \<and>
    (\<exists>new. released w' = new @ released w \<and> (\<forall>(_, left) \<in> set new. left = zeros KEYBYTES) \<and>
      (False \<notin> set bs \<longrightarrow> all_zeroed new))"
  using assms(2-4)
proof (induction xs arbitrary: w ks bs)
  case (Cons x xs)
  obtain b w1 ks1 where s: "ks_exec L x (w, ks) = (b, w1, ks1)" by (metis prod_cases3)
  obtain bs1 where r: "ks_run L xs (w1, ks1) = (bs1, w', ks')" and bs: "bs = b # bs1"
    using Cons.prems(3) s by (auto split: prod.splits)
  have "ks_op_ok x" "\<forall>x \<in> set xs. ks_op_ok x" using Cons.prems(2) by simp_all
  note step = ks_exec_refines [OF assms(1) Cons.prems(1) this(1) s]
  note ih = Cons.IH [OF conjunct1 [OF step] \<open>\<forall>x \<in> set xs. ks_op_ok x\<close> r]
  obtain n1 n2 where n: "released w1 = n1 @ released w" "\<forall>(_, left) \<in> set n1. left = zeros KEYBYTES"
      "b \<longrightarrow> all_zeroed n1" "released w' = n2 @ released w1"
      "\<forall>(_, left) \<in> set n2. left = zeros KEYBYTES" "False \<notin> set bs1 \<longrightarrow> all_zeroed n2"
    using step ih by blast
  then have "released w' = (n2 @ n1) @ released w \<and> (\<forall>(_, left) \<in> set (n2 @ n1). left = zeros KEYBYTES) \<and>
      (False \<notin> set bs \<longrightarrow> all_zeroed (n2 @ n1))"
    by (auto simp: bs all_zeroed_def)
  moreover have "ks_abs w' ks' = map_run (x # xs) bs (ks_abs w ks)" using step ih by (simp add: bs)
  ultimately show ?case using ih by blast
qed (auto simp: all_zeroed_def)

section \<open>Properties\<close>

text \<open>C16. The store implements a partial map from (peer, epoch) to key bytes: whatever sequence of
  installs, retirements and clears is run on a store in its invariant, the store stays within it
  (ordered, at most 1024 entries, one live region per entry and none besides) and its contents
  are those of the plain map under the same operations, the failed installs leaving no trace.\<close>

theorem keystore_implements_map:
  assumes "memory_contract L" "ks_inv w ks" "\<forall>x \<in> set xs. ks_op_ok x"
    and "ks_run L xs (w, ks) = (bs, w', ks')"
  shows "ks_inv w' ks' \<and> keystore_len ks' \<le> MAX_ENTRIES \<and> ks_abs w' ks' = map_run xs bs (ks_abs w ks)"
  using ks_run_refines [OF assms] by (simp add: keystore_len_def ks_inv_def)

theorem keystore_implements_map_witness:
  "let xs = [Install 4 (Epoch 2) demo_key, Retire 2 (Epoch 3), Clear];
       (bs, w', ks') = ks_run demo_sodium xs (demo_world, demo_store 1 2 (Epoch 3)) in
   ks_inv w' ks' \<and> keystore_len ks' \<le> MAX_ENTRIES \<and> ks_abs w' ks' =
     map_run xs bs (ks_abs demo_world (demo_store 1 2 (Epoch 3)))"
proof -
  obtain bs w' ks' where r: "ks_run demo_sodium [Install 4 (Epoch 2) demo_key, Retire 2 (Epoch 3), Clear]
      (demo_world, demo_store 1 2 (Epoch 3)) = (bs, w', ks')"
    by (metis prod_cases3)
  from keystore_implements_map [OF demo_memory demo_ks_inv [OF demo_epoch_3] _ r] show ?thesis
    by (simp add: r demo_key_length KEYBYTES_def epoch_ok_def MAX_EPOCH_def del: ks_run.simps map_run.simps)
qed

text \<open>C17. Erasure: in a sequence of operations that all take effect, every region that leaves the
  store (overwritten, retired or cleared) holds only zeroes when it is handed to \<open>sodium_free\<close>;
  and in any sequence, failed installs included, every released region is left zeroed.\<close>

theorem keystore_erases_before_release:
  assumes "memory_contract L" "ks_inv w ks" "\<forall>x \<in> set xs. ks_op_ok x"
    and "ks_run L xs (w, ks) = (bs, w', ks')"
  shows "\<exists>new. released w' = new @ released w \<and> (\<forall>(_, left) \<in> set new. left = zeros KEYBYTES) \<and>
    (False \<notin> set bs \<longrightarrow> (\<forall>(given, _) \<in> set new. given = zeros KEYBYTES))"
  using ks_run_refines [OF assms] unfolding all_zeroed_def by fastforce

theorem keystore_erases_before_release_witness:
  "\<exists>w' ks' new. ks_run demo_sodium [Retire 2 (Epoch 3)] (demo_world, demo_store 1 2 (Epoch 3)) = ([True], w', ks') \<and>
    released w' = new @ released demo_world \<and> (\<forall>(given, left) \<in> set new. given = zeros KEYBYTES \<and> left = zeros KEYBYTES)"
proof -
  obtain bs w' ks' where r: "ks_run demo_sodium [Retire 2 (Epoch 3)] (demo_world, demo_store 1 2 (Epoch 3)) = (bs, w', ks')"
    by (metis prod_cases3)
  moreover from r have "bs = [True]"
    by (auto simp: retire_def bt_remove_def demo_store_def bt_get_def split: prod.splits)
  moreover obtain new where "released w' = new @ released demo_world"
      "\<forall>(_, left) \<in> set new. left = zeros KEYBYTES"
      "False \<notin> set bs \<longrightarrow> (\<forall>(given, _) \<in> set new. given = zeros KEYBYTES)"
    using keystore_erases_before_release [OF demo_memory demo_ks_inv [OF demo_epoch_3] _ r] by auto
  ultimately show ?thesis by fastforce
qed

text \<open>C32. Rotation: once a newer epoch is installed for a peer it is the one sent under; retiring the
  old epoch leaves it so, and retiring the new epoch instead returns to the old key. At every moment
  and for every peer, before and after each of these steps, \<open>key_for_send_current\<close> returns exactly
  the key stored under the highest installed epoch of that peer, and none exactly when the peer has
  no key.\<close>

theorem rotation_switches_senders:
  assumes "memory_contract L" "ks_inv w ks" "epoch_ok e" "length k = KEYBYTES"
    and "current w ks p = Some (e0, k0)" "e0 < e"
    and "install L p e k w ks = (Ok (), w', ks')"
    and "retire L p e0 w' ks' = (b1, w1, ks1)" "retire L p e w' ks' = (b2, w2, ks2)"
  shows "current w' ks' p = Some (e, k) \<and> current w1 ks1 p = Some (e, k) \<and> current w2 ks2 p = Some (e0, k0) \<and>
    (\<forall>(v, store) \<in> {(w, ks), (w', ks'), (w1, ks1), (w2, ks2)}. \<forall>q.
      (\<forall>d x. current v store q = Some (d, x) \<longleftrightarrow>
        lookup v store q d = Some x \<and> (\<forall>d'. lookup v store q d' \<noteq> None \<longrightarrow> d' \<le> d)) \<and>
      (current v store q = None \<longleftrightarrow> (\<forall>d. lookup v store q d = None)))"
proof -
  have put: "store_put L (w, ks) p e k = Some (w', ks')" by (simp add: store_put_def assms(7))
  have r: "store_retire L (w', ks') p e0 = (w1, ks1)" "store_retire L (w', ks') p e = (w2, ks2)"
    by (simp_all add: store_retire_def assms(8,9))
  have inv: "case (w, ks) of (w, s) \<Rightarrow> memory_contract L \<and> ks_inv w s" using assms(1,2) by simp
  have cur: "(case (w, ks) of (w, s) \<Rightarrow> current w s) p = Some (e0, k0)" using assms(5) by simp
  have "current w' ks' p = Some (e, k) \<and> current w1 ks1 p = Some (e, k) \<and> current w2 ks2 p = Some (e0, k0)"
    using kv.rotation [OF inv assms(3,4) cur assms(6) put] by (simp add: r)
  moreover have inv': "ks_inv w' ks'" using install_refines [OF assms(1-4,7)] by blast
  moreover have "ks_inv w1 ks1" "ks_inv w2 ks2"
    using retire_refines [OF assms(1) inv' assms(8)] retire_refines [OF assms(1) inv' assms(9)] by blast+
  ultimately show ?thesis using assms(2) current_None current_iff by auto
qed

theorem rotation_switches_senders_witness:
  "\<exists>w' ks' b1 w1 ks1 b2 w2 ks2.
    install demo_sodium 2 (Epoch 5) (replicate 32 9) demo_world (demo_store 1 2 (Epoch 3)) = (Ok (), w', ks') \<and>
    retire demo_sodium 2 (Epoch 3) w' ks' = (b1, w1, ks1) \<and> retire demo_sodium 2 (Epoch 5) w' ks' = (b2, w2, ks2) \<and>
    current w' ks' 2 = Some (Epoch 5, replicate 32 9) \<and> current w1 ks1 2 = Some (Epoch 5, replicate 32 9) \<and>
    current w2 ks2 2 = Some (Epoch 3, demo_key)"
proof -
  obtain g w0 where "stored_key_new demo_sodium (replicate 32 9) demo_world = (Ok g, w0)"
    using demo_stored_key by blast
  then obtain w' ks' where i: "install demo_sodium 2 (Epoch 5) (replicate 32 9) demo_world (demo_store 1 2 (Epoch 3)) =
      (Ok (), w', ks')"
    by (simp add: install_def demo_store_def bt_contains_key_def bt_get_def bt_insert_def MAX_ENTRIES_def)
  obtain b1 w1 ks1 where r1: "retire demo_sodium 2 (Epoch 3) w' ks' = (b1, w1, ks1)" by (metis prod_cases3)
  obtain b2 w2 ks2 where r2: "retire demo_sodium 2 (Epoch 5) w' ks' = (b2, w2, ks2)" by (metis prod_cases3)
  have e: "epoch_ok (Epoch 5)" "Epoch 3 < Epoch 5"
    by (simp_all add: epoch_ok_def MAX_EPOCH_def less_epoch_def)
  from rotation_switches_senders [OF demo_memory demo_ks_inv [OF demo_epoch_3] e(1) _ demo_current [OF demo_epoch_3]
      e(2) i r1 r2] i r1 r2
  show ?thesis by (simp add: KEYBYTES_def)
qed

text \<open>C40. Every outcome of an installation. It is refused as full exactly when the slot is new and 1024
  entries are present; else it fails with \<open>AllocFailed\<close> exactly when libsodium has no region; else
  with \<open>MlockFailed\<close> exactly when the pages of the region, already holding the key, cannot be locked;
  else it succeeds. The first two failures touch nothing, the third releases the region, and every
  failure leaves the entries, the keys stored under them and the invariant of the store as they were.\<close>

theorem install_failures:
  assumes "memory_contract L" "ks_inv w ks" "epoch_ok e" "length m = KEYBYTES"
    and "install L p e m w ks = (r, w', ks')"
  shows "r = (if ks_abs w ks (p, e) = None \<and> keystore_len ks = MAX_ENTRIES then Err Full
       else case x_malloc L KEYBYTES (heap w) of
           None \<Rightarrow> Err (KsSodium AllocFailed)
         | Some (a, c) \<Rightarrow>
             if fst (mlock L m (w\<lparr>heap := (a, m) # heap w\<rparr>)) = Err MlockFailed
             then Err (KsSodium MlockFailed) else Ok ()) \<and>
    (r = Err Full \<or> r = Err (KsSodium AllocFailed) \<longrightarrow> w' = w) \<and>
    (r = Err (KsSodium MlockFailed) \<longrightarrow> released w' = (m, zeros KEYBYTES) # released w) \<and>
    (r \<noteq> Ok () \<longrightarrow> ks' = ks \<and> ks_abs w' ks' = ks_abs w ks \<and> ks_inv w' ks')"
proof -
  have len: "length (entries ks) \<le> MAX_ENTRIES" using assms(2) by (simp add: ks_inv_def)
  have kept: "ks' = ks \<and> ks_abs w' ks' = ks_abs w ks \<and> ks_inv w' ks'" if "r \<noteq> Ok ()"
    using install_refines [OF assms(1-5)] that by (cases r) auto
  show ?thesis
  proof (cases "ks_abs w ks (p, e) = None \<and> keystore_len ks = MAX_ENTRIES")
    case True
    then have "r = Err Full \<and> w' = w"
      using assms(5) by (simp add: install_def bt_contains_key_def ks_abs_dom keystore_len_def)
    with True kept show ?thesis by auto
  next
    case False
    then have "\<not> (\<not> bt_contains_key (entries ks) (p, e) \<and> length (entries ks) \<ge> MAX_ENTRIES)"
      using len by (auto simp: bt_contains_key_def ks_abs_dom keystore_len_def)
    then have r: "r = (case fst (stored_key_new L m w) of Err x \<Rightarrow> Err (KsSodium x) | Ok _ \<Rightarrow> Ok ())"
        and w: "\<forall>x. fst (stored_key_new L m w) = Err x \<longrightarrow> w' = snd (stored_key_new L m w)"
      using assms(5) by (auto simp: install_def bt_insert_def split: prod.splits sum.splits option.splits)
    have wf: "wf_heap w" using assms(2) by (simp add: ks_inv_def)
    from stored_key_new_outcome [OF assms(1) wf assms(4)] show ?thesis
      using False kept r w by cases auto
  qed
qed

theorem install_failures_witness:
  "fst (install (demo_sodium\<lparr>x_malloc := \<lambda>_ _. None\<rparr>) 2 (Epoch 4) demo_key demo_world (demo_store 1 2 (Epoch 3))) =
     Err (KsSodium AllocFailed) \<and>
   fst (install (demo_sodium\<lparr>x_mlock := \<lambda>_ _. - 1\<rparr>) 2 (Epoch 4) demo_key demo_world (demo_store 1 2 (Epoch 3))) =
     Err (KsSodium MlockFailed)"
proof -
  define L1 L2 where L: "L1 = demo_sodium\<lparr>x_malloc := \<lambda>_ _. None\<rparr>" "L2 = demo_sodium\<lparr>x_mlock := \<lambda>_ _. - 1\<rparr>"
  have contract: "memory_contract L1" "memory_contract L2"
    using demo_memory by (simp_all add: L memory_contract_def)
  have e: "epoch_ok (Epoch 4)" and k: "length demo_key = KEYBYTES"
    by (simp_all add: epoch_ok_def MAX_EPOCH_def demo_key_length KEYBYTES_def)
  have room: "keystore_len (demo_store 1 2 (Epoch 3)) \<noteq> MAX_ENTRIES"
    by (simp add: keystore_len_def demo_store_def MAX_ENTRIES_def)
  obtain r1 w1 ks1 where i1: "install L1 2 (Epoch 4) demo_key demo_world (demo_store 1 2 (Epoch 3)) = (r1, w1, ks1)"
    by (metis prod_cases3)
  obtain r2 w2 ks2 where i2: "install L2 2 (Epoch 4) demo_key demo_world (demo_store 1 2 (Epoch 3)) = (r2, w2, ks2)"
    by (metis prod_cases3)
  have m1: "x_malloc L1 n h = None" and m2: "x_malloc L2 n h = Some (Suc (foldr max (map fst h) 0), replicate n 0xDB)" for n h
    by (simp_all add: L demo_fields)
  have lock: "fst (mlock L2 demo_key v) = Err MlockFailed" for v
    by (simp add: L mlock_def try_mlock_def demo_key_def) (simp add: demo_sodium_def)
  have "r1 = Err (KsSodium AllocFailed)"
    using install_failures [OF contract(1) demo_ks_inv [OF demo_epoch_3] e k i1] room by (simp add: m1)
  moreover have "r2 = Err (KsSodium MlockFailed)"
    using install_failures [OF contract(2) demo_ks_inv [OF demo_epoch_3] e k i2] room by (simp add: m2 lock)
  ultimately show ?thesis using i1 i2 by (simp add: L)
qed

end
