(* ===== verification/Codec.thy ===== *)
theory Codec
  imports Keystore
begin

text \<open>
  The prefix codec, \<open>src/src/codec.rs\<close>: the 8-byte header and the flags byte. The definitions
  follow the source; the lemmas show that the byte and record forms of header, flags and prefix
  determine each other, and exactly which bytes are accepted. The codings are interpretations of
  the contract \<open>exact_coding\<close> of the prelude.
\<close>

section \<open>Layout\<close>

definition HEADER_LEN :: nat where "HEADER_LEN = 8"

definition FLAGS_OFFSET :: nat where "FLAGS_OFFSET = HEADER_LEN"

definition PREFIX_LEN :: nat where "PREFIX_LEN = 9"

definition DEK_BIT :: u8 where "DEK_BIT = 0x01"

definition FIXED_MASK :: u8 where "FIXED_MASK = 0x06"

definition FIXED_PATTERN :: u8 where "FIXED_PATTERN = 0x04"

datatype mode = Standard | Dek

record header =
  from_id :: u16
  to_id :: u16
  channel :: u32

definition header_to_bytes :: "header \<Rightarrow> bytes" where
  "header_to_bytes h =
     u16_to_be_bytes (from_id h) @ u16_to_be_bytes (to_id h) @ u32_to_be_bytes (channel h)"

text \<open>The eight bytes arrive as a fixed-size array; the slice pattern of the caller binds them.\<close>

definition header_from_bytes ::
  "byte \<Rightarrow> byte \<Rightarrow> byte \<Rightarrow> byte \<Rightarrow> byte \<Rightarrow> byte \<Rightarrow> byte \<Rightarrow> byte \<Rightarrow> header" where
  "header_from_bytes f0 f1 t0 t1 c0 c1 c2 c3 =
     \<lparr>from_id = u16_from_be_bytes f0 f1, to_id = u16_from_be_bytes t0 t1,
      channel = u32_from_be_bytes c0 c1 c2 c3\<rparr>"

record flags =
  flags_mode :: mode
  flags_epoch :: epoch

definition flags_new :: "mode \<Rightarrow> epoch \<Rightarrow> flags" where
  "flags_new m e = \<lparr>flags_mode = m, flags_epoch = e\<rparr>"

definition flags_to_byte :: "flags \<Rightarrow> byte" where
  "flags_to_byte f =
     (case flags_mode f of Standard \<Rightarrow> 0 | Dek \<Rightarrow> DEK_BIT) OR FIXED_PATTERN OR
       push_bit 3 (epoch_bits (flags_epoch f))"

datatype codec_error =
    TooShort nat
  | InvalidFlags byte

definition flags_from_byte :: "byte \<Rightarrow> codec_error + flags" where
  "flags_from_byte b =
     (if b AND FIXED_MASK \<noteq> FIXED_PATTERN then Err (InvalidFlags b)
      else let mode = (if b AND DEK_BIT = 0 then Standard else Dek) in
        case epoch_new (drop_bit 3 b) of
          Ok e \<Rightarrow> Ok \<lparr>flags_mode = mode, flags_epoch = e\<rparr>
        | Err _ \<Rightarrow> Err (InvalidFlags b))"

text \<open>\<open>{b:#04x}\<close>: two lower-case hexadecimal digits after \<open>0x\<close>.\<close>

definition show_hex_byte :: "byte \<Rightarrow> ustr" where
  "show_hex_byte b = str ''0x'' @ [hex_digit (unat b div 16), hex_digit (unat b mod 16)]"

fun show_codec_error :: "codec_error \<Rightarrow> ustr" where
  "show_codec_error (TooShort n) =
     str ''datagram too short: '' @ show_nat n @ str '' bytes, need at least '' @ show_nat PREFIX_LEN"
| "show_codec_error (InvalidFlags b) =
     str ''invalid flags byte '' @ show_hex_byte b @ str '': bit 1 must be 0 and bit 2 must be 1''"

definition parse_prefix :: "bytes \<Rightarrow> codec_error + header \<times> flags" where
  "parse_prefix bs =
     (case subslice_to PREFIX_LEN bs of
        Some [f0, f1, t0, t1, c0, c1, c2, c3, flags_byte] \<Rightarrow>
          (case flags_from_byte flags_byte of
             Err e \<Rightarrow> Err e
           | Ok fl \<Rightarrow> Ok (header_from_bytes f0 f1 t0 t1 c0 c1 c2 c3, fl))
      | _ \<Rightarrow> Err (TooShort (length bs)))"

definition serialize_prefix :: "header \<Rightarrow> flags \<Rightarrow> bytes" where
  "serialize_prefix h fl = header_to_bytes h @ [flags_to_byte fl]"

section \<open>Header\<close>

lemma length_header_to_bytes [simp, wire_simps]: "length (header_to_bytes h) = 8"
  by (simp add: header_to_bytes_def)

lemma header_roundtrip:
  "header_to_bytes h = [f0, f1, t0, t1, c0, c1, c2, c3] \<Longrightarrow> header_from_bytes f0 f1 t0 t1 c0 c1 c2 c3 = h"
  by (auto simp: header_to_bytes_def header_from_bytes_def u16_to_be_bytes_def u32_to_be_bytes_def
      u16_from_to_be u32_from_to_be)

lemma header_from_to:
  "header_to_bytes (header_from_bytes f0 f1 t0 t1 c0 c1 c2 c3) = [f0, f1, t0, t1, c0, c1, c2, c3]"
  by (simp add: header_to_bytes_def header_from_bytes_def)

section \<open>Flags\<close>

definition flags_ok :: "flags \<Rightarrow> bool" where
  "flags_ok f \<longleftrightarrow> epoch_ok (flags_epoch f)"

lemma word8_eq_iff:
  fixes a b :: u8
  shows "a = b \<longleftrightarrow> (bit a 0 = bit b 0 \<and> bit a 1 = bit b 1 \<and> bit a 2 = bit b 2 \<and> bit a 3 = bit b 3) \<and>
    (bit a 4 = bit b 4 \<and> bit a 5 = bit b 5 \<and> bit a 6 = bit b 6 \<and> bit a 7 = bit b 7)"
proof
  assume *: "(bit a 0 = bit b 0 \<and> bit a 1 = bit b 1 \<and> bit a 2 = bit b 2 \<and> bit a 3 = bit b 3) \<and>
    (bit a 4 = bit b 4 \<and> bit a 5 = bit b 5 \<and> bit a 6 = bit b 6 \<and> bit a 7 = bit b 7)"
  show "a = b"
  proof (rule bit_word_eqI)
    fix n :: nat
    assume "n < LENGTH(8)"
    then have "n = 0 \<or> n = 1 \<or> n = 2 \<or> n = 3 \<or> n = 4 \<or> n = 5 \<or> n = 6 \<or> n = 7" by auto
    with * show "bit a n = bit b n" by auto
  qed
qed simp

lemma epoch_high_bits:
  assumes "e \<le> (31 :: u8)" "5 \<le> n"
  shows "\<not> bit e n"
proof -
  have "unat e < 2 ^ 5" using assms(1) by (simp add: word_le_nat_alt)
  also have "\<dots> \<le> 2 ^ n" using assms(2) by (rule power_increasing) simp
  finally have "\<not> bit (unat e) n" by (simp add: bit_iff_odd)
  then show ?thesis by (simp add: bit_unsigned_iff)
qed

lemma shifted_epoch: "drop_bit 3 (b :: u8) \<le> 31"
proof -
  have "unat (drop_bit 3 b) = unat b div 8"
    unfolding unat_drop_bit_eq by (simp add: drop_bit_eq_div)
  then show ?thesis using unsigned_less [where 'a = nat, of b] by (simp add: word_le_nat_alt)
qed

lemma fixed_bits_iff: "b AND FIXED_MASK = FIXED_PATTERN \<longleftrightarrow> \<not> bit b 1 \<and> bit b 2"
  unfolding FIXED_MASK_def FIXED_PATTERN_def word8_eq_iff by (simp add: bit_simps)

lemma dek_bit_iff: "b AND DEK_BIT = 0 \<longleftrightarrow> \<not> bit b 0"
  unfolding DEK_BIT_def word8_eq_iff by (simp add: bit_simps)

lemma flags_from_byte_eq:
  "flags_from_byte b =
     (if \<not> bit b 1 \<and> bit b 2
      then Ok \<lparr>flags_mode = (if bit b 0 then Dek else Standard), flags_epoch = Epoch (drop_bit 3 b)\<rparr>
      else Err (InvalidFlags b))"
proof -
  have "epoch_new (drop_bit 3 b) = Ok (Epoch (drop_bit 3 b))"
    unfolding epoch_new_def MAX_EPOCH_def using shifted_epoch [of b] by (simp only: not_less [symmetric] if_False)
  then show ?thesis by (simp add: flags_from_byte_def fixed_bits_iff dek_bit_iff Let_def)
qed

lemma flags_to_byte_bits:
  assumes "flags_ok f"
  shows "bit (flags_to_byte f) 0 \<longleftrightarrow> flags_mode f = Dek" "\<not> bit (flags_to_byte f) 1"
    "bit (flags_to_byte f) 2" "drop_bit 3 (flags_to_byte f) = epoch_bits (flags_epoch f)"
proof -
  define e where "e = epoch_bits (flags_epoch f)"
  have e: "\<not> bit e n" if "5 \<le> n" for n
    using epoch_high_bits that assms by (simp add: flags_ok_def epoch_ok_def MAX_EPOCH_def e_def)
  show "bit (flags_to_byte f) 0 \<longleftrightarrow> flags_mode f = Dek" "\<not> bit (flags_to_byte f) 1"
    "bit (flags_to_byte f) 2"
    by (simp_all add: flags_to_byte_def DEK_BIT_def FIXED_PATTERN_def bit_simps split: mode.splits)
  show "drop_bit 3 (flags_to_byte f) = epoch_bits (flags_epoch f)"
    unfolding word8_eq_iff e_def [symmetric] using e [of 5] e [of 6] e [of 7]
    by (simp add: flags_to_byte_def e_def [symmetric] DEK_BIT_def FIXED_PATTERN_def bit_simps
        split: mode.splits)
qed

lemma flags_roundtrip: "flags_ok f \<Longrightarrow> flags_from_byte (flags_to_byte f) = Ok f"
  unfolding flags_from_byte_eq
  by (cases "flags_mode f"; cases "flags_epoch f") (simp_all add: flags_to_byte_bits flags_to_byte_bits(2) [unfolded One_nat_def])

lemma flags_exact: "flags_from_byte b = Ok f \<Longrightarrow> flags_ok f \<and> flags_to_byte f = b"
proof
  assume ok: "flags_from_byte b = Ok f"
  then have b: "\<not> bit b 1" "bit b 2" and f: "f = \<lparr>flags_mode = (if bit b 0 then Dek else Standard),
      flags_epoch = Epoch (drop_bit 3 b)\<rparr>"
    by (auto simp: flags_from_byte_eq split: if_splits)
  show "flags_ok f" using shifted_epoch [of b] by (simp add: f flags_ok_def epoch_ok_def MAX_EPOCH_def)
  show "flags_to_byte f = b"
    unfolding word8_eq_iff using b
    by (simp add: f flags_to_byte_def DEK_BIT_def FIXED_PATTERN_def bit_simps)
qed

lemma card_epochs: "card {e :: u8. e \<le> 31} = 32"
proof -
  have "{e :: u8. e \<le> 31} = word_of_nat ` {..31}"
  proof (intro equalityI subsetI)
    fix e :: u8
    assume "e \<in> {e. e \<le> 31}"
    then have "unat e \<in> {..31}" and "e = word_of_nat (unat e)" by (simp_all add: word_le_nat_alt)
    then show "e \<in> word_of_nat ` {..31}" by (rule rev_image_eqI)
  qed (auto simp: word_le_nat_alt unat_of_nat)
  moreover have "inj_on (word_of_nat :: nat \<Rightarrow> u8) {..31}"
    by (auto intro!: inj_onI simp: word_of_nat_eq_iff take_bit_nat_eq_self)
  ultimately show ?thesis by (simp add: card_image)
qed

lemma card_flags_ok: "card {f. flags_ok f} = 64"
proof -
  have "{f. flags_ok f} = (\<lambda>(m, e). \<lparr>flags_mode = m, flags_epoch = Epoch e\<rparr>) ` ({Standard, Dek} \<times> {e. e \<le> 31})"
  proof (intro equalityI subsetI)
    fix f :: flags
    assume "f \<in> {f. flags_ok f}"
    then show "f \<in> (\<lambda>(m, e). \<lparr>flags_mode = m, flags_epoch = Epoch e\<rparr>) ` ({Standard, Dek} \<times> {e. e \<le> 31})"
      by (cases f; cases "flags_mode f"; cases "flags_epoch f")
        (auto simp: flags_ok_def epoch_ok_def MAX_EPOCH_def image_iff)
  qed (auto simp: flags_ok_def epoch_ok_def MAX_EPOCH_def)
  moreover have "inj_on (\<lambda>(m, e). \<lparr>flags_mode = m, flags_epoch = Epoch e\<rparr>) ({Standard, Dek} \<times> {e. e \<le> 31})"
    by (auto intro!: inj_onI)
  ultimately show ?thesis by (simp add: card_image card_cartesian_product card_epochs)
qed

section \<open>Prefix\<close>

text \<open>A \<open>Result\<close> seen as an option, for the contract of an encoder and its decoder.\<close>

definition ok :: "'e + 'a \<Rightarrow> 'a option" where
  "ok r = (case r of Inr x \<Rightarrow> Some x | Inl _ \<Rightarrow> None)"

lemma ok_simps [simp]: "ok (Ok x) = Some x" "ok (Err e) = None"
  by (simp_all add: ok_def)

lemma ok_Some [simp]: "ok r = Some x \<longleftrightarrow> r = Ok x"
  by (cases r) simp_all

interpretation flags_byte: exact_coding flags_ok flags_to_byte "\<lambda>b. ok (flags_from_byte b)"
  by unfold_locales (simp_all add: flags_roundtrip flags_exact)

lemma length_9:
  assumes "length xs = 9"
  obtains a b c d e f g h i where "xs = [a, b, c, d, e, f, g, h, i]"
  using assms that by (auto simp: numeral_eq_Suc length_Suc_conv)

lemma length_serialize_prefix [simp, wire_simps]: "length (serialize_prefix h f) = 9"
  by (simp add: serialize_prefix_def)

lemma parse_prefix_short: "length bs < 9 \<Longrightarrow> parse_prefix bs = Err (TooShort (length bs))"
  by (simp add: parse_prefix_def PREFIX_LEN_def)

lemma parse_prefix_long:
  assumes "length bs \<ge> 9"
  shows "parse_prefix bs =
    (case flags_from_byte (bs ! 8) of
       Err e \<Rightarrow> Err e
     | Ok f \<Rightarrow> Ok (header_from_bytes (bs ! 0) (bs ! 1) (bs ! 2) (bs ! 3) (bs ! 4) (bs ! 5) (bs ! 6) (bs ! 7), f))"
proof -
  have "length (take 9 bs) = 9" using assms by simp
  then obtain a b c d e f g h i where t: "take 9 bs = [a, b, c, d, e, f, g, h, i]"
    by (rule length_9)
  then have "bs = [a, b, c, d, e, f, g, h, i] @ drop 9 bs" by (metis append_take_drop_id)
  then obtain r where "bs = [a, b, c, d, e, f, g, h, i] @ r" by blast
  then show ?thesis
    by (simp only: parse_prefix_def PREFIX_LEN_def) (simp split: sum.split)
qed

lemma parse_serialize:
  assumes "flags_ok f"
  shows "parse_prefix (serialize_prefix h f @ rest) = Ok (h, f)"
proof -
  obtain f0 f1 t0 t1 c0 c1 c2 c3 where hb: "header_to_bytes h = [f0, f1, t0, t1, c0, c1, c2, c3]"
    by (simp add: header_to_bytes_def u16_to_be_bytes_def u32_to_be_bytes_def)
  from header_roundtrip [OF hb] show ?thesis
    by (simp add: parse_prefix_long serialize_prefix_def hb flags_roundtrip assms)
qed

lemma parse_prefix_sound:
  assumes "parse_prefix bs = Ok (h, f)"
  shows "flags_ok f \<and> bs = serialize_prefix h f @ drop 9 bs"
proof -
  have len: "length bs \<ge> 9" using assms parse_prefix_short [of bs] by (cases "length bs < 9") auto
  then have "length (take 9 bs) = 9" by simp
  then obtain a b c d e f' g h' i where t: "take 9 bs = [a, b, c, d, e, f', g, h', i]"
    by (rule length_9)
  have nth: "bs ! j = take 9 bs ! j" if "j < 9" for j using that by simp
  have "flags_from_byte i = Ok f" and h: "h = header_from_bytes a b c d e f' g h'"
    using assms unfolding parse_prefix_long [OF len] by (simp_all add: nth t split: sum.splits)
  with flags_exact have "flags_ok f" "flags_to_byte f = i" by blast+
  then have "take 9 bs = serialize_prefix h f" by (simp add: serialize_prefix_def h header_from_to t)
  with \<open>flags_ok f\<close> show ?thesis by (metis append_take_drop_id)
qed

interpretation prefix: exact_coding "\<lambda>(h, f). flags_ok f" "\<lambda>(h, f). serialize_prefix h f"
  "\<lambda>bs. if length bs = 9 then ok (parse_prefix bs) else None"
proof unfold_locales
  fix x :: "header \<times> flags" and y
  show "(if length (case x of (h, f) \<Rightarrow> serialize_prefix h f) = 9
      then ok (parse_prefix (case x of (h, f) \<Rightarrow> serialize_prefix h f)) else None) = Some x"
    if "case x of (h, f) \<Rightarrow> flags_ok f"
    using that parse_serialize [of "snd x" "fst x" "[]"] by (cases x) simp
  show "(case x of (h, f) \<Rightarrow> flags_ok f) \<and> (case x of (h, f) \<Rightarrow> serialize_prefix h f) = y"
    if "(if length y = 9 then ok (parse_prefix y) else None) = Some x"
    using that parse_prefix_sound [of y] by (cases x) (auto split: if_splits)
qed

section \<open>Properties\<close>

text \<open>C31. Parsing the prefix is exact: for every input, it succeeds with a header and flags exactly when
  the input starts with their nine-byte serialisation (and the epoch is in range); otherwise the
  error is the length for fewer than nine bytes, and the offending flags byte for the rest. In
  particular serialising and parsing are inverse to each other, whatever follows the prefix.\<close>

theorem parse_prefix_exact:
  "(parse_prefix bs = Ok (h, f) \<longleftrightarrow> epoch_ok (flags_epoch f) \<and> (\<exists>rest. bs = serialize_prefix h f @ rest)) \<and>
   (length bs < PREFIX_LEN \<longrightarrow> parse_prefix bs = Err (TooShort (length bs))) \<and>
   (PREFIX_LEN \<le> length bs \<longrightarrow> parse_prefix bs = Err (InvalidFlags (bs ! 8)) \<or> (\<exists>h f. parse_prefix bs = Ok (h, f)))"
proof (intro conjI)
  show "parse_prefix bs = Ok (h, f) \<longleftrightarrow> epoch_ok (flags_epoch f) \<and> (\<exists>rest. bs = serialize_prefix h f @ rest)"
    using parse_prefix_sound [of bs h f] parse_serialize [of f h] by (auto simp: flags_ok_def)
  show "length bs < PREFIX_LEN \<longrightarrow> parse_prefix bs = Err (TooShort (length bs))"
    by (simp add: PREFIX_LEN_def parse_prefix_short)
  show "PREFIX_LEN \<le> length bs \<longrightarrow> parse_prefix bs = Err (InvalidFlags (bs ! 8)) \<or> (\<exists>h f. parse_prefix bs = Ok (h, f))"
    by (simp add: PREFIX_LEN_def parse_prefix_long flags_from_byte_eq)
qed

theorem parse_prefix_exact_witness:
  "parse_prefix [0, 1, 0, 2, 0, 0, 0, 9] = Err (TooShort 8) \<and>
   (parse_prefix (replicate 9 0) = Err (InvalidFlags 0) \<or> (\<exists>h f. parse_prefix (replicate 9 0) = Ok (h, f)))"
proof
  show "parse_prefix [0, 1, 0, 2, 0, 0, 0, 9] = Err (TooShort 8)"
    using parse_prefix_exact [of "[0, 1, 0, 2, 0, 0, 0, 9]"] by (simp add: PREFIX_LEN_def)
  show "parse_prefix (replicate 9 0) = Err (InvalidFlags 0) \<or> (\<exists>h f. parse_prefix (replicate 9 0) = Ok (h, f))"
    using parse_prefix_exact [of "replicate 9 0" undefined undefined] by (simp add: PREFIX_LEN_def)
qed

text \<open>The flags byte is decoded exactly. A byte is accepted exactly when its bit 1 is clear and its
  bit 2 is set; the mode read from it is then the one of bit 0 and the epoch the value of its five
  high bits, and every other byte is refused with an error that names it. The byte written for a
  mode and an epoch in range is the one byte that is read back as that mode and that epoch, and
  64 of the 256 bytes are such encodings.\<close>

lemma flag_bytes_exact:
  "flags_from_byte b =
     (if \<not> bit b 1 \<and> bit b 2
      then Ok \<lparr>flags_mode = (if bit b 0 then Dek else Standard), flags_epoch = Epoch (drop_bit 3 b)\<rparr>
      else Err (InvalidFlags b)) \<and>
   (flags_from_byte b = Ok f \<longleftrightarrow> epoch_ok (flags_epoch f) \<and> b = flags_to_byte f) \<and>
   card {b. \<exists>f. flags_from_byte b = Ok f} = 64"
proof (intro conjI)
  show "flags_from_byte b =
     (if \<not> bit b 1 \<and> bit b 2
      then Ok \<lparr>flags_mode = (if bit b 0 then Dek else Standard), flags_epoch = Epoch (drop_bit 3 b)\<rparr>
      else Err (InvalidFlags b))"
    by (rule flags_from_byte_eq)
  show "flags_from_byte b = Ok f \<longleftrightarrow> epoch_ok (flags_epoch f) \<and> b = flags_to_byte f"
    using flags_roundtrip [of f] flags_exact [of b f] by (auto simp: flags_ok_def)
  have "{b. \<exists>f. flags_from_byte b = Ok f} = flags_to_byte ` {f. flags_ok f}"
    using flags_byte.image_enc_valid by auto
  then show "card {b. \<exists>f. flags_from_byte b = Ok f} = 64"
    using flags_byte.enc_inj_on by (simp add: card_image card_flags_ok)
qed

end
