(* ===== verification/Stats.thy ===== *)
theory Stats
  imports Codec
begin

text \<open>
  Counters and the failure policy, \<open>src/src/stats.rs\<close>. The thread-local cells \<open>STATS\<close>, \<open>POLICY\<close>
  and \<open>LOGGED\<close> are the fields of \<open>stats_state\<close>, with the lines written to standard error. The
  lemmas give the effect of each recording function on the balance
  \<open>rx_total = rx_ok + sum of rejects\<close>, that counters never decrease, and that within one
  \<open>log_once\<close> window each reason is written at most once.
\<close>

section \<open>Reject reasons\<close>

datatype reject_reason =
    RPlaintext
  | RTooShort
  | RBadFlags
  | RLenMismatch
  | RNoPeer
  | RNoEpoch
  | RAuthFailed

fun reason_index :: "reject_reason \<Rightarrow> nat" where
  "reason_index RPlaintext = 0"
| "reason_index RTooShort = 1"
| "reason_index RBadFlags = 2"
| "reason_index RLenMismatch = 3"
| "reason_index RNoPeer = 4"
| "reason_index RNoEpoch = 5"
| "reason_index RAuthFailed = 6"

definition REASON_COUNT :: nat where "REASON_COUNT = reason_index RAuthFailed + 1"

definition ALL_REASONS :: "reject_reason list" where
  "ALL_REASONS =
     [RPlaintext, RTooShort, RBadFlags, RLenMismatch, RNoPeer, RNoEpoch, RAuthFailed]"

fun reason_line :: "reject_reason \<Rightarrow> ustr" where
  "reason_line RPlaintext = str ''[PAXE] drop: plaintext on a protected socket''"
| "reason_line RTooShort = str ''[PAXE] drop: frame too short''"
| "reason_line RBadFlags = str ''[PAXE] drop: flags constant-bit violation''"
| "reason_line RLenMismatch = str ''[PAXE] drop: declared length inconsistent with frame size''"
| "reason_line RNoPeer = str ''[PAXE] drop: unknown peer''"
| "reason_line RNoEpoch = str ''[PAXE] drop: unknown epoch for known peer''"
| "reason_line RAuthFailed = str ''[PAXE] drop: authentication failure''"

fun from_codec :: "codec_error \<Rightarrow> reject_reason" where
  "from_codec (TooShort _) = RTooShort"
| "from_codec (InvalidFlags _) = RBadFlags"

section \<open>The failure policy\<close>

datatype fail_policy = Silent | LogOnce | Verbose

fun policy_name :: "fail_policy \<Rightarrow> ustr" where
  "policy_name Silent = str ''silent''"
| "policy_name LogOnce = str ''log_once''"
| "policy_name Verbose = str ''verbose''"

definition policy_from_name :: "ustr \<Rightarrow> fail_policy option" where
  "policy_from_name n =
     (if n = str ''silent'' then Some Silent
      else if n = str ''log_once'' then Some LogOnce
      else if n = str ''verbose'' then Some Verbose
      else None)"

section \<open>The counters\<close>

definition SNAPSHOT_FIELD_COUNT :: nat where "SNAPSHOT_FIELD_COUNT = 13"

record stats =
  rx_total :: u64
  rx_ok :: u64
  rx_rejects :: "u64 list"
  tx_total :: u64
  tx_standard :: u64
  tx_dek :: u64
  tx_oversize :: u64

definition stats_zero :: stats where
  "stats_zero =
     \<lparr>rx_total = 0, rx_ok = 0, rx_rejects = replicate REASON_COUNT 0, tx_total = 0,
      tx_standard = 0, tx_dek = 0, tx_oversize = 0\<rparr>"

text \<open>Indexed access with \<open>get\<close>: 0 out of range.\<close>

definition reject :: "stats \<Rightarrow> reject_reason \<Rightarrow> u64" where
  "reject s r =
     (if reason_index r < length (rx_rejects s) then rx_rejects s ! reason_index r else 0)"

definition reject_sum :: "stats \<Rightarrow> u64" where
  "reject_sum s = foldl (\<lambda>sum r. saturating_add sum (reject s r)) 0 ALL_REASONS"

definition stats_fields :: "stats \<Rightarrow> u64 list" where
  "stats_fields s =
     [rx_total s, rx_ok s, reject s RPlaintext, reject s RTooShort, reject s RBadFlags,
      reject s RLenMismatch, reject s RNoPeer, reject s RNoEpoch, reject s RAuthFailed,
      tx_total s, tx_standard s, tx_dek s, tx_oversize s]"

section \<open>Process state\<close>

record stats_state =
  STATS :: stats
  POLICY :: fail_policy
  LOGGED :: u64
  stderr :: "ustr list"

definition stats_init :: stats_state where
  "stats_init = \<lparr>STATS = stats_zero, POLICY = Silent, LOGGED = 0, stderr = []\<rparr>"

definition bump :: "(stats \<Rightarrow> stats) \<Rightarrow> stats_state \<Rightarrow> stats_state" where
  "bump f st = st\<lparr>STATS := f (STATS st)\<rparr>"

definition record_rx_ok :: "stats_state \<Rightarrow> stats_state" where
  "record_rx_ok =
     bump (\<lambda>s. s\<lparr>rx_total := saturating_add (rx_total s) 1, rx_ok := saturating_add (rx_ok s) 1\<rparr>)"

definition record_rx_drop :: "stats_state \<Rightarrow> stats_state" where
  "record_rx_drop = bump (\<lambda>s. s\<lparr>rx_total := saturating_add (rx_total s) 1\<rparr>)"

definition record_tx_sealed :: "mode \<Rightarrow> stats_state \<Rightarrow> stats_state" where
  "record_tx_sealed m =
     bump (\<lambda>s. let s1 = s\<lparr>tx_total := saturating_add (tx_total s) 1\<rparr> in
       case m of
         Standard \<Rightarrow> s1\<lparr>tx_standard := saturating_add (tx_standard s1) 1\<rparr>
       | Dek \<Rightarrow> s1\<lparr>tx_dek := saturating_add (tx_dek s1) 1\<rparr>)"

definition record_tx_oversize :: "stats_state \<Rightarrow> stats_state" where
  "record_tx_oversize = bump (\<lambda>s. s\<lparr>tx_oversize := saturating_add (tx_oversize s) 1\<rparr>)"

text \<open>\<open>should_log\<close> test-and-sets the reason's bit of the memo under \<open>log_once\<close>.\<close>

definition should_log :: "reject_reason \<Rightarrow> stats_state \<Rightarrow> bool \<times> stats_state" where
  "should_log r st =
     (case POLICY st of
        Silent \<Rightarrow> (False, st)
      | Verbose \<Rightarrow> (True, st)
      | LogOnce \<Rightarrow>
          let b = push_bit (reason_index r) 1 in
          if LOGGED st AND b \<noteq> 0 then (False, st)
          else (True, st\<lparr>LOGGED := LOGGED st OR b\<rparr>))"

definition emit :: "reject_reason \<Rightarrow> stats_state \<Rightarrow> stats_state" where
  "emit r st = st\<lparr>stderr := stderr st @ [reason_line r]\<rparr>"

definition record_reject :: "reject_reason \<Rightarrow> stats_state \<Rightarrow> stats_state" where
  "record_reject r st =
     (let st1 = bump (\<lambda>s. if reason_index r < length (rx_rejects s)
            then s\<lparr>rx_rejects := (rx_rejects s)[reason_index r :=
              saturating_add (rx_rejects s ! reason_index r) 1]\<rparr>
            else s) st in
      case should_log r st1 of
        (True, st2) \<Rightarrow> emit r st2
      | (False, st2) \<Rightarrow> st2)"

definition snapshot :: "stats_state \<Rightarrow> stats" where
  "snapshot st = STATS st"

definition reset_log_once_memo :: "stats_state \<Rightarrow> stats_state" where
  "reset_log_once_memo st = st\<lparr>LOGGED := 0\<rparr>"

definition policy :: "stats_state \<Rightarrow> fail_policy" where
  "policy st = POLICY st"

definition set_policy :: "fail_policy \<Rightarrow> stats_state \<Rightarrow> stats_state" where
  "set_policy p st =
     (let st1 = st\<lparr>POLICY := p\<rparr> in
      if p = LogOnce then reset_log_once_memo st1 else st1)"

section \<open>Well-formed counters\<close>

lemma reason_index_inj [simp]: "reason_index a = reason_index b \<longleftrightarrow> a = b"
  by (cases a; cases b) simp_all

lemma reason_index_lt [simp]: "reason_index r < 7"
  by (cases r) simp_all

lemma policy_roundtrip [simp]: "policy_from_name (policy_name p) = Some p"
  by (cases p) (simp_all add: policy_from_name_def str_def)

interpretation policy_spelling: exact_coding "\<lambda>_. True" policy_name policy_from_name
  by unfold_locales (rule policy_roundtrip, auto simp: policy_from_name_def split: if_splits)

definition stats_wf :: "stats_state \<Rightarrow> bool" where
  "stats_wf st \<longleftrightarrow> length (rx_rejects (STATS st)) = REASON_COUNT"

lemma reason_count [simp]: "REASON_COUNT = 7"
  by (simp add: REASON_COUNT_def)

definition reject_total :: "stats \<Rightarrow> nat" where
  "reject_total s = sum_list (map unat (rx_rejects s))"

text \<open>The documented balance, over the natural numbers.\<close>

definition balanced :: "stats_state \<Rightarrow> bool" where
  "balanced st \<longleftrightarrow> unat (rx_total (STATS st)) = unat (rx_ok (STATS st)) + reject_total (STATS st)"

definition U64_MAX :: nat where "U64_MAX = 2 ^ 64 - 1"

lemma stats_init_wf: "stats_wf stats_init" "balanced stats_init"
  by (simp_all add: stats_wf_def balanced_def stats_init_def stats_zero_def reject_total_def
      sum_list_replicate)

definition bump_reject :: "reject_reason \<Rightarrow> stats \<Rightarrow> stats" where
  "bump_reject r s = s\<lparr>rx_rejects := (rx_rejects s)[reason_index r := saturating_add (reject s r) 1]\<rparr>"

lemma STATS_record_reject:
  "stats_wf st \<Longrightarrow> STATS (record_reject r st) = bump_reject r (STATS st)"
  by (auto simp: record_reject_def bump_def should_log_def emit_def Let_def stats_wf_def
      bump_reject_def reject_def split: fail_policy.splits)

lemma record_reject_frame [simp]:
  "rx_total (STATS (record_reject r st)) = rx_total (STATS st)"
  "rx_ok (STATS (record_reject r st)) = rx_ok (STATS st)"
  "tx_total (STATS (record_reject r st)) = tx_total (STATS st)"
  "POLICY (record_reject r st) = POLICY st"
  by (auto simp: record_reject_def bump_def should_log_def emit_def Let_def
      split: fail_policy.splits)

lemma wf_record [simp]:
  "stats_wf (record_reject r st) \<longleftrightarrow> stats_wf st"
  "stats_wf (record_rx_ok st) \<longleftrightarrow> stats_wf st"
  "stats_wf (record_rx_drop st) \<longleftrightarrow> stats_wf st"
  "stats_wf (record_tx_sealed m st) \<longleftrightarrow> stats_wf st"
  "stats_wf (record_tx_oversize st) \<longleftrightarrow> stats_wf st"
  "stats_wf (set_policy p st) \<longleftrightarrow> stats_wf st"
  "stats_wf (reset_log_once_memo st) \<longleftrightarrow> stats_wf st"
  by (auto simp: stats_wf_def record_reject_def should_log_def emit_def bump_def Let_def
      record_rx_ok_def record_rx_drop_def record_tx_sealed_def record_tx_oversize_def set_policy_def
      reset_log_once_memo_def split: mode.splits fail_policy.splits)

section \<open>The balance\<close>

lemma sum_list_update_unat:
  "i < length xs \<Longrightarrow> sum_list (map unat (xs[i := y])) + unat (xs ! i) = sum_list (map unat xs) + unat y"
  for xs :: "u64 list"
  by (induction xs arbitrary: i) (auto simp: less_Suc_eq_0_disj split: nat.splits)

lemma reject_le_total:
  assumes "stats_wf st"
  shows "unat (reject (STATS st) r) \<le> reject_total (STATS st)"
proof -
  have "reason_index r < length (map unat (rx_rejects (STATS st)))"
    using assms by (simp add: stats_wf_def)
  from elem_le_sum_list [OF this] assms show ?thesis
    by (simp add: reject_def stats_wf_def reject_total_def)
qed

lemma reject_total_record:
  assumes "stats_wf st" "unat (reject (STATS st) r) < U64_MAX"
  shows "reject_total (STATS (record_reject r st)) = Suc (reject_total (STATS st))"
proof -
  have i: "reason_index r < length (rx_rejects (STATS st))" using assms(1) by (simp add: stats_wf_def)
  with sum_list_update_unat [OF i, of "saturating_add (reject (STATS st) r) 1"] assms(2)
  show ?thesis
    by (simp add: STATS_record_reject [OF assms(1)] bump_reject_def reject_total_def reject_def
        saturating_add_1_below U64_MAX_def)
qed

lemma reject_record:
  assumes "stats_wf st"
  shows "reject (STATS (record_reject r st)) r' =
    (if r' = r then saturating_add (reject (STATS st) r) 1 else reject (STATS st) r')"
  using assms by (auto simp: STATS_record_reject bump_reject_def reject_def stats_wf_def)

lemma reject_total_reasons:
  assumes "stats_wf st"
  shows "reject_total (STATS st) = sum_list (map (\<lambda>r. unat (reject (STATS st) r)) ALL_REASONS)"
proof -
  have "length (rx_rejects (STATS st)) = Suc (Suc (Suc (Suc (Suc (Suc (Suc 0))))))"
    using assms by (simp add: stats_wf_def)
  then obtain a b c d e f g where "rx_rejects (STATS st) = [a, b, c, d, e, f, g]"
    by (auto simp: length_Suc_conv)
  then show ?thesis by (simp add: reject_total_def ALL_REASONS_def reject_def)
qed

text \<open>The two ways a frame is accounted for: opened, or rejected with one reason and dropped.\<close>

lemma balanced_rx_ok:
  assumes "balanced st" "unat (rx_total (STATS st)) < U64_MAX"
  shows "balanced (record_rx_ok st)"
proof -
  have "unat (rx_ok (STATS st)) < U64_MAX" using assms by (simp add: balanced_def)
  then show ?thesis using assms
    by (simp add: balanced_def record_rx_ok_def bump_def reject_total_def saturating_add_1_below
        U64_MAX_def)
qed

lemma balanced_reject_drop:
  assumes "stats_wf st" "balanced st" "unat (rx_total (STATS st)) < U64_MAX"
  shows "balanced (record_rx_drop (record_reject r st))"
proof -
  have "unat (reject (STATS st) r) < U64_MAX"
    using reject_le_total [OF assms(1), of r] assms(2,3) by (simp add: balanced_def)
  from reject_total_record [OF assms(1) this] assms show ?thesis
    by (simp add: balanced_def record_rx_drop_def bump_def saturating_add_1_below U64_MAX_def
        reject_total_def)
qed

lemma balanced_other [simp]:
  "balanced (record_tx_sealed m st) \<longleftrightarrow> balanced st"
  "balanced (record_tx_oversize st) \<longleftrightarrow> balanced st"
  "balanced (set_policy p st) \<longleftrightarrow> balanced st"
  "balanced (reset_log_once_memo st) \<longleftrightarrow> balanced st"
  by (auto simp: balanced_def record_tx_sealed_def record_tx_oversize_def set_policy_def bump_def
      reset_log_once_memo_def reject_total_def Let_def split: mode.splits)

section \<open>Counters never decrease\<close>

definition stats_le :: "stats_state \<Rightarrow> stats_state \<Rightarrow> bool" where
  "stats_le s t \<longleftrightarrow> list_all2 (\<le>) (stats_fields (STATS s)) (stats_fields (STATS t))"

lemma stats_le_refl [simp, intro]: "stats_le s s"
  by (simp add: stats_le_def list_all2_refl)

lemma stats_le_trans: "stats_le s t \<Longrightarrow> stats_le t u \<Longrightarrow> stats_le s u"
  unfolding stats_le_def by (erule (1) list_all2_trans [rotated]) (rule order_trans)

lemma stats_le_fields:
  assumes "rx_rejects (STATS t) = rx_rejects (STATS s)"
    and "rx_total (STATS s) \<le> rx_total (STATS t)" "rx_ok (STATS s) \<le> rx_ok (STATS t)"
    and "tx_total (STATS s) \<le> tx_total (STATS t)" "tx_standard (STATS s) \<le> tx_standard (STATS t)"
    and "tx_dek (STATS s) \<le> tx_dek (STATS t)" "tx_oversize (STATS s) \<le> tx_oversize (STATS t)"
  shows "stats_le s t"
  using assms by (simp add: stats_le_def stats_fields_def reject_def)

lemma stats_le_record:
  "stats_wf st \<Longrightarrow> stats_le st (record_reject r st)"
  "stats_le st (record_rx_ok st)"
  "stats_le st (record_rx_drop st)"
  "stats_le st (record_tx_sealed m st)"
  "stats_le st (record_tx_oversize st)"
  "stats_le st (set_policy p st)"
  "stats_le st (reset_log_once_memo st)"
proof -
  show "stats_wf st \<Longrightarrow> stats_le st (record_reject r st)"
    unfolding stats_le_def stats_fields_def
    by (simp add: reject_record saturating_add_mono) (simp add: STATS_record_reject bump_reject_def)
  show "stats_le st (record_tx_sealed m st)"
    by (rule stats_le_fields; cases m) (simp_all add: record_tx_sealed_def bump_def Let_def saturating_add_mono)
qed (rule stats_le_fields; simp add: record_rx_ok_def record_rx_drop_def record_tx_oversize_def
    set_policy_def reset_log_once_memo_def bump_def Let_def saturating_add_mono)+

section \<open>The log-once window\<close>

text \<open>The first occurrence of each reason, in order.\<close>

fun firsts :: "reject_reason set \<Rightarrow> reject_reason list \<Rightarrow> reject_reason list" where
  "firsts seen [] = []"
| "firsts seen (r # rs) =
     (if r \<in> seen then firsts seen rs else r # firsts (insert r seen) rs)"

lemma distinct_firsts: "distinct (firsts seen rs) \<and> set (firsts seen rs) = set rs - seen"
  by (induction seen rs rule: firsts.induct) auto

definition memo :: "stats_state \<Rightarrow> reject_reason set" where
  "memo st = {r. bit (LOGGED st) (reason_index r)}"

lemma record_reject_log_once:
  assumes "POLICY st = LogOnce"
  shows "stderr (record_reject r st) = stderr st @ (if r \<in> memo st then [] else [reason_line r])"
    and "memo (record_reject r st) = insert r (memo st)"
proof -
  have bit: "LOGGED st AND 2 ^ reason_index r = 0 \<longleftrightarrow> r \<notin> memo st"
    by (simp add: memo_def bit_iff_and_push_bit_not_eq_0)
  have set: "bit (LOGGED st OR 2 ^ reason_index r) (reason_index q) \<longleftrightarrow>
      q = r \<or> bit (LOGGED st) (reason_index q)" for q
    using order_less_trans [OF reason_index_lt [of q], of 64] by (auto simp: bit_simps)
  show "stderr (record_reject r st) = stderr st @ (if r \<in> memo st then [] else [reason_line r])"
    using assms by (simp add: record_reject_def bump_def should_log_def emit_def Let_def bit)
  show "memo (record_reject r st) = insert r (memo st)"
    using assms by (auto simp: record_reject_def bump_def should_log_def emit_def Let_def bit)
      (auto simp: memo_def set)
qed

lemma log_once_window:
  "POLICY st = LogOnce \<Longrightarrow>
    stderr (fold record_reject rs st) = stderr st @ map reason_line (firsts (memo st) rs)"
  by (induction rs arbitrary: st) (auto simp: record_reject_log_once insert_absorb)

lemma set_policy_window:
  "POLICY (set_policy p st) = p" "stderr (set_policy p st) = stderr st"
  "memo (set_policy LogOnce st) = {}"
  by (simp_all add: set_policy_def reset_log_once_memo_def memo_def Let_def)

text \<open>Each rejection moves exactly its own counter by one, saturating, and no other field of the
  thirteen in the snapshot; the snapshot lists every reason once, in declaration order.\<close>

lemma record_reject_fields:
  assumes "stats_wf st"
  shows "stats_fields (snapshot (record_reject r st)) =
    (stats_fields (snapshot st))[2 + reason_index r := saturating_add (reject (snapshot st) r) 1] \<and>
    length (stats_fields (snapshot st)) = SNAPSHOT_FIELD_COUNT \<and>
    map (\<lambda>i. stats_fields (snapshot st) ! (2 + i)) [0..<REASON_COUNT] = map (reject (snapshot st)) ALL_REASONS"
proof -
  have tx: "rx_total (bump_reject r s) = rx_total s" "rx_ok (bump_reject r s) = rx_ok s"
    "tx_total (bump_reject r s) = tx_total s" "tx_standard (bump_reject r s) = tx_standard s"
    "tx_dek (bump_reject r s) = tx_dek s" "tx_oversize (bump_reject r s) = tx_oversize s" for s
    by (simp_all add: bump_reject_def)
  note rj = reject_record [OF assms, of r, unfolded STATS_record_reject [OF assms]]
  have "stats_fields (snapshot (record_reject r st)) =
    (stats_fields (snapshot st))[2 + reason_index r := saturating_add (reject (snapshot st) r) 1]"
    unfolding snapshot_def STATS_record_reject [OF assms] stats_fields_def rj tx
    by (cases r) (simp_all add: numeral_eq_Suc)
  moreover have "length (stats_fields (snapshot st)) = SNAPSHOT_FIELD_COUNT"
    by (simp add: stats_fields_def SNAPSHOT_FIELD_COUNT_def)
  moreover have "map (\<lambda>i. stats_fields (snapshot st) ! (2 + i)) [0..<REASON_COUNT] = map (reject (snapshot st)) ALL_REASONS"
  proof -
    have "[0..<REASON_COUNT] = [0, 1, 2, 3, 4, 5, 6]" by code_simp
    then show ?thesis by (simp add: stats_fields_def ALL_REASONS_def)
  qed
  ultimately show ?thesis by simp
qed

section \<open>Properties\<close>

text \<open>In a log-once window each reason is written at most once, at its first occurrence and in
  order, however many frames are rejected; entering the policy again starts a new window, the
  silent policy writes nothing and the verbose one a line for every rejection.\<close>

lemma log_once_lines:
  "stderr (fold record_reject rs (set_policy LogOnce st)) = stderr st @ map reason_line (firsts {} rs) \<and>
   distinct (firsts {} rs) \<and> set (firsts {} rs) = set rs \<and>
   stderr (fold record_reject rs (set_policy Silent st)) = stderr st \<and>
   stderr (fold record_reject rs (set_policy Verbose st)) = stderr st @ map reason_line rs"
proof -
  have silent: "POLICY t = Silent \<Longrightarrow> stderr (fold record_reject rs t) = stderr t" for t
    by (induction rs arbitrary: t)
      (simp_all, simp add: record_reject_def bump_def should_log_def Let_def)
  have verbose: "POLICY t = Verbose \<Longrightarrow> stderr (fold record_reject rs t) = stderr t @ map reason_line rs" for t
    by (induction rs arbitrary: t)
      (simp_all, simp add: record_reject_def bump_def should_log_def emit_def Let_def)
  show ?thesis
    using log_once_window [of "set_policy LogOnce st" rs] distinct_firsts [of "{}" rs]
    by (simp add: set_policy_window silent verbose)
qed

end
