(* ===== verification/Standard.thy ===== *)
theory Standard
  imports Stats
begin

text \<open>
  Standard mode, \<open>src/src/standard.rs\<close>: frames of \<open>prefix \<parallel> nonce \<parallel> ciphertext \<parallel> tag\<close>. Sealing
  writes into the caller's buffer, opening decrypts into another; both return the buffer with
  their result, and \<open>None\<close> is a panic. The section on the frame gives its value as one
  expression, \<open>std_frame\<close>, and shows that sealing writes exactly that and nothing else, that
  opening accepts exactly the frames of that form addressed to this node under a key it holds,
  and that neither panics.
\<close>

section \<open>Constants and errors\<close>

definition OVERHEAD :: nat where "OVERHEAD = PREFIX_LEN + NPUBBYTES + ABYTES"

definition MAX_UDP_DATAGRAM :: nat where "MAX_UDP_DATAGRAM = 65507"

definition MAX_PAYLOAD :: nat where "MAX_PAYLOAD = MAX_UDP_DATAGRAM - OVERHEAD"

definition frame_aad :: "bytes \<Rightarrow> bytes option" where
  "frame_aad frame = subslice_to PREFIX_LEN frame"

datatype seal_error =
    PayloadTooLarge nat
  | OutputTooSmall nat nat
  | NoKey
  | SealSodium sodium_error

fun show_seal_error :: "seal_error \<Rightarrow> ustr" where
  "show_seal_error (PayloadTooLarge n) =
     str ''payload too large: '' @ show_nat n @
     str '' bytes exceeds the standard-mode maximum of '' @ show_nat MAX_PAYLOAD"
| "show_seal_error (OutputTooSmall needed actual) =
     str ''output buffer too small: the frame needs '' @ show_nat needed @ str '' bytes, have '' @
     show_nat actual"
| "show_seal_error NoKey = str ''no key installed for the destination peer and epoch''"
| "show_seal_error (SealSodium e) = str ''libsodium failure: '' @ show_sodium_error e"

datatype open_rejected = Rejected

definition show_open_rejected :: "open_rejected \<Rightarrow> ustr" where
  "show_open_rejected e = (case e of Rejected \<Rightarrow> str ''frame rejected'')"

section \<open>Sealing\<close>

definition seal_core ::
  "sodium_lib \<Rightarrow> world \<Rightarrow> keystore \<Rightarrow> u16 \<Rightarrow> u32 \<Rightarrow> epoch \<Rightarrow> bytes \<Rightarrow> bytes \<Rightarrow> bytes \<Rightarrow>
    ((seal_error + nat) \<times> bytes) option" where
  "seal_core L w store to ch e payload nonce out =
     (if length payload > MAX_PAYLOAD then Some (Err (PayloadTooLarge (length payload)), out)
      else let frame_len = length payload + OVERHEAD in
        if length out < frame_len then Some (Err (OutputTooSmall frame_len (length out)), out)
        else case key_for_send store to e of
          None \<Rightarrow> Some (Err NoKey, out)
        | Some stored \<Rightarrow>
            (case to_array KEYBYTES (expose w stored) of
               None \<Rightarrow> Some (Err (SealSodium Internal), out)
             | Some key \<Rightarrow>
                 let hdr = \<lparr>from_id = ks_local_id store, to_id = to, channel = ch\<rparr>;
                     fl = flags_new Standard e in
                 do {
                   (pre, rest) \<leftarrow> split_at PREFIX_LEN out;
                   pre' \<leftarrow> copy_from_slice pre (serialize_prefix hdr fl);
                   (nonce_slot, ct_slot) \<leftarrow> split_at NPUBBYTES rest;
                   nonce_slot' \<leftarrow> copy_from_slice nonce_slot nonce;
                   (case frame_aad pre' of
                      None \<Rightarrow> Some (Err (SealSodium Internal), pre' @ nonce_slot' @ ct_slot)
                    | Some aad \<Rightarrow>
                        (case aead_encrypt L key nonce aad payload ct_slot of
                           (Err x, ct) \<Rightarrow> Some (Err (SealSodium x), pre' @ nonce_slot' @ ct)
                         | (Ok _, ct) \<Rightarrow> Some (Ok frame_len, pre' @ nonce_slot' @ ct)))
                 }))"

definition seal ::
  "sodium_lib \<Rightarrow> keystore \<Rightarrow> u16 \<Rightarrow> u32 \<Rightarrow> epoch \<Rightarrow> bytes \<Rightarrow> bytes \<Rightarrow> world \<Rightarrow>
    (((seal_error + nat) \<times> bytes) \<times> world) option" where
  "seal L store to ch e payload out w =
     (case random_nonce L w of
        (nonce, w1) \<Rightarrow>
          do {
            r \<leftarrow> seal_core L w1 store to ch e payload nonce out;
            Some (r, w1)
          })"

definition seal_standard_deterministic ::
  "sodium_lib \<Rightarrow> world \<Rightarrow> keystore \<Rightarrow> u16 \<Rightarrow> u32 \<Rightarrow> epoch \<Rightarrow> bytes \<Rightarrow> bytes \<Rightarrow> (seal_error + bytes) option"
  where
  "seal_standard_deterministic L w store to ch e payload nonce =
     (if length payload > MAX_PAYLOAD then Some (Err (PayloadTooLarge (length payload)))
      else do {
        (r, frame) \<leftarrow> seal_core L w store to ch e payload nonce
          (replicate (length payload + OVERHEAD) 0);
        (case r of
           Ok n \<Rightarrow> if n = length frame then Some (Ok frame) else None
         | Err x \<Rightarrow> Some (Err x))
      })"

section \<open>Opening\<close>

definition standard_open ::
  "sodium_lib \<Rightarrow> world \<Rightarrow> keystore \<Rightarrow> bytes \<Rightarrow> bytes \<Rightarrow> stats_state \<Rightarrow>
    ((open_rejected + header \<times> flags \<times> nat) \<times> bytes \<times> stats_state) option" where
  "standard_open L w store frame out st =
     (case parse_prefix frame of
        Err e \<Rightarrow> Some (Err Rejected, out, record_reject (from_codec e) st)
      | Ok (hdr, fl) \<Rightarrow>
          if to_id hdr \<noteq> ks_local_id store then Some (Err Rejected, out, record_reject RPlaintext st)
          else if flags_mode fl \<noteq> Standard then Some (Err Rejected, out, st)
          else if length frame < OVERHEAD then
            Some (Err Rejected, out, record_reject RLenMismatch st)
          else (case key_for_receive store (from_id hdr) (flags_epoch fl) of
            None \<Rightarrow>
              Some (Err Rejected, out,
                record_reject (if peer_known store (from_id hdr) then RNoEpoch else RNoPeer) st)
          | Some stored \<Rightarrow>
              (case (to_array KEYBYTES (expose w stored), frame_aad frame,
                     subslice PREFIX_LEN (PREFIX_LEN + NPUBBYTES) frame \<bind> to_array NPUBBYTES,
                     subslice_from (PREFIX_LEN + NPUBBYTES) frame) of
                 (Some key, Some aad, Some nonce, Some ciphertext) \<Rightarrow>
                   do {
                     (r, out') \<leftarrow> aead_decrypt L key nonce aad ciphertext out;
                     (case r of
                        Ok n \<Rightarrow> Some (Ok (hdr, fl, n), out', st)
                      | Err AuthFailed \<Rightarrow> Some (Err Rejected, out', record_reject RAuthFailed st)
                      | Err _ \<Rightarrow> Some (Err Rejected, out', st))
                   }
               | _ \<Rightarrow> Some (Err Rejected, out, st))))"

section \<open>The frame\<close>

lemmas standard_sizes = OVERHEAD_def PREFIX_LEN_def NPUBBYTES_def ABYTES_def MAX_PAYLOAD_def
  MAX_UDP_DATAGRAM_def

lemma OVERHEAD_37: "OVERHEAD = 37"
  by (simp add: standard_sizes)

definition std_prefix :: "u16 \<Rightarrow> u16 \<Rightarrow> u32 \<Rightarrow> epoch \<Rightarrow> bytes" where
  "std_prefix src to ch e =
     serialize_prefix \<lparr>from_id = src, to_id = to, channel = ch\<rparr> (flags_new Standard e)"

definition std_frame ::
  "sodium_lib \<Rightarrow> bytes \<Rightarrow> u16 \<Rightarrow> u16 \<Rightarrow> u32 \<Rightarrow> epoch \<Rightarrow> bytes \<Rightarrow> bytes \<Rightarrow> bytes" where
  "std_frame L key src to ch e nonce payload =
     std_prefix src to ch e @ nonce @ gcm L key nonce (std_prefix src to ch e) payload"

lemma length_std_prefix [simp, wire_simps]: "length (std_prefix src to ch e) = 9"
  by (simp add: std_prefix_def)

lemma length_std_frame [wire_simps]:
  "aead_contract L \<Longrightarrow> length key = KEYBYTES \<Longrightarrow> length nonce = NPUBBYTES \<Longrightarrow>
    length (std_frame L key src to ch e nonce payload) = length payload + OVERHEAD"
  by (simp add: std_frame_def length_gcm standard_sizes)

lemma overwrite_split:
  "length a = i \<Longrightarrow> length b = j \<Longrightarrow> i + j \<le> length out \<Longrightarrow>
    a @ b @ overwrite (drop j (drop i out)) c = overwrite out (a @ b @ c)"
  by (simp add: overwrite_def add.commute add.left_commute)

lemma lookup_expose:
  assumes "ks_inv w store" "key_for_receive store p e = Some g"
  shows "lookup w store p e = Some (expose w g)" "to_array KEYBYTES (expose w g) = Some (expose w g)"
proof -
  show l: "lookup w store p e = Some (expose w g)" by (simp add: lookup_def assms(2))
  show "to_array KEYBYTES (expose w g) = Some (expose w g)"
    using ks.look_ok [of "(w, store)" p e "expose w g"] assms(1) l by simp
qed

lemma send_is_receive: "key_for_send = key_for_receive"
  by (simp add: fun_eq_iff key_for_send_def key_for_receive_def)

lemma random_nonce_eq:
  "random_nonce L w = (x_random L (draws w) NPUBBYTES, w\<lparr>draws := Suc (draws w)\<rparr>)"
  by (simp add: random_nonce_def randombytes_fill_def sodium_sizes)

lemma ks_inv_heap: "heap w' = heap w \<Longrightarrow> ks_inv w' ks \<longleftrightarrow> ks_inv w ks"
  by (simp add: ks_inv_def key_ok_def wf_heap_def live_def mem_def)

lemma lookup_heap: "heap w' = heap w \<Longrightarrow> lookup w' ks p e = lookup w ks p e"
  by (simp add: lookup_def expose_def [abs_def] galloc_slice_def [abs_def] mem_def)

text \<open>Sealing on every branch: gates in order, and the frame at the front of the buffer.\<close>

lemma seal_core_spec:
  assumes "aead_contract L" "ks_inv w store" "length nonce = NPUBBYTES"
  shows "seal_core L w store to ch e payload nonce out = Some
    (if length payload > MAX_PAYLOAD then (Err (PayloadTooLarge (length payload)), out)
     else if length out < length payload + OVERHEAD
       then (Err (OutputTooSmall (length payload + OVERHEAD) (length out)), out)
     else case lookup w store to e of
       None \<Rightarrow> (Err NoKey, out)
     | Some key \<Rightarrow>
         (Ok (length payload + OVERHEAD),
          overwrite out (std_frame L key (ks_local_id store) to ch e nonce payload)))"
proof (cases "length payload > MAX_PAYLOAD \<or> length out < length payload + OVERHEAD")
  case True
  then show ?thesis by (auto simp: seal_core_def Let_def)
next
  case False
  then have gates: "\<not> MAX_PAYLOAD < length payload" "\<not> length out < length payload + OVERHEAD" by auto
  show ?thesis
  proof (cases "key_for_receive store to e")
    case None
    with gates show ?thesis by (simp add: seal_core_def Let_def send_is_receive lookup_def)
  next
    case (Some g)
    note key = lookup_expose [OF assms(2) Some]
    have len: "length (expose w g) = KEYBYTES" using key(2) by (simp add: to_array_Some_iff)
    have out: "length payload + 37 \<le> length out" using gates(2) by (simp add: OVERHEAD_37)
    define pre where "pre = std_prefix (ks_local_id store) to ch e"
    have pre: "serialize_prefix \<lparr>from_id = ks_local_id store, to_id = to, channel = ch\<rparr>
        (flags_new Standard e) = pre" by (simp add: pre_def std_prefix_def)
    have lpre: "length pre = 9" by (simp add: pre_def)
    have enc: "aead_encrypt L (expose w g) nonce pre payload (drop 12 (drop 9 out)) =
        (Ok (length payload + ABYTES), overwrite (drop 12 (drop 9 out)) (gcm L (expose w g) nonce pre payload))"
      by (rule aead_encrypt_ok [OF assms(1) len assms(3)])
        (use gates out in \<open>simp_all add: USIZE_MAX_def standard_sizes\<close>)
    have n12: "length nonce = 12" using assms(3) by (simp add: NPUBBYTES_def)
    show ?thesis
      using gates out lpre n12
      by (simp add: seal_core_def Let_def send_is_receive Some key pre PREFIX_LEN_def NPUBBYTES_def
          frame_aad_def enc [simplified] std_frame_def pre_def [symmetric])
        (simp add: overwrite_def add.commute)
  qed
qed

text \<open>Opening on every branch, with the decryption verdict of the library.\<close>

definition open_result ::
  "sodium_lib \<Rightarrow> bytes \<Rightarrow> header \<Rightarrow> flags \<Rightarrow> bytes \<Rightarrow> bytes \<Rightarrow> stats_state \<Rightarrow>
    (open_rejected + header \<times> flags \<times> nat) \<times> bytes \<times> stats_state" where
  "open_result L key hdr fl frame out st =
     (if length out < length frame - OVERHEAD then (Err Rejected, out, st)
      else case gcm_open L key (take 12 (drop 9 frame)) (take 9 frame) (drop 21 frame) of
        Some m \<Rightarrow> (Ok (hdr, fl, length m), overwrite out m, st)
      | None \<Rightarrow> (Err Rejected, overwrite out (zeros (length frame - OVERHEAD)), record_reject RAuthFailed st))"

lemma standard_open_spec:
  assumes "aead_contract L" "memory_contract L" "ks_inv w store"
  shows "standard_open L w store frame out st = Some
    (case parse_prefix frame of
       Err e \<Rightarrow> (Err Rejected, out, record_reject (from_codec e) st)
     | Ok (hdr, fl) \<Rightarrow>
         if to_id hdr \<noteq> ks_local_id store then (Err Rejected, out, record_reject RPlaintext st)
         else if flags_mode fl \<noteq> Standard then (Err Rejected, out, st)
         else if length frame < OVERHEAD then (Err Rejected, out, record_reject RLenMismatch st)
         else (case lookup w store (from_id hdr) (flags_epoch fl) of
             None \<Rightarrow> (Err Rejected, out, record_reject
               (if \<exists>e. lookup w store (from_id hdr) e \<noteq> None then RNoEpoch else RNoPeer) st)
           | Some key \<Rightarrow> open_result L key hdr fl frame out st))"
proof (cases "parse_prefix frame")
  case (Inl e)
  then show ?thesis by (simp add: standard_open_def)
next
  case (Inr hf)
  obtain hdr fl where hf: "hf = (hdr, fl)" by (cases hf)
  show ?thesis
  proof (cases "to_id hdr = ks_local_id store \<and> flags_mode fl = Standard \<and> OVERHEAD \<le> length frame")
    case False
    with Inr hf show ?thesis by (auto simp: standard_open_def)
  next
    case True
    note gates = True
    show ?thesis
    proof (cases "key_for_receive store (from_id hdr) (flags_epoch fl)")
      case None
      with gates Inr hf show ?thesis
        by (simp add: standard_open_def lookup_def [of _ _ _ "flags_epoch fl"] peer_known_iff [OF assms(3)])
    next
      case (Some g)
      note key = lookup_expose [OF assms(3) Some]
      have len: "length (expose w g) = KEYBYTES" using key(2) by (simp add: to_array_Some_iff)
      have frame: "37 \<le> length frame" using gates by (simp add: OVERHEAD_37)
      have nonce: "length (take 12 (drop 9 frame)) = NPUBBYTES" using frame by (simp add: NPUBBYTES_def)
      have "standard_open L w store frame out st =
          do { (r, out') \<leftarrow> aead_decrypt L (expose w g) (take 12 (drop 9 frame)) (take 9 frame) (drop 21 frame) out;
            (case r of
               Ok n \<Rightarrow> Some (Ok (hdr, fl, n), out', st)
             | Err AuthFailed \<Rightarrow> Some (Err Rejected, out', record_reject RAuthFailed st)
             | Err _ \<Rightarrow> Some (Err Rejected, out', st)) }"
        using gates Inr hf Some key frame nonce
        by (simp add: standard_open_def frame_aad_def PREFIX_LEN_def NPUBBYTES_def)
      also have "\<dots> = Some (open_result L (expose w g) hdr fl frame out st)"
        unfolding aead_decrypt_spec [OF assms(1,2) len nonce] open_result_def zeros_def OVERHEAD_37 ABYTES_def
        using frame by (auto split: option.split)
      finally show ?thesis using gates Inr hf key(1) by simp
    qed
  qed
qed

lemma seal_core_no_panic: "seal_core L w store to ch e payload nonce out \<noteq> None"
  if "length nonce = NPUBBYTES"
  using that
  by (auto simp: seal_core_def Let_def standard_sizes frame_aad_def
      split: option.splits prod.splits sum.splits)

lemma standard_open_no_panic: "standard_open L w store frame out st \<noteq> None"
  by (auto simp: standard_open_def Let_def aead_decrypt_no_panic
      split: option.splits Option.bind_splits prod.splits sum.splits sodium_error.splits)

section \<open>Exactly the sealed frames are accepted\<close>

lemma flags_ok_new [simp]: "flags_ok (flags_new m e) \<longleftrightarrow> epoch_ok e"
  by (simp add: flags_ok_def flags_new_def)

lemma parse_std_frame:
  "epoch_ok e \<Longrightarrow> parse_prefix (std_frame L key src to ch e nonce payload) =
    Ok (\<lparr>from_id = src, to_id = to, channel = ch\<rparr>, flags_new Standard e)"
  by (simp add: std_frame_def std_prefix_def parse_serialize)

lemma std_frame_parts:
  assumes "length nonce = NPUBBYTES"
  shows "take 9 (std_frame L key src to ch e nonce payload) = std_prefix src to ch e"
    and "take 12 (drop 9 (std_frame L key src to ch e nonce payload)) = nonce"
    and "drop 21 (std_frame L key src to ch e nonce payload) =
      gcm L key nonce (std_prefix src to ch e) payload"
  using assms by (simp_all add: std_frame_def NPUBBYTES_def)

lemma standard_open_sealed:
  assumes "aead_contract L" "memory_contract L" "ks_inv w store" "length nonce = NPUBBYTES"
    and key: "lookup w store src e = Some key"
    and out: "length payload \<le> length out"
  shows "standard_open L w store (std_frame L key src (ks_local_id store) ch e nonce payload) out st =
    Some (Ok (\<lparr>from_id = src, to_id = ks_local_id store, channel = ch\<rparr>, flags_new Standard e, length payload),
      overwrite out payload, st)"
proof -
  have k: "length key = KEYBYTES" "epoch_ok e"
    using ks.look_ok [of "(w, store)" src e key] assms(3) key by simp_all
  note len = length_std_frame [OF assms(1) k(1) assms(4)]
  show ?thesis
    using out key k(1)
    by (simp add: standard_open_spec [OF assms(1-3)] parse_std_frame [OF k(2)] flags_new_def len
        open_result_def std_frame_parts [OF assms(4)] gcm_open_gcm [OF assms(1) k(1) assms(4)])
qed

lemma standard_open_accepts:
  assumes "aead_contract L" "memory_contract L" "ks_inv w store"
    and "standard_open L w store frame out st = Some (Ok (hdr, fl, n), out', st')"
  shows "\<exists>key nonce payload. lookup w store (from_id hdr) (flags_epoch fl) = Some key \<and>
    length nonce = NPUBBYTES \<and> fl = flags_new Standard (flags_epoch fl) \<and>
    to_id hdr = ks_local_id store \<and>
    frame = std_frame L key (from_id hdr) (to_id hdr) (channel hdr) (flags_epoch fl) nonce payload \<and>
    n = length payload \<and> length payload \<le> length out \<and> out' = overwrite out payload \<and> st' = st"
proof -
  note spec = assms(4) [unfolded standard_open_spec [OF assms(1-3)]]
  obtain h f where parse: "parse_prefix frame = Ok (h, f)"
    using spec by (cases "parse_prefix frame") auto
  obtain key where gates: "to_id h = ks_local_id store" "flags_mode f = Standard"
      "\<not> length frame < OVERHEAD" "lookup w store (from_id h) (flags_epoch f) = Some key"
    and res: "open_result L key h f frame out st = (Ok (hdr, fl, n), out', st')"
    using spec by (auto simp: parse split: if_splits option.splits)
  obtain m where m: "gcm_open L key (take 12 (drop 9 frame)) (take 9 frame) (drop 21 frame) = Some m"
    and eq: "h = hdr" "f = fl" "n = length m" "out' = overwrite out m" "st' = st"
    and out: "\<not> length out < length frame - OVERHEAD"
    using res by (auto simp: open_result_def split: if_splits option.splits)
  have k: "length key = KEYBYTES" "epoch_ok (flags_epoch fl)"
    using ks.look_ok [of "(w, store)"] assms(3) gates(4) eq by auto
  have len: "37 \<le> length frame" using gates(3) by (simp add: OVERHEAD_37)
  then have nonce: "length (take 12 (drop 9 frame)) = NPUBBYTES" and ct: "ABYTES \<le> length (drop 21 frame)"
    by (simp_all add: NPUBBYTES_def ABYTES_def)
  note ct_eq = gcm_open_sound [OF assms(1) k(1) nonce ct m]
  have "take 9 frame = serialize_prefix hdr fl"
    using parse_prefix_sound [OF parse] eq by (metis append_eq_conv_conj length_serialize_prefix)
  moreover have "fl = flags_new Standard (flags_epoch fl)"
    using gates(2) eq by (cases fl) (simp add: flags_new_def)
  moreover have "frame = take 9 frame @ take 12 (drop 9 frame) @ drop 21 frame"
    using take_take_drop [of 9 frame 12] by simp
  moreover have "length m \<le> length out"
    using out len arg_cong [OF ct_eq, of length] length_gcm [OF assms(1) k(1) nonce, of "take 9 frame" m]
    by (simp add: OVERHEAD_37 ABYTES_def)
  moreover have hdr: "hdr = \<lparr>from_id = from_id hdr, to_id = ks_local_id store, channel = channel hdr\<rparr>"
    using gates(1) eq by simp
  ultimately show ?thesis
    using gates(1,4) eq nonce ct_eq
    by - (rule exI [of _ key], rule exI [of _ "take 12 (drop 9 frame)"], rule exI [of _ m],
        simp add: std_frame_def std_prefix_def hdr [symmetric])
qed

section \<open>Properties\<close>

text \<open>Sealing in standard mode, on every branch: the gates are the payload limit, the size of the
  output buffer and the key, in that order, and a gate that fails leaves the buffer as it was;
  otherwise the buffer holds the frame (prefix, the nonce just drawn, ciphertext and tag under the
  key installed for that destination and epoch) at its front and its old bytes behind it. One
  nonce is drawn in every case, and nothing panics.\<close>

lemma standard_seal_behaviour:
  assumes "sodium_contract L" "ks_inv w store"
  shows "seal L store to ch e payload out w = Some
    ((if length payload > MAX_PAYLOAD then (Err (PayloadTooLarge (length payload)), out)
      else if length out < length payload + OVERHEAD
        then (Err (OutputTooSmall (length payload + OVERHEAD) (length out)), out)
      else case lookup w store to e of
        None \<Rightarrow> (Err NoKey, out)
      | Some key \<Rightarrow>
          (Ok (length payload + OVERHEAD),
           overwrite out (std_frame L key (ks_local_id store) to ch e (x_random L (draws w) NPUBBYTES) payload))),
     w\<lparr>draws := Suc (draws w)\<rparr>)"
proof -
  note L = sodium_contractD [OF assms(1)]
  define w1 where "w1 = w\<lparr>draws := Suc (draws w)\<rparr>"
  have heap: "heap w1 = heap w" by (simp add: w1_def)
  have "length (x_random L (draws w) NPUBBYTES) = NPUBBYTES" using L(3) by (simp add: random_contract_def)
  note core = seal_core_spec [OF L(1) assms(2) [folded ks_inv_heap [OF heap]] this]
  show ?thesis
    unfolding seal_def random_nonce_eq prod.case w1_def [symmetric] core lookup_heap [OF heap] by simp
qed

text \<open>C34. A rejected standard frame yields no plaintext: the output buffer is as it was, or the region
  that would have held the plaintext is zeroed; at most one reject reason is recorded and no
  other state changes. An accepted frame is the sealing of the delivered payload under a key held
  for the claimed source and epoch, and is counted under no reason.\<close>

theorem standard_open_exposes_nothing:
  assumes "sodium_contract L" "ks_inv w store"
    and "standard_open L w store frame out st = Some (r, out', st')"
  shows "case r of
      Err _ \<Rightarrow> (out' = out \<or> out' = overwrite out (zeros (length frame - OVERHEAD))) \<and>
        (st' = st \<or> (\<exists>why. st' = record_reject why st))
    | Ok (hdr, fl, n) \<Rightarrow> st' = st \<and> to_id hdr = ks_local_id store \<and>
        (\<exists>key nonce payload. lookup w store (from_id hdr) (flags_epoch fl) = Some key \<and>
          frame = std_frame L key (from_id hdr) (to_id hdr) (channel hdr) (flags_epoch fl) nonce payload \<and>
          n = length payload \<and> out' = overwrite out payload)"
proof (cases r)
  case (Inl x)
  with assms(3) show ?thesis
    unfolding standard_open_spec [OF sodium_contractD(1,2) [OF assms(1)] assms(2)] open_result_def
    by (auto split: sum.splits if_splits option.splits)
next
  case (Inr x)
  obtain hdr fl n where x: "x = (hdr, fl, n)" by (metis prod_cases3)
  from standard_open_accepts [OF sodium_contractD(1,2) [OF assms(1)] assms(2) assms(3) [unfolded Inr x]]
  show ?thesis by (simp add: Inr x) blast
qed

theorem standard_open_exposes_nothing_witness:
  "\<exists>out' st'. standard_open demo_sodium demo_world (demo_store 1 2 (Epoch 3)) (replicate 50 0) (replicate 13 9) stats_init =
      Some (Err Rejected, out', st') \<and> length out' = 13"
proof -
  obtain r out' st' where o: "standard_open demo_sodium demo_world (demo_store 1 2 (Epoch 3))
      (replicate 50 0) (replicate 13 9) stats_init = Some (r, out', st')"
    using standard_open_no_panic by (metis option.exhaust prod_cases3)
  have p: "parse_prefix (replicate 50 0) = Err (InvalidFlags 0)" by code_simp
  from o have r: "r = Err Rejected" by (auto simp: standard_open_def p)
  from standard_open_exposes_nothing [OF demo_contract demo_ks_inv [OF demo_epoch_3] o] o r
  show ?thesis by (auto simp: overwrite_def zeros_def OVERHEAD_37)
qed

end
