(* ===== verification/Dek_Fanout.thy ===== *)
theory Dek_Fanout
  imports Standard
begin

text \<open>
  Reusable-DEK fanout and dispatch, \<open>src/src/dek.rs\<close>. A fanout encrypts the payload once under a
  fresh data key and wraps that key for every recipient; \<open>dek_frame\<close> is the value of one such
  frame. The lemmas show that a fanout is all or nothing and in recipient order, that every
  frame shares the body, that opening accepts exactly such frames, that the data key is wiped on
  every path (\<open>wiped\<close> of the process state), and that nothing panics.
\<close>

section \<open>Layout\<close>

definition UDP_DATAGRAM_MAX :: nat where "UDP_DATAGRAM_MAX = 65507"

definition ENVELOPE_LEN :: nat where "ENVELOPE_LEN = KEYBYTES + ABYTES"

definition BODY_START :: nat where "BODY_START = PREFIX_LEN + NPUBBYTES + ENVELOPE_LEN"

definition BODY_TAG_LEN :: nat where "BODY_TAG_LEN = ABYTES"

definition DEK_OVERHEAD :: nat where "DEK_OVERHEAD = BODY_START + NPUBBYTES + BODY_TAG_LEN"

definition DEK_MAX_PAYLOAD :: nat where "DEK_MAX_PAYLOAD = UDP_DATAGRAM_MAX - DEK_OVERHEAD"

definition ENVELOPE_NONCE :: nat where "ENVELOPE_NONCE = PREFIX_LEN"

definition ENCRYPTED_DEK :: nat where "ENCRYPTED_DEK = ENVELOPE_NONCE + NPUBBYTES"

definition ENVELOPE_TAG :: nat where "ENVELOPE_TAG = ENCRYPTED_DEK + KEYBYTES"

definition BODY_NONCE :: nat where "BODY_NONCE = ENVELOPE_TAG + ABYTES"

definition BODY :: nat where "BODY = BODY_NONCE + NPUBBYTES"

record fanout_frame =
  ff_to_id :: u16
  ff_epoch :: epoch
  ff_frame :: bytes

datatype dek_seal_error =
    Oversize nat
  | DekNoKey
  | EmptyRecipients
  | DuplicateRecipient u16
  | DekSodium sodium_error

fun show_dek_seal_error :: "dek_seal_error \<Rightarrow> ustr" where
  "show_dek_seal_error (Oversize n) = str ''payload too large: '' @ show_nat n @ str '' bytes''"
| "show_dek_seal_error DekNoKey = str ''no PSK installed for the destination peer''"
| "show_dek_seal_error EmptyRecipients = str ''fanout needs at least one recipient''"
| "show_dek_seal_error (DuplicateRecipient p) =
     str ''duplicate fanout recipient '' @ show_nat (unat p)"
| "show_dek_seal_error (DekSodium e) = str ''libsodium failure: '' @ show_sodium_error e"

datatype open_error =
    OpenPrefix codec_error
  | OpenTooShort nat
  | OpenLengthMismatch
  | OpenNoKey
  | OpenAuthFailed
  | WrongDestination
  | StandardRejected
  | OpenSodium sodium_error

fun show_open_error :: "open_error \<Rightarrow> ustr" where
  "show_open_error (OpenPrefix e) = show_codec_error e"
| "show_open_error (OpenTooShort n) =
     str ''reusable-DEK frame too short: '' @ show_nat n @ str '' bytes''"
| "show_open_error OpenLengthMismatch = str ''declared length disagrees with frame size''"
| "show_open_error OpenNoKey = str ''no PSK installed for source and epoch''"
| "show_open_error OpenAuthFailed = str ''authentication failed''"
| "show_open_error WrongDestination = str ''frame addressed to another node''"
| "show_open_error StandardRejected = str ''standard frame rejected''"
| "show_open_error (OpenSodium e) = str ''libsodium failure: '' @ show_sodium_error e"

text \<open>Dropping a \<open>KeyGuard\<close>; what it leaves behind is recorded in the process state.\<close>

definition key_guard_drop :: "sodium_lib \<Rightarrow> bytes \<Rightarrow> world \<Rightarrow> world" where
  "key_guard_drop L dek w = w\<lparr>wiped := memzero L dek # wiped w\<rparr>"

definition psk :: "world \<Rightarrow> galloc \<Rightarrow> sodium_error + bytes" where
  "psk w stored = (case to_array KEYBYTES (expose w stored) of None \<Rightarrow> Err Internal | Some k \<Rightarrow> Ok k)"

definition body_aad :: "u16 \<Rightarrow> u32 \<Rightarrow> bytes" where
  "body_aad src ch = u16_to_be_bytes src @ u32_to_be_bytes ch @ [0x05]"

definition envelope_aad :: "bytes \<Rightarrow> bytes \<Rightarrow> bytes \<Rightarrow> bytes" where
  "envelope_aad pre body_nonce body_tag = pre @ body_nonce @ body_tag"

section \<open>Sealing\<close>

definition dek_seal ::
  "sodium_lib \<Rightarrow> keystore \<Rightarrow> u16 \<Rightarrow> u32 \<Rightarrow> epoch \<Rightarrow> bytes \<Rightarrow> world \<Rightarrow>
    ((dek_seal_error + bytes) \<times> world) option" where
  "dek_seal L store to ch e payload w =
     (if length payload > MAX_PAYLOAD then Some (Err (Oversize (length payload)), w)
      else do {
        ((r, frame), w1) \<leftarrow> seal L store to ch e payload (replicate (length payload + OVERHEAD) 0) w;
        (case r of
           Ok _ \<Rightarrow> Some (Ok frame, w1)
         | Err (PayloadTooLarge n) \<Rightarrow> Some (Err (Oversize n), w1)
         | Err NoKey \<Rightarrow> Some (Err DekNoKey, w1)
         | Err (SealSodium x) \<Rightarrow> Some (Err (DekSodium x), w1)
         | Err (OutputTooSmall _ _) \<Rightarrow> Some (Err (DekSodium Internal), w1))
      })"

fun select_loop ::
  "keystore \<Rightarrow> u16 set \<Rightarrow> u16 list \<Rightarrow> dek_seal_error + (u16 \<times> epoch \<times> galloc) list" where
  "select_loop store seen [] = Ok []"
| "select_loop store seen (to # rest) =
     (if to \<in> seen then Err (DuplicateRecipient to)
      else case key_for_send_current store to of
        None \<Rightarrow> Err DekNoKey
      | Some (e, stored) \<Rightarrow>
          (case select_loop store (insert to seen) rest of
             Err x \<Rightarrow> Err x
           | Ok selected \<Rightarrow> Ok ((to, e, stored) # selected)))"

definition select_fanout ::
  "keystore \<Rightarrow> u16 list \<Rightarrow> bytes \<Rightarrow> dek_seal_error + (u16 \<times> epoch \<times> galloc) list" where
  "select_fanout store recipients payload =
     (if recipients = [] then Err EmptyRecipients
      else if length payload > DEK_MAX_PAYLOAD then Err (Oversize (length payload))
      else select_loop store {} recipients)"

text \<open>\<open>Vec::resize\<close> with zeroes.\<close>

definition resize :: "nat \<Rightarrow> bytes \<Rightarrow> bytes" where
  "resize n bs = take n bs @ replicate (n - length bs) 0"

text \<open>One turn of the loop over recipients; \<open>None\<close> is a panic of an index expression.\<close>

definition fanout_one ::
  "sodium_lib \<Rightarrow> world \<Rightarrow> u16 \<Rightarrow> u32 \<Rightarrow> bytes \<Rightarrow> bytes \<Rightarrow> bytes \<Rightarrow> u16 \<times> epoch \<times> galloc \<Rightarrow> bytes \<Rightarrow>
    (dek_seal_error + fanout_frame) option" where
  "fanout_one L w local_id ch dek body body_tag sel envelope_nonce =
     (case sel of (to, e, stored) \<Rightarrow>
        let pre = serialize_prefix \<lparr>from_id = local_id, to_id = to, channel = ch\<rparr> (flags_new Dek e) in
        do {
          bn \<leftarrow> subslice_to NPUBBYTES body;
          (case (to_array NPUBBYTES bn, to_array ABYTES body_tag) of
             (Some body_nonce, Some tag) \<Rightarrow>
               let aad = envelope_aad pre body_nonce tag;
                   frame = resize BODY_START (pre @ envelope_nonce) in
               (case psk w stored of
                  Err x \<Rightarrow> Some (Err (DekSodium x))
                | Ok key \<Rightarrow>
                    do {
                      slot \<leftarrow> subslice ENCRYPTED_DEK BODY_START frame;
                      (case aead_encrypt L key envelope_nonce aad dek slot of
                         (Err x, _) \<Rightarrow> Some (Err (DekSodium x))
                       | (Ok _, slot') \<Rightarrow>
                           Some (Ok \<lparr>ff_to_id = to, ff_epoch = e,
                             ff_frame = take ENCRYPTED_DEK frame @ slot' @ body\<rparr>))
                    })
           | _ \<Rightarrow> Some (Err (DekSodium Internal)))
        })"

fun fanout_loop ::
  "sodium_lib \<Rightarrow> world \<Rightarrow> u16 \<Rightarrow> u32 \<Rightarrow> bytes \<Rightarrow> bytes \<Rightarrow> bytes \<Rightarrow> ((u16 \<times> epoch \<times> galloc) \<times> bytes) list \<Rightarrow>
    (dek_seal_error + fanout_frame list) option" where
  "fanout_loop L w local_id ch dek body body_tag [] = Some (Ok [])"
| "fanout_loop L w local_id ch dek body body_tag ((sel, nonce) # rest) =
     do {
       r \<leftarrow> fanout_one L w local_id ch dek body body_tag sel nonce;
       (case r of
          Err x \<Rightarrow> Some (Err x)
        | Ok f \<Rightarrow>
            do {
              rs \<leftarrow> fanout_loop L w local_id ch dek body body_tag rest;
              (case rs of Err x \<Rightarrow> Some (Err x) | Ok fs \<Rightarrow> Some (Ok (f # fs)))
            })
     }"

text \<open>
  The body is built first. The data key belongs to the function and its guard is dropped on
  return, whatever the result; the debug assertion on the lengths counts as a panic.
\<close>

definition seal_fanout_core ::
  "sodium_lib \<Rightarrow> u16 \<Rightarrow> (u16 \<times> epoch \<times> galloc) list \<Rightarrow> u32 \<Rightarrow> bytes \<Rightarrow> bytes \<Rightarrow> bytes \<Rightarrow> bytes list \<Rightarrow>
    world \<Rightarrow> ((dek_seal_error + fanout_frame list) \<times> world) option" where
  "seal_fanout_core L local_id selected ch payload dek body_nonce envelope_nonces w =
     (if length envelope_nonces \<noteq> length selected then None
      else do {
        (head, tail) \<leftarrow> split_at NPUBBYTES (replicate (NPUBBYTES + length payload + ABYTES) 0);
        head' \<leftarrow> copy_from_slice head body_nonce;
        (case aead_encrypt L dek body_nonce (body_aad local_id ch) payload tail of
           (Err x, _) \<Rightarrow> Some (Err (DekSodium x), key_guard_drop L dek w)
         | (Ok _, tail') \<Rightarrow>
             do {
               let body = head' @ tail';
               tag_start \<leftarrow> usize_sub (length body) ABYTES;
               body_tag \<leftarrow> subslice_from tag_start body;
               r \<leftarrow> fanout_loop L w local_id ch dek body body_tag (zip selected envelope_nonces);
               Some (r, key_guard_drop L dek w)
             })
      })"

fun draw_nonces :: "sodium_lib \<Rightarrow> 'a list \<Rightarrow> world \<Rightarrow> bytes list \<times> world" where
  "draw_nonces L [] w = ([], w)"
| "draw_nonces L (_ # xs) w =
     (case random_nonce L w of (n, w1) \<Rightarrow> case draw_nonces L xs w1 of (ns, w2) \<Rightarrow> (n # ns, w2))"

definition seal_fanout ::
  "sodium_lib \<Rightarrow> keystore \<Rightarrow> u16 list \<Rightarrow> u32 \<Rightarrow> bytes \<Rightarrow> world \<Rightarrow>
    ((dek_seal_error + fanout_frame list) \<times> world) option" where
  "seal_fanout L store recipients ch payload w =
     (case select_fanout store recipients payload of
        Err x \<Rightarrow> Some (Err x, w)
      | Ok selected \<Rightarrow>
          (case draw_nonces L recipients w of
             (envelope_nonces, w1) \<Rightarrow>
               (case random_key L w1 of
                  (dek, w2) \<Rightarrow>
                    (case random_nonce L w2 of
                       (body_nonce, w3) \<Rightarrow>
                         seal_fanout_core L (ks_local_id store) selected ch payload dek body_nonce
                           envelope_nonces w3))))"

definition seal_fanout_deterministic ::
  "sodium_lib \<Rightarrow> keystore \<Rightarrow> u16 list \<Rightarrow> u32 \<Rightarrow> bytes \<Rightarrow> bytes \<Rightarrow> bytes \<Rightarrow> bytes list \<Rightarrow> world \<Rightarrow>
    ((dek_seal_error + fanout_frame list) \<times> world) option" where
  "seal_fanout_deterministic L store recipients ch payload dek body_nonce envelope_nonces w =
     (case select_fanout store recipients payload of
        Err x \<Rightarrow> Some (Err x, w)
      | Ok selected \<Rightarrow>
          if length envelope_nonces \<noteq> length selected then None
          else seal_fanout_core L (ks_local_id store) selected ch payload dek body_nonce
            envelope_nonces w)"

section \<open>Opening\<close>

definition open_dek ::
  "sodium_lib \<Rightarrow> keystore \<Rightarrow> bytes \<Rightarrow> header \<Rightarrow> flags \<Rightarrow> world \<Rightarrow> stats_state \<Rightarrow>
    ((open_error + header \<times> flags \<times> bytes) \<times> world \<times> stats_state) option" where
  "open_dek L store frame hdr fl w st =
     (if length frame < DEK_OVERHEAD then
        Some (Err (OpenTooShort (length frame)), w, record_reject RTooShort st)
      else do {
        payload_len \<leftarrow> usize_sub (length frame) DEK_OVERHEAD;
        (if to_id hdr \<noteq> ks_local_id store then
           Some (Err WrongDestination, w, record_reject RPlaintext st)
         else (case key_for_receive store (from_id hdr) (flags_epoch fl) of
           None \<Rightarrow>
             Some (Err OpenNoKey, w,
               record_reject (if peer_known store (from_id hdr) then RNoEpoch else RNoPeer) st)
         | Some stored \<Rightarrow>
             do {
               en \<leftarrow> subslice ENVELOPE_NONCE ENCRYPTED_DEK frame;
               bn \<leftarrow> subslice BODY_NONCE BODY frame;
               tag_start \<leftarrow> usize_sub (length frame) ABYTES;
               (case (to_array NPUBBYTES en, to_array NPUBBYTES bn,
                      subslice_from tag_start frame \<bind> to_array ABYTES,
                      subslice_to PREFIX_LEN frame \<bind> to_array PREFIX_LEN,
                      subslice ENCRYPTED_DEK BODY_NONCE frame) of
                  (Some envelope_nonce, Some body_nonce, Some body_tag, Some pre, Some envelope) \<Rightarrow>
                    let aad = envelope_aad pre body_nonce body_tag;
                        dek = replicate KEYBYTES 0 in
                    (case psk w stored of
                       Err x \<Rightarrow> Some (Err (OpenSodium x), key_guard_drop L dek w, st)
                     | Ok key \<Rightarrow>
                         do {
                           (r, dek') \<leftarrow> aead_decrypt L key envelope_nonce aad envelope dek;
                           let w' = key_guard_drop L dek' w;
                           (case r of
                              Err AuthFailed \<Rightarrow> Some (Err OpenAuthFailed, w', record_reject RAuthFailed st)
                            | Err x \<Rightarrow> Some (Err (OpenSodium x), w', st)
                            | Ok _ \<Rightarrow>
                                (case subslice_from BODY frame of
                                   None \<Rightarrow> Some (Err (OpenSodium Internal), w', st)
                                 | Some body \<Rightarrow>
                                     do {
                                       (r2, out) \<leftarrow> aead_decrypt L dek' body_nonce
                                         (body_aad (from_id hdr) (channel hdr)) body
                                         (replicate payload_len 0);
                                       (case r2 of
                                          Ok n \<Rightarrow> Some (Ok (hdr, fl, take n out), w', st)
                                        | Err AuthFailed \<Rightarrow>
                                            Some (Err OpenAuthFailed, w', record_reject RAuthFailed st)
                                        | Err x \<Rightarrow> Some (Err (OpenSodium x), w', st))
                                     }))
                         })
                | _ \<Rightarrow> Some (Err (OpenSodium Internal), w, st))
             }))
      })"

definition dek_open ::
  "sodium_lib \<Rightarrow> keystore \<Rightarrow> bytes \<Rightarrow> world \<Rightarrow> stats_state \<Rightarrow>
    ((open_error + header \<times> flags \<times> bytes) \<times> world \<times> stats_state) option" where
  "dek_open L store frame w st =
     (case parse_prefix frame of
        Err e \<Rightarrow> Some (Err (OpenPrefix e), w, record_reject (from_codec e) st)
      | Ok (hdr, fl) \<Rightarrow>
          if flags_mode fl = Standard then
            do {
              (r, out, st') \<leftarrow> standard_open L w store frame (replicate (length frame - OVERHEAD) 0) st;
              (case r of
                 Ok (h, f, n) \<Rightarrow> Some (Ok (h, f, take n out), w, st')
               | Err _ \<Rightarrow> Some (Err StandardRejected, w, st'))
            }
          else open_dek L store frame hdr fl w st)"

section \<open>The frame\<close>

lemma flags_new_sel: "flags_mode (flags_new m e) = m" "flags_epoch (flags_new m e) = e"
  by (simp_all add: flags_new_def)

lemma dek_layout [simp]:
  "ENVELOPE_NONCE = 9" "ENCRYPTED_DEK = 21" "ENVELOPE_TAG = 53" "BODY_NONCE = 69" "BODY = 81"
  "BODY_START = 69" "DEK_OVERHEAD = 97" "DEK_MAX_PAYLOAD = 65410"
  by (simp_all add: ENVELOPE_NONCE_def ENCRYPTED_DEK_def ENVELOPE_TAG_def BODY_NONCE_def BODY_def
      BODY_START_def DEK_OVERHEAD_def DEK_MAX_PAYLOAD_def UDP_DATAGRAM_MAX_def ENVELOPE_LEN_def
      BODY_TAG_LEN_def PREFIX_LEN_def sodium_sizes)

definition dek_prefix :: "u16 \<Rightarrow> u16 \<Rightarrow> u32 \<Rightarrow> epoch \<Rightarrow> bytes" where
  "dek_prefix src to ch e =
     serialize_prefix \<lparr>from_id = src, to_id = to, channel = ch\<rparr> (flags_new Dek e)"

definition dek_body :: "sodium_lib \<Rightarrow> bytes \<Rightarrow> u16 \<Rightarrow> u32 \<Rightarrow> bytes \<Rightarrow> bytes \<Rightarrow> bytes" where
  "dek_body L dek src ch body_nonce payload =
     body_nonce @ gcm L dek body_nonce (body_aad src ch) payload"

definition dek_frame ::
  "sodium_lib \<Rightarrow> bytes \<Rightarrow> u16 \<Rightarrow> u16 \<Rightarrow> u32 \<Rightarrow> epoch \<Rightarrow> bytes \<Rightarrow> bytes \<Rightarrow> bytes \<Rightarrow> bytes \<Rightarrow> bytes" where
  "dek_frame L key src to ch e en dek bn payload =
     (let pre = dek_prefix src to ch e;
          body = dek_body L dek src ch bn payload;
          tag = drop (length body - ABYTES) body in
      pre @ en @ gcm L key en (envelope_aad pre bn tag) dek @ body)"

lemma length_dek_prefix [simp, wire_simps]: "length (dek_prefix src to ch e) = 9"
  by (simp add: dek_prefix_def)

lemma length_dek_body [wire_simps]:
  assumes "aead_contract L" "length dek = KEYBYTES" "length bn = NPUBBYTES"
  shows "length (dek_body L dek src ch bn payload) = length payload + 28"
  using assms(3) by (simp add: dek_body_def length_gcm [OF assms] sodium_sizes)

lemma length_dek_frame [wire_simps]:
  assumes "aead_contract L" "length key = KEYBYTES" "length en = NPUBBYTES"
    "length dek = KEYBYTES" "length bn = NPUBBYTES"
  shows "length (dek_frame L key src to ch e en dek bn payload) = length payload + DEK_OVERHEAD"
  using assms(3,4)
  by (simp add: dek_frame_def Let_def length_gcm [OF assms(1-3)] length_dek_body [OF assms(1,4,5)]
      sodium_sizes)

lemma fanout_one_ok:
  assumes "aead_contract L" "psk w g = Ok key" "length key = KEYBYTES" "length en = NPUBBYTES"
    "length dek = KEYBYTES" "length bn = NPUBBYTES"
    and body: "body = dek_body L dek src ch bn payload"
  shows "fanout_one L w src ch dek body (drop (length body - ABYTES) body) (to, e, g) en =
    Some (Ok \<lparr>ff_to_id = to, ff_epoch = e, ff_frame = dek_frame L key src to ch e en dek bn payload\<rparr>)"
proof -
  have lb: "length body = length payload + 28"
    unfolding body by (rule length_dek_body [OF assms(1,5,6)])
  have tb: "take 12 body = bn" using assms(6) by (simp add: body dek_body_def NPUBBYTES_def)
  define tag where "tag = drop (length body - ABYTES) body"
  have lt: "length tag = 16" using lb by (simp add: tag_def ABYTES_def)
  define pre where "pre = dek_prefix src to ch e"
  have en: "length en = 12" "length bn = 12" using assms(4,6) by (simp_all add: NPUBBYTES_def)
  have frame: "resize 69 (pre @ en) = pre @ en @ replicate 48 0"
    using en by (simp add: resize_def pre_def)
  have enc: "aead_encrypt L key en (envelope_aad pre bn tag) dek (replicate 48 0) =
      (Ok (length dek + ABYTES), gcm L key en (envelope_aad pre bn tag) dek)"
    using aead_encrypt_ok [OF assms(1,3,4), of dek "replicate 48 0" "envelope_aad pre bn tag"] assms(5)
      length_gcm [OF assms(1,3,4), of "envelope_aad pre bn tag" dek]
    by (simp add: sodium_sizes USIZE_MAX_def)
  have pre: "serialize_prefix \<lparr>from_id = src, to_id = to, channel = ch\<rparr> (flags_new Dek e) = pre"
    by (simp add: pre_def dek_prefix_def)
  have lp: "length pre = 9" by (simp add: pre_def)
  have df: "dek_frame L key src to ch e en dek bn payload =
      pre @ en @ gcm L key en (envelope_aad pre bn tag) dek @ body"
    by (simp add: dek_frame_def Let_def pre_def tag_def body)
  have bn: "subslice_to NPUBBYTES body = Some bn" "to_array NPUBBYTES bn = Some bn"
    "to_array ABYTES tag = Some tag"
    using lb lt tb en by (simp_all add: NPUBBYTES_def ABYTES_def)
  have slot: "subslice 21 69 (resize 69 (pre @ en)) = Some (replicate 48 0)"
    "take 21 (resize 69 (pre @ en)) = pre @ en"
    using en lp by (simp_all add: frame)
  show ?thesis
    unfolding tag_def [symmetric] fanout_one_def prod.case Let_def pre df
    by (simp add: bn slot assms(2) enc)
qed

text \<open>The selection before the fanout: every recipient once, under its newest epoch.\<close>

lemma select_loop_Ok:
  "select_loop store seen rs = Ok sel \<longleftrightarrow>
    distinct rs \<and> set rs \<inter> seen = {} \<and>
    list_all2 (\<lambda>r (t, e, g). t = r \<and> key_for_send_current store r = Some (e, g)) rs sel"
proof (induction rs arbitrary: seen sel)
  case (Cons r rs)
  show ?case
  proof (cases "r \<in> seen \<or> key_for_send_current store r = None")
    case False
    then obtain e g where cur: "key_for_send_current store r = Some (e, g)" by force
    have "select_loop store seen (r # rs) = Ok sel \<longleftrightarrow>
        (\<exists>sel'. select_loop store (insert r seen) rs = Ok sel' \<and> sel = (r, e, g) # sel')"
      using False cur by (auto split: sum.splits)
    then show ?thesis using False cur Cons.IH [of "insert r seen"] by (auto simp: list_all2_Cons1)
  qed (auto simp: list_all2_Cons1)
qed auto

lemma fanout_loop_ok:
  assumes "aead_contract L" "length dek = KEYBYTES" "length bn = NPUBBYTES"
    and body: "body = dek_body L dek src ch bn payload"
    and "length ens = length sel" "\<forall>en \<in> set ens. length en = NPUBBYTES"
    and "\<forall>(t, e, g) \<in> set sel. psk w g = Ok (expose w g) \<and> length (expose w g) = KEYBYTES"
  shows "fanout_loop L w src ch dek body (drop (length body - ABYTES) body) (zip sel ens) =
    Some (Ok (map2 (\<lambda>(t, e, g) en. \<lparr>ff_to_id = t, ff_epoch = e,
      ff_frame = dek_frame L (expose w g) src t ch e en dek bn payload\<rparr>) sel ens))"
  using assms(5-7)
proof (induction sel ens rule: list_induct2')
  case (4 x sel en ens)
  obtain t e g where x: "x = (t, e, g)" by (metis prod_cases3)
  show ?case using 4 fanout_one_ok [OF assms(1) _ _ _ assms(2,3) body, of w g "expose w g" en t e]
    by (simp add: x)
qed simp_all

lemma seal_fanout_core_ok:
  assumes "aead_contract L" "memory_contract L" "length dek = KEYBYTES" "length bn = NPUBBYTES"
    and "length ens = length sel" "\<forall>en \<in> set ens. length en = NPUBBYTES"
    and "\<forall>(t, e, g) \<in> set sel. psk w g = Ok (expose w g) \<and> length (expose w g) = KEYBYTES"
    and "length payload \<le> DEK_MAX_PAYLOAD"
  shows "seal_fanout_core L src sel ch payload dek bn ens w =
    Some (Ok (map2 (\<lambda>(t, e, g) en. \<lparr>ff_to_id = t, ff_epoch = e,
      ff_frame = dek_frame L (expose w g) src t ch e en dek bn payload\<rparr>) sel ens),
      w\<lparr>wiped := zeros KEYBYTES # wiped w\<rparr>)"
proof -
  define body where "body = dek_body L dek src ch bn payload"
  have lb: "length body = length payload + 28"
    unfolding body_def by (rule length_dek_body [OF assms(1,3,4)])
  have enc: "aead_encrypt L dek bn (body_aad src ch) payload (replicate (length payload + ABYTES) 0) =
      (Ok (length payload + ABYTES), gcm L dek bn (body_aad src ch) payload)"
    using aead_encrypt_ok [OF assms(1,3,4), of payload "replicate (length payload + ABYTES) 0" "body_aad src ch"]
      assms(8) length_gcm [OF assms(1,3,4), of "body_aad src ch" payload]
    by (simp add: sodium_sizes USIZE_MAX_def)
  have eq: "bn @ gcm L dek bn (body_aad src ch) payload = body" by (simp add: body_def dek_body_def)
  have len: "length bn + length (gcm L dek bn (body_aad src ch) payload) = length body"
    using arg_cong [OF eq, of length] by simp
  have ab: "ABYTES \<le> length body" using lb by (simp add: ABYTES_def)
  note loop = fanout_loop_ok [OF assms(1,3,4) body_def assms(5-7)]
  have bn: "copy_from_slice (replicate NPUBBYTES 0) bn = Some bn" using assms(4) by simp
  have split: "split_at NPUBBYTES (replicate (NPUBBYTES + length payload + ABYTES) (0 :: byte)) =
      Some (replicate NPUBBYTES 0, replicate (length payload + ABYTES) 0)"
    by (simp add: min_def)
  show ?thesis
    unfolding seal_fanout_core_def split
    using assms(5) ab
    by (simp add: bn enc eq len loop key_guard_drop_def memzero_zero [OF assms(2)] assms(3) zeros_def)
qed

lemma psk_lookup:
  assumes "ks_inv w store" "key_for_receive store p e = Some g"
  shows "psk w g = Ok (expose w g)" "length (expose w g) = KEYBYTES"
  using lookup_expose [OF assms] by (simp_all add: psk_def to_array_Some_iff)

lemma current_receive:
  assumes "ks_inv w store" "key_for_send_current store p = Some (e, g)"
  shows "\<exists>g'. key_for_receive store p e = Some g' \<and> expose w g' = expose w g"
    and "psk w g = Ok (expose w g)" "length (expose w g) = KEYBYTES"
proof -
  have c: "current w store p = Some (e, expose w g)" by (simp add: current_def assms(2))
  from ks.newest_Some [of "(w, store)" p e "expose w g"] assms(1) c
  have l: "lookup w store p e = Some (expose w g)" by simp
  then show "\<exists>g'. key_for_receive store p e = Some g' \<and> expose w g' = expose w g"
    by (auto simp: lookup_def)
  show "length (expose w g) = KEYBYTES"
    using ks.look_ok [of "(w, store)" p e "expose w g"] assms(1) l by simp
  then show "psk w g = Ok (expose w g)" by (simp add: psk_def)
qed

lemma draws_frame:
  assumes "random_contract L" "draw_nonces L xs w = (ns, w')"
  shows "length ns = length xs \<and> (\<forall>n \<in> set ns. length n = NPUBBYTES) \<and> w' = w\<lparr>draws := draws w + length xs\<rparr>"
  using assms(2)
proof (induction xs arbitrary: w ns w')
  case (Cons x xs)
  obtain n w1 where n: "random_nonce L w = (n, w1)" by fastforce
  obtain ns' w2 where ns': "draw_nonces L xs w1 = (ns', w2)" by fastforce
  have "length n = NPUBBYTES" using length_random(1) [OF assms(1), of w] n by simp
  moreover have "w1 = w\<lparr>draws := Suc (draws w)\<rparr>"
    using n by (auto simp: random_nonce_def randombytes_fill_def sodium_sizes)
  ultimately show ?case using Cons.IH [OF ns'] Cons.prems n ns' by auto
qed simp

lemma expose_draws [simp]: "expose (w\<lparr>draws := n\<rparr>) g = expose w g" "psk (w\<lparr>draws := n\<rparr>) g = psk w g"
  by (simp_all add: expose_def psk_def galloc_slice_def mem_def)

definition fanout_accepts :: "world \<Rightarrow> keystore \<Rightarrow> u16 list \<Rightarrow> bytes \<Rightarrow> bool" where
  "fanout_accepts w store recipients payload \<longleftrightarrow>
     recipients \<noteq> [] \<and> length payload \<le> DEK_MAX_PAYLOAD \<and> distinct recipients \<and>
     (\<forall>r \<in> set recipients. current w store r \<noteq> None)"

lemma select_fanout_iff:
  "(\<exists>sel. select_fanout store recipients payload = Ok sel) \<longleftrightarrow> fanout_accepts w store recipients payload"
proof -
  have all2: "(\<exists>sel. list_all2 (\<lambda>r (t, e, g). t = r \<and> key_for_send_current store r = Some (e, g)) rs sel) \<longleftrightarrow>
      (\<forall>r \<in> set rs. key_for_send_current store r \<noteq> None)" for rs
    by (induction rs) (auto simp: list_all2_Cons1)
  show ?thesis
    unfolding fanout_accepts_def select_fanout_def using all2 [of recipients]
    by (auto simp: select_loop_Ok current_def not_less)
qed

text \<open>A fanout on every branch: refused with nothing drawn, or one frame for each recipient.\<close>

lemma seal_fanout_refused:
  assumes "\<not> fanout_accepts w store recipients payload"
  shows "\<exists>x. seal_fanout L store recipients ch payload w = Some (Err x, w)"
proof -
  have "\<nexists>sel. select_fanout store recipients payload = Ok sel"
    using assms select_fanout_iff by blast
  then obtain x where "select_fanout store recipients payload = Err x"
    by (cases "select_fanout store recipients payload") auto
  then show ?thesis by (simp add: seal_fanout_def)
qed

text \<open>The entry of a fanout for one recipient.\<close>

definition fanout_entry ::
  "sodium_lib \<Rightarrow> world \<Rightarrow> keystore \<Rightarrow> u32 \<Rightarrow> bytes \<Rightarrow> bytes \<Rightarrow> bytes \<Rightarrow> u16 \<Rightarrow> bytes \<Rightarrow> fanout_frame" where
  "fanout_entry L w store ch dek bn payload r en =
     (let (e, key) = the (current w store r) in
      \<lparr>ff_to_id = r, ff_epoch = e,
       ff_frame = dek_frame L key (ks_local_id store) r ch e en dek bn payload\<rparr>)"

lemma selected_entries:
  assumes "list_all2 (\<lambda>r (t, e, g). t = r \<and> key_for_send_current store r = Some (e, g)) recipients sel"
  shows "map2 (\<lambda>(t, e, g) en. \<lparr>ff_to_id = t, ff_epoch = e,
      ff_frame = dek_frame L (expose w g) (ks_local_id store) t ch e en dek bn payload\<rparr>) sel ens =
    map2 (fanout_entry L w store ch dek bn payload) recipients ens"
  using assms
proof (induction arbitrary: ens rule: list_all2_induct)
  case (Cons r rs x xs)
  then show ?case by (cases ens) (auto simp: fanout_entry_def current_def)
qed simp

text \<open>With given key material, an accepted fanout is exactly these entries.\<close>

lemma seal_fanout_deterministic_ok:
  assumes "sodium_contract L" "ks_inv w store" "fanout_accepts w store recipients payload"
    and "length dek = KEYBYTES" "length bn = NPUBBYTES" "length ens = length recipients" "\<forall>en \<in> set ens. length en = NPUBBYTES"
  shows "seal_fanout_deterministic L store recipients ch payload dek bn ens w = Some
    (Ok (map2 (fanout_entry L w store ch dek bn payload) recipients ens), w\<lparr>wiped := zeros KEYBYTES # wiped w\<rparr>)"
proof -
  note L = sodium_contractD [OF assms(1)]
  obtain sel where sel: "select_fanout store recipients payload = Ok sel"
    using assms(3) select_fanout_iff by blast
  have all2: "list_all2 (\<lambda>r (t, e, g). t = r \<and> key_for_send_current store r = Some (e, g)) recipients sel"
    using sel by (auto simp: select_fanout_def select_loop_Ok split: if_splits)
  then have len: "length ens = length sel" by (simp add: list_all2_lengthD assms(6))
  have keys: "\<forall>(t, e, g) \<in> set sel. psk w g = Ok (expose w g) \<and> length (expose w g) = KEYBYTES"
    using all2 current_receive(2,3) [OF assms(2)] by (fastforce simp: list_all2_conv_all_nth in_set_conv_nth)
  have pl: "length payload \<le> DEK_MAX_PAYLOAD" using assms(3) by (simp add: fanout_accepts_def)
  show ?thesis
    using seal_fanout_core_ok [OF L(1,2) assms(4,5) len assms(7) keys pl, of "ks_local_id store" ch]
    by (simp add: seal_fanout_deterministic_def sel len selected_entries [OF all2])
qed

lemma seal_fanout_accepted:
  assumes "sodium_contract L" "ks_inv w store" "fanout_accepts w store recipients payload"
  shows "\<exists>dek bn ens. length dek = KEYBYTES \<and> length bn = NPUBBYTES \<and>
    length ens = length recipients \<and> (\<forall>en \<in> set ens. length en = NPUBBYTES) \<and>
    seal_fanout L store recipients ch payload w = Some
      (Ok (map2 (fanout_entry L w store ch dek bn payload) recipients ens),
       w\<lparr>draws := draws w + length recipients + 2, wiped := zeros KEYBYTES # wiped w\<rparr>)"
proof -
  note L = sodium_contractD [OF assms(1)]
  obtain sel where sel: "select_fanout store recipients payload = Ok sel"
    using assms(3) select_fanout_iff by blast
  obtain ens w1 where ens: "draw_nonces L recipients w = (ens, w1)" by fastforce
  obtain dek w2 where dek: "random_key L w1 = (dek, w2)" by fastforce
  obtain bn w3 where bn: "random_nonce L w2 = (bn, w3)" by fastforce
  note e = draws_frame [OF L(3) ens]
  have ld: "length dek = KEYBYTES" using length_random(2) [OF L(3), of w1] dek by simp
  have lb: "length bn = NPUBBYTES" using length_random(1) [OF L(3), of w2] bn by simp
  have w3: "w3 = w\<lparr>draws := draws w + length recipients + 2\<rparr>"
    using e dek bn by (auto simp: random_key_def random_nonce_def randombytes_fill_def sodium_sizes)
  have all2: "list_all2 (\<lambda>r (t, e, g). t = r \<and> key_for_send_current store r = Some (e, g)) recipients sel"
    using sel by (auto simp: select_fanout_def select_loop_Ok split: if_splits)
  then have len: "length sel = length recipients" by (simp add: list_all2_lengthD)
  have keys: "\<forall>(t, e, g) \<in> set sel. psk w3 g = Ok (expose w3 g) \<and> length (expose w3 g) = KEYBYTES"
    using all2 current_receive(2,3) [OF assms(2)]
    by (fastforce simp: list_all2_conv_all_nth in_set_conv_nth w3)
  have pl: "length payload \<le> DEK_MAX_PAYLOAD" using assms(3) by (simp add: fanout_accepts_def)
  have "length ens = length sel" using e len by simp
  note core = seal_fanout_core_ok [OF L(1,2) ld lb this conjunct1 [OF conjunct2 [OF e]] keys pl,
      of "ks_local_id store" ch]
  note same = selected_entries [OF all2, of L w3 ch dek bn payload ens]
  have "fanout_entry L w3 store ch dek bn payload = fanout_entry L w store ch dek bn payload"
    by (simp add: fanout_entry_def current_def w3 fun_eq_iff)
  note same = same [unfolded this]
  have "seal_fanout L store recipients ch payload w =
      seal_fanout_core L (ks_local_id store) sel ch payload dek bn ens w3"
    by (simp add: seal_fanout_def sel ens dek bn)
  with e ld lb core [unfolded same] show ?thesis
    by - (rule exI [of _ dek], rule exI [of _ bn], rule exI [of _ ens], simp add: w3)
qed

lemma fanout_entry_to: "ff_to_id (fanout_entry L w store ch dek bn payload r en) = r"
  by (simp add: fanout_entry_def case_prod_unfold Let_def)

lemma fanout_entry_ok:
  assumes "sodium_contract L" "ks_inv w store" "current w store r \<noteq> None" "length en = NPUBBYTES"
    and "length dek = KEYBYTES" "length bn = NPUBBYTES"
    and f: "f = fanout_entry L w store ch dek bn payload r en"
  shows "map_option fst (current w store (ff_to_id f)) = Some (ff_epoch f) \<and>
    length (ff_frame f) = length payload + 97 \<and>
    drop BODY_START (ff_frame f) = dek_body L dek (ks_local_id store) ch bn payload"
proof -
  note L = sodium_contractD [OF assms(1)]
  obtain e k where cur: "current w store r = Some (e, k)" using assms(3) by force
  have k: "length k = KEYBYTES" using ks.newest_key [of "(w, store)" r e k] assms(2) cur by simp
  have f': "f = \<lparr>ff_to_id = r, ff_epoch = e, ff_frame = dek_frame L k (ks_local_id store) r ch e en dek bn payload\<rparr>"
    by (simp add: f fanout_entry_def cur)
  have "length (gcm L k en aad dek) = 48" for aad
    using assms(5) by (simp add: length_gcm [OF L(1) k assms(4)] sodium_sizes)
  then have "drop 69 (ff_frame f) = dek_body L dek (ks_local_id store) ch bn payload"
    using assms(4) by (simp add: f' dek_frame_def Let_def NPUBBYTES_def)
  then show ?thesis using length_dek_frame [OF L(1) k assms(4-6)] by (simp add: f' cur)
qed

text \<open>Sealing for one recipient, on every branch.\<close>

lemma dek_seal_spec:
  assumes "sodium_contract L" "ks_inv w store"
  shows "dek_seal L store to ch e payload w = Some
    (if length payload > MAX_PAYLOAD then (Err (Oversize (length payload)), w)
     else case lookup w store to e of
       None \<Rightarrow> (Err DekNoKey, w\<lparr>draws := Suc (draws w)\<rparr>)
     | Some key \<Rightarrow>
         (Ok (std_frame L key (ks_local_id store) to ch e (x_random L (draws w) NPUBBYTES) payload),
          w\<lparr>draws := Suc (draws w)\<rparr>))"
proof (cases "length payload > MAX_PAYLOAD")
  case False
  note L = sodium_contractD [OF assms(1)]
  define n where "n = x_random L (draws w) NPUBBYTES"
  define w1 where "w1 = w\<lparr>draws := Suc (draws w)\<rparr>"
  have n: "length n = NPUBBYTES" using L(3) by (simp add: n_def random_contract_def)
  have "heap w1 = heap w" by (simp add: w1_def)
  note w1 = assms(2) [folded ks_inv_heap [OF this, of store]] lookup_heap [OF this, of store to e]
  have fl: "length (std_frame L key (ks_local_id store) to ch e n payload) = length payload + OVERHEAD"
    if "lookup w store to e = Some key" for key
    using length_std_frame [OF L(1) _ n] ks.look_ok [of "(w, store)" to e key] assms(2) that by simp
  show ?thesis
    using False unfolding dek_seal_def seal_def random_nonce_eq prod.case n_def [symmetric] w1_def [symmetric]
      seal_core_spec [OF L(1) w1(1) n]
    by (auto simp: w1 fl split: option.split)
qed (simp add: dek_seal_def)

section \<open>Opening\<close>

definition wipe_dek :: "world \<Rightarrow> world" where
  "wipe_dek w = w\<lparr>wiped := zeros KEYBYTES # wiped w\<rparr>"

definition open_dek_result ::
  "sodium_lib \<Rightarrow> bytes \<Rightarrow> header \<Rightarrow> flags \<Rightarrow> bytes \<Rightarrow> world \<Rightarrow> stats_state \<Rightarrow>
    (open_error + header \<times> flags \<times> bytes) \<times> world \<times> stats_state" where
  "open_dek_result L key hdr fl frame w st =
     (let bn = take 12 (drop 69 frame);
          aad = envelope_aad (take 9 frame) bn (drop (length frame - 16) frame);
          failed = (Err OpenAuthFailed, wipe_dek w, record_reject RAuthFailed st) in
      case gcm_open L key (take 12 (drop 9 frame)) aad (take 48 (drop 21 frame)) of
        None \<Rightarrow> failed
      | Some dek \<Rightarrow>
          (case gcm_open L dek bn (body_aad (from_id hdr) (channel hdr)) (drop 81 frame) of
             None \<Rightarrow> failed
           | Some m \<Rightarrow> (Ok (hdr, fl, m), wipe_dek w, st)))"

lemma dek_slices:
  assumes "97 \<le> length frame"
  shows "subslice ENVELOPE_NONCE ENCRYPTED_DEK frame = Some (take 12 (drop 9 frame))"
    "subslice BODY_NONCE BODY frame = Some (take 12 (drop 69 frame))"
    "subslice ENCRYPTED_DEK BODY_NONCE frame = Some (take 48 (drop 21 frame))"
    "usize_sub (length frame) ABYTES = Some (length frame - 16)"
    "usize_sub (length frame) DEK_OVERHEAD = Some (length frame - 97)"
    "subslice_from (length frame - 16) frame \<bind> to_array ABYTES = Some (drop (length frame - 16) frame)"
    "subslice_to PREFIX_LEN frame \<bind> to_array PREFIX_LEN = Some (take 9 frame)"
    "subslice_from BODY frame = Some (drop 81 frame)"
    "to_array NPUBBYTES (take 12 (drop 9 frame)) = Some (take 12 (drop 9 frame))"
    "to_array NPUBBYTES (take 12 (drop 69 frame)) = Some (take 12 (drop 69 frame))"
  using assms by (simp_all add: ABYTES_def PREFIX_LEN_def NPUBBYTES_def)

text \<open>Decryption into a buffer of exactly the size of the plaintext.\<close>

lemma decrypt_exact:
  assumes "aead_contract L" "memory_contract L" "length key = KEYBYTES" "length nonce = NPUBBYTES"
    and "length ct = length out + ABYTES"
  shows "aead_decrypt L key nonce aad ct out =
    (case gcm_open L key nonce aad ct of
       Some m \<Rightarrow> Some (Ok (length m), overwrite out m)
     | None \<Rightarrow> Some (Err AuthFailed, replicate (length out) 0))"
  unfolding aead_decrypt_spec [OF assms(1-4)] using assms(5) by (simp split: option.split)

lemma wipe_guard: "memory_contract L \<Longrightarrow> length d = KEYBYTES \<Longrightarrow> key_guard_drop L d w = wipe_dek w"
  by (simp add: key_guard_drop_def wipe_dek_def memzero_zero zeros_def)

lemma open_dek_body:
  assumes "aead_contract L" "memory_contract L" "length key = KEYBYTES" and frame: "97 \<le> length frame"
    and psk: "psk w g = Ok key" and loc: "to_id hdr = ks_local_id store"
    and get: "key_for_receive store (from_id hdr) (flags_epoch fl) = Some g"
  shows "open_dek L store frame hdr fl w st = Some (open_dek_result L key hdr fl frame w st)"
proof -
  define en bn env where "en = take 12 (drop 9 frame)" and "bn = take 12 (drop 69 frame)" and "env = take 48 (drop 21 frame)"
  define aad where "aad = envelope_aad (take 9 frame) bn (drop (length frame - 16) frame)"
  have len: "length en = NPUBBYTES" "length bn = NPUBBYTES" "length env = 48"
    using frame by (simp_all add: en_def bn_def env_def NPUBBYTES_def)
  have dec1: "aead_decrypt L key en aad env (replicate KEYBYTES 0) =
      (case gcm_open L key en aad env of
         Some m \<Rightarrow> Some (Ok (length m), overwrite (replicate KEYBYTES 0) m)
       | None \<Rightarrow> Some (Err AuthFailed, replicate KEYBYTES 0))"
    using decrypt_exact [OF assms(1-3) len(1), of env "replicate KEYBYTES 0" aad] len(3)
    by (simp add: KEYBYTES_def ABYTES_def split: option.split)
  note slices = dek_slices [OF frame, folded en_def bn_def env_def]
  note unf = open_dek_def get psk slices [simplified] aad_def [symmetric] dec1 wipe_guard [OF assms(2)]
  have res: "open_dek_result L key hdr fl frame w st =
      (let failed = (Err OpenAuthFailed, wipe_dek w, record_reject RAuthFailed st) in
       case gcm_open L key en aad env of
         None \<Rightarrow> failed
       | Some dek \<Rightarrow>
           (case gcm_open L dek bn (body_aad (from_id hdr) (channel hdr)) (drop 81 frame) of
              None \<Rightarrow> failed
            | Some m \<Rightarrow> (Ok (hdr, fl, m), wipe_dek w, st)))"
    by (simp add: open_dek_result_def Let_def aad_def [symmetric] en_def [symmetric] bn_def [symmetric] env_def [symmetric])
  show ?thesis
  proof (cases "gcm_open L key en aad env")
    case None
    then show ?thesis unfolding res using frame loc by (simp add: unf)
  next
    case (Some dek)
    have ld: "length dek = KEYBYTES"
      using aead_contract_dec(1) [OF assms(1,3) len(1), of env aad] Some len(3)
      by (auto simp: gcm_open_def sodium_sizes split: prod.splits if_splits)
    have dec2: "aead_decrypt L dek bn (body_aad (from_id hdr) (channel hdr)) (drop 81 frame) (replicate (length frame - 97) 0) =
        (case gcm_open L dek bn (body_aad (from_id hdr) (channel hdr)) (drop 81 frame) of
           Some m \<Rightarrow> Some (Ok (length m), overwrite (replicate (length frame - 97) 0) m)
         | None \<Rightarrow> Some (Err AuthFailed, replicate (length frame - 97) 0))"
      using decrypt_exact [OF assms(1,2) ld len(2), of "drop 81 frame" "replicate (length frame - 97) 0"] frame
      by (simp add: ABYTES_def split: option.split)
    show ?thesis unfolding res using Some frame loc by (simp add: unf dec2 ld split: option.split)
  qed
qed

lemma open_dek_spec:
  assumes "aead_contract L" "memory_contract L" "ks_inv w store"
  shows "open_dek L store frame hdr fl w st = Some
    (if length frame < DEK_OVERHEAD
       then (Err (OpenTooShort (length frame)), w, record_reject RTooShort st)
     else if to_id hdr \<noteq> ks_local_id store then (Err WrongDestination, w, record_reject RPlaintext st)
     else case lookup w store (from_id hdr) (flags_epoch fl) of
       None \<Rightarrow> (Err OpenNoKey, w, record_reject
         (if \<exists>e. lookup w store (from_id hdr) e \<noteq> None then RNoEpoch else RNoPeer) st)
     | Some key \<Rightarrow> open_dek_result L key hdr fl frame w st)"
proof (cases "length frame < 97 \<or> to_id hdr \<noteq> ks_local_id store")
  case True
  then show ?thesis by (auto simp: open_dek_def usize_sub_def)
next
  case False
  then have gates: "97 \<le> length frame" "to_id hdr = ks_local_id store" by auto
  show ?thesis
  proof (cases "key_for_receive store (from_id hdr) (flags_epoch fl)")
    case None
    with gates show ?thesis
      by (simp add: open_dek_def lookup_def [of _ _ _ "flags_epoch fl"] peer_known_iff [OF assms(3)])
  next
    case (Some g)
    note key = psk_lookup [OF assms(3) Some]
    with open_dek_body [OF assms(1,2) key(2) gates(1) key(1) gates(2) Some] gates
      lookup_expose(1) [OF assms(3) Some]
    show ?thesis by simp
  qed
qed

lemma open_dek_no_panic: "open_dek L store frame hdr fl w st \<noteq> None"
proof (cases "length frame < 97 \<or> to_id hdr \<noteq> ks_local_id store")
  case True
  then show ?thesis by (auto simp: open_dek_def)
next
  case False
  then show ?thesis
    by (auto simp: open_dek_def ABYTES_def Let_def aead_decrypt_no_panic
        split: option.splits Option.bind_splits sum.splits prod.splits sodium_error.splits)
qed

lemma dek_open_no_panic: "dek_open L store frame w st \<noteq> None"
  by (auto simp: dek_open_def standard_open_no_panic open_dek_no_panic simp del: not_None_eq
      split: sum.splits prod.splits Option.bind_splits)

section \<open>Exactly the sealed frames are accepted\<close>

lemma parse_dek_frame:
  "epoch_ok e \<Longrightarrow> parse_prefix (dek_frame L key src to ch e en dek bn payload) =
    Ok (\<lparr>from_id = src, to_id = to, channel = ch\<rparr>, flags_new Dek e)"
  by (simp add: dek_frame_def dek_prefix_def parse_serialize Let_def)

lemma dek_frame_parts:
  assumes "aead_contract L" "length key = KEYBYTES" "length en = NPUBBYTES"
    "length dek = KEYBYTES" "length bn = NPUBBYTES"
    and f: "f = dek_frame L key src to ch e en dek bn payload"
    and b: "body = dek_body L dek src ch bn payload"
  shows "take 9 f = dek_prefix src to ch e" "take 12 (drop 9 f) = en"
    "take 12 (drop 69 f) = bn" "drop (length f - 16) f = drop (length body - ABYTES) body"
    "take 48 (drop 21 f) = gcm L key en
      (envelope_aad (dek_prefix src to ch e) bn (drop (length body - ABYTES) body)) dek"
    "drop 81 f = gcm L dek bn (body_aad src ch) payload"
proof -
  define pre where "pre = dek_prefix src to ch e"
  define env where "env = gcm L key en (envelope_aad pre bn (drop (length body - ABYTES) body)) dek"
  define ct where "ct = gcm L dek bn (body_aad src ch) payload"
  have feq: "f = pre @ en @ env @ body" by (simp add: f dek_frame_def Let_def b [symmetric] pre_def env_def)
  have body: "body = bn @ ct" by (simp add: b dek_body_def ct_def)
  have len: "length pre = 9" "length en = 12" "length env = 48" "length bn = 12" "length ct = length payload + 16"
    using assms(3-5) length_gcm [OF assms(1-3)] length_gcm [OF assms(1,4,5)]
    by (simp_all add: pre_def env_def ct_def sodium_sizes)
  show "take 9 f = dek_prefix src to ch e" "take 12 (drop 9 f) = en" "take 12 (drop 69 f) = bn"
    "take 48 (drop 21 f) = gcm L key en
      (envelope_aad (dek_prefix src to ch e) bn (drop (length body - ABYTES) body)) dek"
    "drop 81 f = gcm L dek bn (body_aad src ch) payload"
    using len by (simp_all add: feq body pre_def [symmetric] ct_def [symmetric])
      (simp_all add: env_def body pre_def)
  show "drop (length f - 16) f = drop (length body - ABYTES) body"
    using len by (simp add: feq body ABYTES_def)
qed

lemma dek_open_standard:
  assumes "aead_contract L" "memory_contract L" "ks_inv w store" "length nonce = NPUBBYTES"
    and "lookup w store src e = Some key"
  shows "dek_open L store (std_frame L key src (ks_local_id store) ch e nonce payload) w st =
    Some (Ok (\<lparr>from_id = src, to_id = ks_local_id store, channel = ch\<rparr>, flags_new Standard e, payload), w, st)"
proof -
  have k: "length key = KEYBYTES" "epoch_ok e"
    using ks.look_ok [of "(w, store)" src e key] assms(3,5) by simp_all
  define out :: bytes where "out = replicate (length payload) 0"
  have out: "length payload = length out" by (simp add: out_def)
  have "standard_open L w store (std_frame L key src (ks_local_id store) ch e nonce payload) out st =
      Some (Ok (\<lparr>from_id = src, to_id = ks_local_id store, channel = ch\<rparr>, flags_new Standard e, length payload),
        payload, st)"
    using standard_open_sealed [OF assms(1-5) eq_refl [OF out]] out by simp
  then show ?thesis
    by (simp add: dek_open_def parse_std_frame [OF k(2)] length_std_frame [OF assms(1) k(1) assms(4)] out_def)
      (simp add: flags_new_def)
qed

lemma dek_open_sealed:
  assumes "aead_contract L" "memory_contract L" "ks_inv w store"
    and "length en = NPUBBYTES" "length dek = KEYBYTES" "length bn = NPUBBYTES"
    and "lookup w store src e = Some key"
  shows "dek_open L store (dek_frame L key src (ks_local_id store) ch e en dek bn payload) w st =
    Some (Ok (\<lparr>from_id = src, to_id = ks_local_id store, channel = ch\<rparr>, flags_new Dek e, payload),
      wipe_dek w, st)"
proof -
  have k: "length key = KEYBYTES" "epoch_ok e"
    using ks.look_ok [of "(w, store)" src e key] assms(3,7) by simp_all
  define f where "f = dek_frame L key src (ks_local_id store) ch e en dek bn payload"
  note parts = dek_frame_parts [OF assms(1) k(1) assms(4-6) f_def refl]
  have "length f = length payload + 97"
    unfolding f_def using length_dek_frame [OF assms(1) k(1) assms(4-6)] by simp
  moreover have "open_dek_result L key \<lparr>from_id = src, to_id = ks_local_id store, channel = ch\<rparr>
      (flags_new Dek e) f w st = (Ok (\<lparr>from_id = src, to_id = ks_local_id store, channel = ch\<rparr>,
        flags_new Dek e, payload), wipe_dek w, st)"
    unfolding open_dek_result_def parts Let_def
    by (simp add: gcm_open_gcm [OF assms(1) k(1) assms(4)] gcm_open_gcm [OF assms(1,5,6)])
  moreover have "parse_prefix f = Ok (\<lparr>from_id = src, to_id = ks_local_id store, channel = ch\<rparr>, flags_new Dek e)"
    unfolding f_def by (rule parse_dek_frame [OF k(2)])
  ultimately show ?thesis
    unfolding f_def [symmetric]
    by (simp add: dek_open_def open_dek_spec [OF assms(1-3)] assms(7) flags_new_sel)
qed

text \<open>Every rejected frame is counted under one reason, every accepted one under none.\<close>

lemma dek_open_accounts:
  assumes "aead_contract L" "memory_contract L" "ks_inv w store"
    and "dek_open L store frame w st = Some (r, w', st')"
  shows "(w' = w \<or> w' = wipe_dek w) \<and>
    (case r of Inl e \<Rightarrow> (\<forall>x. e \<noteq> OpenSodium x) \<and> (\<exists>why. st' = record_reject why st) | Inr _ \<Rightarrow> st' = st)"
proof (cases "parse_prefix frame")
  case (Inl e)
  with assms(4) show ?thesis by (auto simp: dek_open_def)
next
  case (Inr hf)
  obtain hdr fl where hf: "hf = (hdr, fl)" by (cases hf)
  show ?thesis
  proof (cases "flags_mode fl = Standard")
    case True
    define out :: bytes where "out = replicate (length frame - OVERHEAD) 0"
    have out: "length out = length frame - OVERHEAD" by (simp add: out_def)
    obtain r1 o1 st1 where so: "standard_open L w store frame out st = Some (r1, o1, st1)"
      using standard_open_no_panic [of L w store frame out st] by auto
    have "case r1 of Inl _ \<Rightarrow> \<exists>why. st1 = record_reject why st | Inr _ \<Rightarrow> st1 = st"
      using so unfolding standard_open_spec [OF assms(1-3)]
      by (auto simp: Inr hf True open_result_def out split: if_splits option.splits)
    with so assms(4) Inr hf True show ?thesis
      by (auto simp: dek_open_def out_def [symmetric] split: sum.splits)
  next
    case False
    with assms(4) Inr hf show ?thesis
      by (auto simp: dek_open_def open_dek_spec [OF assms(1-3)] open_dek_result_def Let_def
          split: if_splits option.splits)
  qed
qed

text \<open>The reason a frame that is not accepted is counted under, as a function of store and frame.\<close>

definition key_reason :: "world \<Rightarrow> keystore \<Rightarrow> header \<Rightarrow> flags \<Rightarrow> reject_reason" where
  "key_reason w store hdr fl =
     (if lookup w store (from_id hdr) (flags_epoch fl) \<noteq> None then RAuthFailed
      else if peer_known store (from_id hdr) then RNoEpoch else RNoPeer)"

definition drop_reason :: "world \<Rightarrow> keystore \<Rightarrow> bytes \<Rightarrow> reject_reason" where
  "drop_reason w store frame =
     (case parse_prefix frame of
        Err e \<Rightarrow> from_codec e
      | Ok (hdr, fl) \<Rightarrow>
          if flags_mode fl = Standard then
            if to_id hdr \<noteq> ks_local_id store then RPlaintext
            else if length frame < OVERHEAD then RLenMismatch else key_reason w store hdr fl
          else
            if length frame < DEK_OVERHEAD then RTooShort
            else if to_id hdr \<noteq> ks_local_id store then RPlaintext else key_reason w store hdr fl)"

lemma dek_open_drops:
  assumes "aead_contract L" "memory_contract L" "ks_inv w store"
    and "dek_open L store frame w st = Some (Err x, w', st')"
  shows "st' = record_reject (drop_reason w store frame) st"
proof (cases "parse_prefix frame")
  case (Inl e)
  with assms(4) show ?thesis by (simp add: dek_open_def drop_reason_def)
next
  case (Inr hf)
  obtain hdr fl where hf: "hf = (hdr, fl)" by (cases hf)
  note known = peer_known_iff [OF assms(3)]
  show ?thesis
  proof (cases "flags_mode fl = Standard")
    case True
    define out :: bytes where "out = replicate (length frame - OVERHEAD) 0"
    have len: "length out = length frame - OVERHEAD" by (simp add: out_def)
    from assms(4) Inr hf True obtain out' where
      "standard_open L w store frame out st = Some (Err Rejected, out', st')"
      by (auto simp: dek_open_def out_def split: Option.bind_splits sum.splits)
        (metis open_rejected.exhaust)
    then show ?thesis unfolding standard_open_spec [OF assms(1-3)]
      by (auto simp: Inr hf True drop_reason_def key_reason_def known open_result_def len
          split: if_splits option.splits)
  next
    case False
    with assms(4) Inr hf show ?thesis
      by (auto simp: dek_open_def open_dek_spec [OF assms(1-3)] open_dek_result_def Let_def
          drop_reason_def key_reason_def known split: if_splits option.splits)
  qed
qed

definition sealed_frame :: "sodium_lib \<Rightarrow> bytes \<Rightarrow> header \<Rightarrow> flags \<Rightarrow> bytes \<Rightarrow> bytes \<Rightarrow> bool" where
  "sealed_frame L key hdr fl payload frame \<longleftrightarrow>
     (case flags_mode fl of
        Standard \<Rightarrow> \<exists>nonce. length nonce = NPUBBYTES \<and>
          frame = std_frame L key (from_id hdr) (to_id hdr) (channel hdr) (flags_epoch fl) nonce payload
      | Dek \<Rightarrow> \<exists>en dek bn. length en = NPUBBYTES \<and> length dek = KEYBYTES \<and> length bn = NPUBBYTES \<and>
          frame = dek_frame L key (from_id hdr) (to_id hdr) (channel hdr) (flags_epoch fl) en dek bn payload)"

lemma open_dek_accepts:
  assumes "aead_contract L" "length key = KEYBYTES" "97 \<le> length frame"
    and "parse_prefix frame = Ok (hdr, fl)" "flags_mode fl = Dek"
    and res: "open_dek_result L key hdr fl frame w st = (Ok (h, f, payload), w', st')"
  shows "h = hdr \<and> f = fl \<and> st' = st \<and> sealed_frame L key hdr fl payload frame"
proof -
  define en where "en = take 12 (drop 9 frame)"
  define bn where "bn = take 12 (drop 69 frame)"
  define tag where "tag = drop (length frame - 16) frame"
  define env where "env = take 48 (drop 21 frame)"
  define ct where "ct = drop 81 frame"
  have len: "length en = NPUBBYTES" "length bn = NPUBBYTES" "length env = 48" "ABYTES \<le> length ct"
    using assms(3) by (simp_all add: en_def bn_def env_def ct_def sodium_sizes)
  obtain dek where d: "gcm_open L key en (envelope_aad (take 9 frame) bn tag) env = Some dek"
    and m: "gcm_open L dek bn (body_aad (from_id hdr) (channel hdr)) ct = Some payload"
    and eq: "h = hdr" "f = fl" "st' = st"
    using res unfolding open_dek_result_def Let_def en_def [symmetric] bn_def [symmetric]
      tag_def [symmetric] env_def [symmetric] ct_def [symmetric]
    by (auto split: option.splits)
  have env48: "ABYTES \<le> length env" using len(3) by (simp add: ABYTES_def)
  note env_eq = gcm_open_sound [OF assms(1,2) len(1) env48 d]
  have ld: "length dek = KEYBYTES"
    using arg_cong [OF env_eq, of length] len(3) length_gcm [OF assms(1,2) len(1)]
    by (simp add: sodium_sizes)
  note ct_eq = gcm_open_sound [OF assms(1) ld len(2,4) m]
  have pre: "take 9 frame = dek_prefix (from_id hdr) (to_id hdr) (channel hdr) (flags_epoch fl)"
  proof -
    have "flags_new Dek (flags_epoch fl) = fl" using assms(5) by (cases fl) (simp add: flags_new_def)
    moreover have "take 9 frame = serialize_prefix hdr fl"
      using parse_prefix_sound [OF assms(4)] by (metis append_eq_conv_conj length_serialize_prefix)
    moreover have "\<lparr>from_id = from_id hdr, to_id = to_id hdr, channel = channel hdr\<rparr> = hdr" by simp
    ultimately show ?thesis unfolding dek_prefix_def by metis
  qed
  have tag_eq: "tag = drop (length (bn @ ct) - ABYTES) (bn @ ct)"
  proof -
    have "bn @ ct = drop 69 frame" using take_take_drop [of 0 "drop 69 frame" 12] by (simp add: bn_def ct_def)
    then show ?thesis using assms(3) by (simp add: tag_def ABYTES_def)
  qed
  have "frame = take 9 frame @ en @ env @ bn @ ct"
  proof -
    have "frame = take 9 frame @ en @ drop 21 frame" using take_take_drop [of 9 frame 12] by (simp add: en_def)
    moreover have "drop 21 frame = env @ drop 69 frame"
      using append_take_drop_id [of 48 "drop 21 frame"] by (simp add: env_def)
    moreover have "drop 69 frame = bn @ ct"
      using append_take_drop_id [of 12 "drop 69 frame"] by (simp add: bn_def ct_def)
    ultimately show ?thesis by metis
  qed
  then have "frame = dek_frame L key (from_id hdr) (to_id hdr) (channel hdr) (flags_epoch fl) en dek bn payload"
    unfolding dek_frame_def dek_body_def Let_def ct_eq [symmetric] tag_eq [symmetric] pre [symmetric]
      env_eq [symmetric] by simp
  with len ld eq assms(5) show ?thesis by (auto simp: sealed_frame_def)
qed

lemma dek_open_accepts:
  assumes "aead_contract L" "memory_contract L" "ks_inv w store"
    and "dek_open L store frame w st = Some (Ok (hdr, fl, payload), w', st')"
  shows "to_id hdr = ks_local_id store \<and>
    (\<exists>key. lookup w store (from_id hdr) (flags_epoch fl) = Some key \<and> sealed_frame L key hdr fl payload frame)"
proof (cases "parse_prefix frame")
  case (Inl e)
  with assms(4) show ?thesis by (simp add: dek_open_def)
next
  case (Inr hf)
  obtain h f where hf: "hf = (h, f)" by (cases hf)
  show ?thesis
  proof (cases "flags_mode f = Standard")
    case True
    then obtain n out where so: "standard_open L w store frame (replicate (length frame - OVERHEAD) 0) st =
        Some (Ok (hdr, fl, n), out, st')" and pl: "payload = take n out"
      using assms(4) Inr hf by (auto simp: dek_open_def split: Option.bind_splits sum.splits)
    obtain key nonce m where acc: "lookup w store (from_id hdr) (flags_epoch fl) = Some key"
        "length nonce = NPUBBYTES" "fl = flags_new Standard (flags_epoch fl)" "to_id hdr = ks_local_id store"
        "frame = std_frame L key (from_id hdr) (to_id hdr) (channel hdr) (flags_epoch fl) nonce m"
        "n = length m" "out = overwrite (replicate (length frame - OVERHEAD) 0) m"
      using standard_open_accepts [OF assms(1-3) so] by blast
    then have "payload = m" using pl by simp
    moreover have "flags_mode fl = Standard" using acc(3) flags_new_sel(1) by metis
    ultimately show ?thesis using acc by (auto simp: sealed_frame_def)
  next
    case False
    then have mode: "flags_mode f = Dek" by (cases "flags_mode f") auto
    from assms(4) Inr hf False obtain key where
      g: "97 \<le> length frame" "to_id h = ks_local_id store" "lookup w store (from_id h) (flags_epoch f) = Some key"
      and res: "open_dek_result L key h f frame w st = (Ok (hdr, fl, payload), w', st')"
      by (auto simp: dek_open_def open_dek_spec [OF assms(1-3)] split: if_splits option.splits)
    have "length key = KEYBYTES" using ks.look_ok [of "(w, store)"] assms(3) g(3) by auto
    from open_dek_accepts [OF assms(1) this g(1) Inr [unfolded hf] mode res] g show ?thesis by auto
  qed
qed

section \<open>The contract of a frame mode\<close>

text \<open>
  Both modes promise the same: a receiver accepts a frame exactly when it is addressed to it and
  is the sealing of a payload under a key it holds for the claimed source and epoch, and the
  header and epoch can be read off the frame. What a host relies on follows from that alone.
\<close>

locale frame_mode =
  fixes inv :: "'s \<Rightarrow> bool"
    and me :: "'s \<Rightarrow> u16"
    and keyed :: "'s \<Rightarrow> u16 \<Rightarrow> epoch \<Rightarrow> bytes option"
    and sealed :: "bytes \<Rightarrow> header \<Rightarrow> epoch \<Rightarrow> bytes \<Rightarrow> bytes \<Rightarrow> bool"
    and accept :: "'s \<Rightarrow> bytes \<Rightarrow> (header \<times> epoch \<times> bytes) option"
  assumes complete: "inv s \<Longrightarrow> keyed s (from_id h) e = Some k \<Longrightarrow> to_id h = me s \<Longrightarrow>
      sealed k h e m f \<Longrightarrow> accept s f = Some (h, e, m)"
    and sound: "inv s \<Longrightarrow> accept s f = Some (h, e, m) \<Longrightarrow>
      to_id h = me s \<and> (\<exists>k. keyed s (from_id h) e = Some k \<and> sealed k h e m f)"
    and header_fixed: "sealed k h e m f \<Longrightarrow> sealed k' h' e' m' f \<Longrightarrow> epoch_ok e \<Longrightarrow> epoch_ok e' \<Longrightarrow>
      h = h' \<and> e = e'"
    and keyed_ok: "inv s \<Longrightarrow> keyed s p e = Some k \<Longrightarrow> epoch_ok e"
begin

lemma accept_iff:
  "inv s \<Longrightarrow> accept s f = Some (h, e, m) \<longleftrightarrow>
    to_id h = me s \<and> (\<exists>k. keyed s (from_id h) e = Some k \<and> sealed k h e m f)"
  using complete sound by blast

lemma same_payload:
  assumes "inv s" "keyed s (from_id h) e = Some k" "to_id h = me s" "sealed k h e m f" "sealed k h e m' f"
  shows "m' = m"
  using complete [OF assms(1-4)] complete [OF assms(1-3,5)] by simp

lemma misaddressed:
  assumes "inv s" "sealed k h e m f" "epoch_ok e" "to_id h \<noteq> me s"
  shows "accept s f = None"
proof (rule ccontr)
  assume "accept s f \<noteq> None"
  then obtain h' e' m' where a: "accept s f = Some (h', e', m')" by (metis option.exhaust prod_cases3)
  then obtain k' where "to_id h' = me s" "keyed s (from_id h') e' = Some k'" "sealed k' h' e' m' f"
    using sound [OF assms(1)] by blast
  with header_fixed [OF assms(2)] assms(3,4) keyed_ok [OF assms(1)] show False by metis
qed

lemma retired:
  assumes "inv s" "sealed k h e m f" "epoch_ok e" "keyed s (from_id h) e = None"
  shows "accept s f = None"
proof (rule ccontr)
  assume "accept s f \<noteq> None"
  then obtain h' e' m' where a: "accept s f = Some (h', e', m')" by (metis option.exhaust prod_cases3)
  then obtain k' where "keyed s (from_id h') e' = Some k'" "sealed k' h' e' m' f"
    using sound [OF assms(1)] by blast
  with header_fixed [OF assms(2)] assms(3,4) keyed_ok [OF assms(1)] show False by (metis option.distinct(1))
qed

end

definition mode_accept ::
  "mode \<Rightarrow> stats_state \<Rightarrow> sodium_lib \<Rightarrow> world \<times> keystore \<Rightarrow> bytes \<Rightarrow> (header \<times> epoch \<times> bytes) option" where
  "mode_accept md st L s frame =
     (case dek_open L (snd s) frame (fst s) st of
        Some (Ok (h, fl, m), _) \<Rightarrow> if flags_mode fl = md then Some (h, flags_epoch fl, m) else None
      | _ \<Rightarrow> None)"

definition mode_sealed :: "mode \<Rightarrow> sodium_lib \<Rightarrow> bytes \<Rightarrow> header \<Rightarrow> epoch \<Rightarrow> bytes \<Rightarrow> bytes \<Rightarrow> bool" where
  "mode_sealed md L k h e m f \<longleftrightarrow> sealed_frame L k h (flags_new md e) m f"

lemma mode_accept_Some:
  "mode_accept md st L (w, s) f = Some (h, e, m) \<longleftrightarrow>
    (\<exists>w' st'. dek_open L s f w st = Some (Ok (h, flags_new md e, m), w', st'))"
proof -
  have "fl = flags_new md e \<longleftrightarrow> flags_mode fl = md \<and> flags_epoch fl = e" for fl
    by (cases fl) (auto simp: flags_new_def)
  then show ?thesis by (auto simp: mode_accept_def split: option.splits sum.splits)
qed

lemma mode_complete:
  assumes "aead_contract L" "memory_contract L" "ks_inv w s" "lookup w s (from_id h) e = Some k"
    "to_id h = ks_local_id s" "mode_sealed md L k h e m f"
  shows "mode_accept md st L (w, s) f = Some (h, e, m)"
proof -
  have h: "\<lparr>from_id = from_id h, to_id = ks_local_id s, channel = channel h\<rparr> = h" using assms(5) by simp
  show ?thesis
  proof (cases md)
    case Standard
    with assms(6) obtain nonce where n: "length nonce = NPUBBYTES"
      "f = std_frame L k (from_id h) (ks_local_id s) (channel h) e nonce m"
      by (auto simp: mode_sealed_def sealed_frame_def flags_new_sel assms(5))
    from dek_open_standard [OF assms(1-3) n(1) assms(4), of "channel h" m st] Standard n(2) h
    show ?thesis by (simp add: mode_accept_Some)
  next
    case Dek
    with assms(6) obtain en dek bn where n: "length en = NPUBBYTES" "length dek = KEYBYTES" "length bn = NPUBBYTES"
      "f = dek_frame L k (from_id h) (ks_local_id s) (channel h) e en dek bn m"
      by (auto simp: mode_sealed_def sealed_frame_def flags_new_sel assms(5))
    from dek_open_sealed [OF assms(1-3) n(1-3) assms(4), of "channel h" m st] Dek n(4) h
    show ?thesis by (simp add: mode_accept_Some)
  qed
qed

lemma mode_header:
  assumes "mode_sealed md L k h e m f" "epoch_ok e"
  shows "parse_prefix f = Ok (h, flags_new md e)"
  using assms by (cases md)
    (auto simp: mode_sealed_def sealed_frame_def flags_new_sel parse_std_frame parse_dek_frame)

interpretation fm: frame_mode
  "\<lambda>(w, s). aead_contract L \<and> memory_contract L \<and> ks_inv w s" "\<lambda>(w, s). ks_local_id s"
  "\<lambda>(w, s). lookup w s" "mode_sealed md L" "mode_accept md st L" for L md st
proof unfold_locales
  fix s :: "world \<times> keystore" and h e k m f
  obtain w t where s: "s = (w, t)" by (cases s)
  assume "case s of (w, s) \<Rightarrow> aead_contract L \<and> memory_contract L \<and> ks_inv w s"
  then have inv: "aead_contract L" "memory_contract L" "ks_inv w t" by (simp_all add: s)
  show "mode_accept md st L s f = Some (h, e, m)"
    if "(case s of (w, s) \<Rightarrow> lookup w s) (from_id h) e = Some k" "to_id h = (case s of (w, s) \<Rightarrow> ks_local_id s)"
      "mode_sealed md L k h e m f"
    using that mode_complete [OF inv] by (simp add: s)
  show "to_id h = (case s of (w, s) \<Rightarrow> ks_local_id s) \<and>
      (\<exists>k. (case s of (w, s) \<Rightarrow> lookup w s) (from_id h) e = Some k \<and> mode_sealed md L k h e m f)"
    if "mode_accept md st L s f = Some (h, e, m)"
    using that dek_open_accepts [OF inv] unfolding s mode_accept_Some prod.case
    by (fastforce simp: mode_sealed_def flags_new_sel)
  show "epoch_ok e" if "(case s of (w, s) \<Rightarrow> lookup w s) p e = Some k" for p
    using that ks.look_ok [of "(w, t)" p e k] inv(3) by (simp add: s)
next
  fix k h e m f k' h' e' m'
  assume "mode_sealed md L k h e m f" "mode_sealed md L k' h' e' m' f" "epoch_ok e" "epoch_ok e'"
  then have "Inr (h, flags_new md e) = (Inr (h', flags_new md e') :: codec_error + header \<times> flags)"
    using mode_header by metis
  then show "h = h' \<and> e = e'" by (simp add: flags_new_def)
qed

lemma dek_open_header:
  assumes "sodium_contract L" "ks_inv w store"
    and "dek_open L store frame w st = Some (Ok (h, fl, m), w', st')"
  shows "parse_prefix frame = Ok (h, fl)"
proof -
  note L = sodium_contractD(1,2) [OF assms(1)]
  obtain key where k: "lookup w store (from_id h) (flags_epoch fl) = Some key" "sealed_frame L key h fl m frame"
    using dek_open_accepts [OF L assms(2,3)] by blast
  have "epoch_ok (flags_epoch fl)" using ks.look_ok [of "(w, store)"] assms(2) k(1) by auto
  moreover have "flags_new (flags_mode fl) (flags_epoch fl) = fl" by (cases fl) (simp add: flags_new_def)
  ultimately show ?thesis
    using mode_header [of "flags_mode fl" L key h "flags_epoch fl" m frame] k(2) by (simp add: mode_sealed_def)
qed

lemma refuse_foreign:
  assumes "sodium_contract L" "ks_inv w store" "epoch_ok e"
    and "sealed_frame L key hdr (flags_new md e) payload frame"
    and "to_id hdr \<noteq> ks_local_id store \<or> lookup w store (from_id hdr) e = None"
  shows "\<exists>x w' st'. dek_open L store frame w st = Some (Err x, w', st')"
proof -
  note L = sodium_contractD [OF assms(1)]
  have "mode_accept md st L (w, store) frame = None"
    using assms(5) fm.misaddressed [of L "(w, store)" md key hdr e payload frame st]
      fm.retired [of L "(w, store)" md key hdr e payload frame st] L assms(2-4)
    by (auto simp: mode_sealed_def)
  moreover have parse: "parse_prefix frame = Ok (hdr, flags_new md e)"
    using mode_header assms(3,4) by (simp add: mode_sealed_def)
  ultimately have "dek_open L store frame w st \<noteq> Some (Ok (h, fl, m), w', st')" for h fl m w' st'
    using dek_open_header [OF assms(1,2), of frame st h fl m w' st'] mode_accept_Some [of md st L w store frame h e m]
    by auto
  then show ?thesis
    using dek_open_no_panic [of L store frame w st] by (metis option.exhaust prod_cases3 sum.exhaust)
qed

text \<open>Sealing with random choices is the deterministic seam on the values drawn. \<open>dek_error\<close> renames the
  errors of the standard mode.\<close>

fun dek_error :: "seal_error \<Rightarrow> dek_seal_error" where
  "dek_error (PayloadTooLarge n) = Oversize n"
| "dek_error NoKey = DekNoKey"
| "dek_error (SealSodium x) = DekSodium x"
| "dek_error (OutputTooSmall _ _) = DekSodium Internal"

lemma draw_nonces_eq:
  "draw_nonces L xs w =
    (map (\<lambda>i. x_random L (draws w + i) NPUBBYTES) [0..<length xs], w\<lparr>draws := draws w + length xs\<rparr>)"
proof (induction xs arbitrary: w)
  case (Cons x xs)
  show ?case by (simp add: random_nonce_eq Cons.IH upt_conv_Cons map_Suc_upt [symmetric] comp_def del: upt_Suc)
qed simp

lemma seal_fanout_seeded:
  fixes recipients :: "u16 list"
  assumes "sodium_contract L" "ks_inv w store"
  defines "k \<equiv> length recipients"
  shows "map_option fst (seal_fanout L store recipients ch payload w) =
    map_option fst (seal_fanout_deterministic L store recipients ch payload (x_random L (draws w + k) KEYBYTES)
      (x_random L (draws w + k + 1) NPUBBYTES) (map (\<lambda>i. x_random L (draws w + i) NPUBBYTES) [0..<k]) w)"
proof (cases "select_fanout store recipients payload")
  case (Inl x)
  then show ?thesis by (simp add: seal_fanout_def seal_fanout_deterministic_def)
next
  case (Inr sel)
  note L = sodium_contractD [OF assms(1)]
  define dek bn ens where "dek = x_random L (draws w + k) KEYBYTES" and "bn = x_random L (draws w + k + 1) NPUBBYTES"
    and "ens = map (\<lambda>i. x_random L (draws w + i) NPUBBYTES) [0..<k]"
  have sizes: "length dek = KEYBYTES" "length bn = NPUBBYTES" "\<forall>en \<in> set ens. length en = NPUBBYTES"
    using L(3) by (auto simp: dek_def bn_def ens_def random_contract_def)
  have all2: "list_all2 (\<lambda>r (t, e, g). t = r \<and> key_for_send_current store r = Some (e, g)) recipients sel"
    and pl: "length payload \<le> DEK_MAX_PAYLOAD"
    using Inr by (auto simp: select_fanout_def select_loop_Ok split: if_splits)
  then have len: "length ens = length sel" by (simp add: list_all2_lengthD ens_def k_def)
  have keys: "\<forall>(t, e, g) \<in> set sel. psk w g = Ok (expose w g) \<and> length (expose w g) = KEYBYTES"
    using all2 current_receive(2,3) [OF assms(2)] by (fastforce simp: list_all2_conv_all_nth in_set_conv_nth)
  note core = seal_fanout_core_ok [OF L(1,2) sizes(1,2) len sizes(3) _ pl, of _ "ks_local_id store" ch]
  show ?thesis
    unfolding seal_fanout_def seal_fanout_deterministic_def Inr sum.case draw_nonces_eq random_nonce_eq prod.case
    using core [of w] core [of "w\<lparr>draws := n\<rparr>" for n] keys len
    by (simp add: random_key_def randombytes_fill_def sodium_sizes dek_def bn_def ens_def k_def [symmetric])
qed

section \<open>Properties\<close>

text \<open>C2. Opening accepts exactly the sealed frames. For either mode, a frame opens with a given header,
  epoch and payload if and only if the header names this node as the destination and the frame is
  the sealing of that payload, for that header and epoch, under the key this node holds for the
  claimed source and epoch.\<close>

theorem open_accepts_exactly_sealed:
  assumes "sodium_contract L" "ks_inv w store"
  shows "(\<exists>w' st'. dek_open L store frame w st = Some (Ok (hdr, flags_new md e, payload), w', st')) \<longleftrightarrow>
    to_id hdr = ks_local_id store \<and>
    (\<exists>key. lookup w store (from_id hdr) e = Some key \<and> sealed_frame L key hdr (flags_new md e) payload frame)"
  using fm.accept_iff [of L "(w, store)" md st frame hdr e payload] sodium_contractD [OF assms(1)] assms(2)
  by (simp add: mode_accept_Some mode_sealed_def)

theorem open_accepts_exactly_sealed_witness:
  "(\<exists>w' st'. dek_open demo_sodium (demo_store 1 2 (Epoch 3))
      (std_frame demo_sodium demo_key 2 1 100 (Epoch 3) (replicate 12 8) [5, 6]) demo_world stats_init =
      Some (Ok (\<lparr>from_id = 2, to_id = 1, channel = 100\<rparr>, flags_new Standard (Epoch 3), [5, 6]), w', st'))"
  unfolding open_accepts_exactly_sealed [OF demo_contract demo_ks_inv [OF demo_epoch_3]]
  by (auto simp: demo_lookup sealed_frame_def flags_new_sel NPUBBYTES_def intro: exI [of _ "replicate 12 8"])
    (simp add: demo_store_def)

text \<open>C22. The test seams exercise the real path: a one-recipient seal returns exactly what the
  deterministic seam returns on the nonce the library hands out next, errors included, and a fanout
  what its seam returns on the envelope nonces, data key and body nonce drawn in that order.\<close>

theorem deterministic_seams_agree:
  assumes "sodium_contract L" "ks_inv w store"
  shows "map_option fst (dek_seal L store to ch e payload w) =
      map_option (map_sum dek_error id)
        (seal_standard_deterministic L w store to ch e payload (x_random L (draws w) NPUBBYTES)) \<and>
    (let k = length recipients in
     map_option fst (seal_fanout L store recipients ch payload w) =
      map_option fst (seal_fanout_deterministic L store recipients ch payload (x_random L (draws w + k) KEYBYTES)
        (x_random L (draws w + k + 1) NPUBBYTES) (map (\<lambda>i. x_random L (draws w + i) NPUBBYTES) [0..<k]) w))"
proof -
  note L = sodium_contractD [OF assms(1)]
  define n where "n = x_random L (draws w) NPUBBYTES"
  have n: "length n = NPUBBYTES" using L(3) by (simp add: n_def random_contract_def)
  have fl: "length (std_frame L key (ks_local_id store) to ch e n payload) = length payload + OVERHEAD"
    if "lookup w store to e = Some key" for key
    using length_std_frame [OF L(1) _ n] ks.look_ok [of "(w, store)" to e key] assms(2) that by simp
  have "map_option fst (dek_seal L store to ch e payload w) =
      map_option (map_sum dek_error id) (seal_standard_deterministic L w store to ch e payload n)"
    unfolding dek_seal_spec [OF assms] seal_standard_deterministic_def seal_core_spec [OF L(1) assms(2) n]
    by (auto simp: n_def [symmetric] fl overwrite_def split: option.splits)
  then show ?thesis using seal_fanout_seeded [OF assms] by (simp add: n_def Let_def)
qed

theorem deterministic_seams_agree_witness:
  "seal_standard_deterministic demo_sodium demo_world (demo_store 1 2 (Epoch 3)) 2 100 (Epoch 3) [5, 6]
     (x_random demo_sodium 0 NPUBBYTES) \<noteq> Some (Err NoKey) \<and>
   map_option fst (dek_seal demo_sodium (demo_store 1 2 (Epoch 3)) 2 100 (Epoch 3) [5, 6] demo_world) =
     map_option (map_sum dek_error id) (seal_standard_deterministic demo_sodium demo_world (demo_store 1 2 (Epoch 3))
       2 100 (Epoch 3) [5, 6] (x_random demo_sodium 0 NPUBBYTES))"
proof -
  have "draws demo_world = 0" by (simp add: demo_world_def fresh_world_def)
  with deterministic_seams_agree [OF demo_contract demo_ks_inv [OF demo_epoch_3], of 1 2 2 100 "Epoch 3" "[5, 6]"]
    dek_seal_spec [OF demo_contract demo_ks_inv [OF demo_epoch_3], of 1 2 2 100 "Epoch 3" "[5, 6]"]
  show ?thesis by (auto simp: demo_lookup standard_sizes)
qed
text \<open>C18. A fanout is all or nothing. It is refused, with no randomness drawn and nothing else changed,
  exactly when there is no recipient, the payload exceeds 65410 bytes, a recipient is repeated or
  a recipient has no key; otherwise there is one frame for each recipient, in the order given,
  under that recipient's newest epoch and 97 bytes longer than the payload. All frames end in the
  same body, the data key is zeroed, and exactly one nonce per recipient, one data key and one
  body nonce are drawn.\<close>

theorem fanout_all_or_nothing:
  assumes "sodium_contract L" "ks_inv w store"
  shows "if fanout_accepts w store recipients payload then
      \<exists>frames body. seal_fanout L store recipients ch payload w =
          Some (Ok frames, w\<lparr>draws := draws w + length recipients + 2, wiped := zeros KEYBYTES # wiped w\<rparr>) \<and>
        map ff_to_id frames = recipients \<and>
        (\<forall>f \<in> set frames. map_option fst (current w store (ff_to_id f)) = Some (ff_epoch f) \<and>
          length (ff_frame f) = length payload + 97 \<and> drop BODY_START (ff_frame f) = body)
    else \<exists>x. seal_fanout L store recipients ch payload w = Some (Err x, w)"
proof (cases "fanout_accepts w store recipients payload")
  case True
  from seal_fanout_accepted [OF assms True, of ch] obtain dek bn ens where
    d: "length dek = KEYBYTES" "length bn = NPUBBYTES" "length ens = length recipients"
      "\<forall>en \<in> set ens. length en = NPUBBYTES" and
    s: "seal_fanout L store recipients ch payload w = Some
      (Ok (map2 (fanout_entry L w store ch dek bn payload) recipients ens),
       w\<lparr>draws := draws w + length recipients + 2, wiped := zeros KEYBYTES # wiped w\<rparr>)" by blast
  have "map ff_to_id (map2 (fanout_entry L w store ch dek bn payload) recipients ens) = recipients"
    using d(3) by (simp add: comp_def case_prod_unfold fanout_entry_to map_fst_zip [of recipients ens])
  moreover have "\<forall>f \<in> set (map2 (fanout_entry L w store ch dek bn payload) recipients ens).
      map_option fst (current w store (ff_to_id f)) = Some (ff_epoch f) \<and>
      length (ff_frame f) = length payload + 97 \<and>
      drop BODY_START (ff_frame f) = dek_body L dek (ks_local_id store) ch bn payload"
  proof
    fix f assume "f \<in> set (map2 (fanout_entry L w store ch dek bn payload) recipients ens)"
    then obtain r en where m: "r \<in> set recipients" "en \<in> set ens"
      and f: "f = fanout_entry L w store ch dek bn payload r en"
      by (auto dest: set_zip_leftD set_zip_rightD)
    have "current w store r \<noteq> None" using True m(1) by (simp add: fanout_accepts_def)
    from fanout_entry_ok [OF assms this d(4) [rule_format, OF m(2)] d(1,2) f] show "map_option fst (current w store (ff_to_id f)) = Some (ff_epoch f) \<and>
      length (ff_frame f) = length payload + 97 \<and>
      drop BODY_START (ff_frame f) = dek_body L dek (ks_local_id store) ch bn payload" .
  qed
  ultimately show ?thesis using True s by (simp only: if_True) blast
next
  case False
  then show ?thesis using seal_fanout_refused by simp
qed

theorem fanout_all_or_nothing_witness:
  "\<exists>f. seal_fanout demo_sodium (demo_store 1 2 (Epoch 3)) [2] 100 [5, 6] demo_world =
      Some (Ok [f], demo_world\<lparr>draws := 3, wiped := [zeros KEYBYTES]\<rparr>) \<and>
    ff_to_id f = 2 \<and> ff_epoch f = Epoch 3 \<and> length (ff_frame f) = 99"
proof -
  have acc: "fanout_accepts demo_world (demo_store 1 2 (Epoch 3)) [2] [5, 6]"
    by (simp add: fanout_accepts_def demo_current [OF demo_epoch_3])
  have w: "draws demo_world = 0" "wiped demo_world = []" by (simp_all add: demo_world_def fresh_world_def)
  from fanout_all_or_nothing [OF demo_contract demo_ks_inv [OF demo_epoch_3], of 1 2 "[2]" "[5, 6]" 100] acc
  obtain frames where "seal_fanout demo_sodium (demo_store 1 2 (Epoch 3)) [2] 100 [5, 6] demo_world =
      Some (Ok frames, demo_world\<lparr>draws := 3, wiped := [zeros KEYBYTES]\<rparr>)" "map ff_to_id frames = [2]"
      "\<forall>f \<in> set frames. map_option fst (current demo_world (demo_store 1 2 (Epoch 3)) (ff_to_id f)) = Some (ff_epoch f) \<and>
        length (ff_frame f) = 99"
    by (auto simp: w)
  then show ?thesis by (cases frames) (auto simp: demo_current [OF demo_epoch_3])
qed

text \<open>C19. Every frame of a fanout opens at its recipient: a node with that id that holds the sender's key
  under the epoch of the frame gets the payload, the sender's id and the channel, in DEK mode; its
  copy of the data key is zeroed and no reject is counted.\<close>

theorem fanout_delivers:
  assumes "sodium_contract L" "ks_inv w store"
    and "seal_fanout L store recipients ch payload w = Some (Ok frames, w')" "f \<in> set frames"
    and "ks_inv v peer" "ks_local_id peer = ff_to_id f"
    and "lookup v peer (ks_local_id store) (ff_epoch f) = lookup w store (ff_to_id f) (ff_epoch f)"
  shows "dek_open L peer (ff_frame f) v st =
    Some (Ok (\<lparr>from_id = ks_local_id store, to_id = ff_to_id f, channel = ch\<rparr>,
      flags_new Dek (ff_epoch f), payload), v\<lparr>wiped := zeros KEYBYTES # wiped v\<rparr>, st)"
proof -
  note L = sodium_contractD [OF assms(1)]
  have acc: "fanout_accepts w store recipients payload"
    using seal_fanout_refused [of w store recipients payload L ch] assms(3) by auto
  from seal_fanout_accepted [OF assms(1,2) acc, of ch] assms(3) obtain dek bn ens where
    d: "length dek = KEYBYTES" "length bn = NPUBBYTES" "\<forall>en \<in> set ens. length en = NPUBBYTES" and
    frames: "frames = map2 (fanout_entry L w store ch dek bn payload) recipients ens" by auto
  from assms(4) obtain r en where r: "r \<in> set recipients" "en \<in> set ens" and
    f: "f = fanout_entry L w store ch dek bn payload r en"
    by (auto simp: frames dest: set_zip_leftD set_zip_rightD)
  obtain e k where cur: "current w store r = Some (e, k)" using acc r(1) by (force simp: fanout_accepts_def)
  then have "lookup w store r e = Some k" using ks.newest_Some [of "(w, store)" r e k] assms(2) by simp
  then have "lookup v peer (ks_local_id store) e = Some k" using assms(7) by (simp add: f fanout_entry_def cur)
  from dek_open_sealed [OF L(1,2) assms(5) d(3) [rule_format, OF r(2)] d(1,2) this, of ch payload st] assms(6)
  show ?thesis by (simp add: f fanout_entry_def cur wipe_dek_def)
qed

theorem fanout_delivers_witness:
  "\<exists>f w'. seal_fanout demo_sodium (demo_store 1 2 (Epoch 3)) [2] 100 [5, 6] demo_world = Some (Ok [f], w') \<and>
    dek_open demo_sodium (demo_store 2 1 (Epoch 3)) (ff_frame f) demo_world stats_init =
      Some (Ok (\<lparr>from_id = 1, to_id = 2, channel = 100\<rparr>, flags_new Dek (Epoch 3), [5, 6]),
        demo_world\<lparr>wiped := [zeros KEYBYTES]\<rparr>, stats_init)"
proof -
  note inv = demo_ks_inv [OF demo_epoch_3]
  have acc: "fanout_accepts demo_world (demo_store 1 2 (Epoch 3)) [2] [5, 6]"
    by (simp add: fanout_accepts_def demo_current [OF demo_epoch_3])
  from seal_fanout_accepted [OF demo_contract inv acc, of 100] obtain f w' where
    s: "seal_fanout demo_sodium (demo_store 1 2 (Epoch 3)) [2] 100 [5, 6] demo_world = Some (Ok [f], w')"
    and f: "ff_to_id f = 2" "ff_epoch f = Epoch 3"
    by (auto simp: length_Suc_conv demo_current [OF demo_epoch_3] fanout_entry_def)
  have "wiped demo_world = []" by (simp add: demo_world_def fresh_world_def)
  moreover have id: "ks_local_id (demo_store a b e) = a" for a b e by (simp add: demo_store_def)
  ultimately show ?thesis
    using fanout_delivers [OF demo_contract inv s _ inv, of f 2 1 stats_init] s
    by (simp add: f demo_lookup)
qed

end
