(* ===== verification/Ffi_Session.thy ===== *)
theory Ffi_Session
  imports Dek_Fanout
begin

text \<open>
  The C ABI, \<open>src/src/ffi.rs\<close>. \<open>session\<close> is the process state behind the exported functions: the
  optional keystore, the last-error buffer, the two one-shot flags, the counters and the process
  state of libsodium. A pointer with a length is \<open>bytes option\<close> with the length the caller
  states (\<open>None\<close> is NULL); an output buffer is returned with what the call wrote. \<open>None\<close> as a
  result is a panic. The borrow-conflict arms of the source are unreachable, since no exported
  function is re-entered while it holds the store, and have no counterpart here.

  \<open>exec\<close> runs one call. The lemmas show the session invariant,
  that the counters balance and never decrease, that no call panics, that a dropped frame changes
  nothing but counters, and that shutdown leaves no key behind.
\<close>

declare str_simps [simp del]

section \<open>State and return codes\<close>

record session =
  STORE :: "keystore option"
  LAST_ERROR :: bytes
  EXIT_HOOK_REGISTERED :: bool
  CORE_WARN_EMITTED :: bool
  proc :: world
  counters :: stats_state

definition session_start :: "world \<Rightarrow> session" where
  "session_start w =
     \<lparr>STORE = None, LAST_ERROR = [], EXIT_HOOK_REGISTERED = False, CORE_WARN_EMITTED = False,
      proc = w, counters = stats_init\<rparr>"

definition RC_OK :: int where "RC_OK = 0"

definition RC_OK_ABSENT :: int where "RC_OK_ABSENT = 1"

definition RC_ERR :: int where "RC_ERR = - 1"

definition RC_INVAL :: int where "RC_INVAL = - 2"

definition RC_DROP :: int where "RC_DROP = - 3"

lemmas rc_defs = RC_OK_def RC_OK_ABSENT_def RC_ERR_def RC_INVAL_def RC_DROP_def

definition set_last_error :: "bytes \<Rightarrow> session \<Rightarrow> session" where
  "set_last_error msg s = s\<lparr>LAST_ERROR := msg\<rparr>"

definition fail :: "ustr \<Rightarrow> session \<Rightarrow> int \<times> session" where
  "fail msg s = (RC_ERR, set_last_error (as_bytes msg) s)"

definition invalid :: "ustr \<Rightarrow> session \<Rightarrow> int \<times> session" where
  "invalid msg s = (RC_INVAL, set_last_error (as_bytes msg) s)"

section \<open>Argument checks\<close>

definition show_u32 :: "u32 \<Rightarrow> ustr" where
  "show_u32 v = show_nat (unat v)"

definition check_u16 :: "u32 \<Rightarrow> ustr \<Rightarrow> ustr + u16" where
  "check_u16 v what =
     (if unat v < 65536 then Ok (ucast v)
      else Err (what @ str '' '' @ show_u32 v @ str '' out of range: must be 0-65535''))"

definition epoch_message :: "u32 \<Rightarrow> ustr" where
  "epoch_message v =
     str ''epoch '' @ show_u32 v @ str '' out of range: must be 0-'' @ show_nat (unat MAX_EPOCH)"

definition check_epoch :: "u32 \<Rightarrow> ustr + epoch" where
  "check_epoch v =
     (if \<not> unat v < 256 then Err (epoch_message v)
      else case epoch_new (ucast v) of Ok e \<Rightarrow> Ok e | Err _ \<Rightarrow> Err (epoch_message v))"

definition check_channel :: "u32 \<Rightarrow> ustr + u32" where
  "check_channel v =
     (if 1 \<le> v \<and> v \<le> 99
      then Err (str ''channel '' @ show_u32 v @
        str '' is reserved: 1-99 are system channels, application channels start at 100'')
      else Ok v)"

definition buf_in :: "bytes option \<Rightarrow> nat \<Rightarrow> ustr \<Rightarrow> ustr + bytes" where
  "buf_in p len what =
     (if len = 0 then Ok []
      else case p of
        None \<Rightarrow> Err (what @ str '': null pointer with non-zero length '' @ show_nat len)
      | Some bs \<Rightarrow> Ok (take len bs))"

definition buf_out :: "bytes option \<Rightarrow> nat \<Rightarrow> ustr \<Rightarrow> ustr + bytes" where
  "buf_out p cap what =
     (if cap = 0 then Ok []
      else case p of
        None \<Rightarrow> Err (what @ str '': null output pointer with capacity '' @ show_nat cap)
      | Some bs \<Rightarrow> Ok (take cap bs))"

section \<open>Constants\<close>

definition lunet_paxe_overhead_standard :: u32 where
  "lunet_paxe_overhead_standard = of_nat OVERHEAD"

definition lunet_paxe_overhead_dek :: u32 where
  "lunet_paxe_overhead_dek = of_nat DEK_OVERHEAD"

definition lunet_paxe_max_payload_standard :: u32 where
  "lunet_paxe_max_payload_standard = of_nat MAX_PAYLOAD"

definition lunet_paxe_max_payload_dek :: u32 where
  "lunet_paxe_max_payload_dek = of_nat DEK_MAX_PAYLOAD"

section \<open>Lifecycle\<close>

text \<open>
  \<open>env\<close> is the value of \<open>LUNET_PAXE_ALLOW_CORE_DUMPS\<close>; \<open>os_text\<close> is the operating system's text
  for an error code.
\<close>

definition core_dumps_allowed_by_env :: "ustr option \<Rightarrow> bool" where
  "core_dumps_allowed_by_env env \<longleftrightarrow> env = Some (str ''1'')"

definition warn_core_disable_failed :: "ustr \<Rightarrow> session \<Rightarrow> session" where
  "warn_core_disable_failed err s =
     (if CORE_WARN_EMITTED s then s
      else s\<lparr>CORE_WARN_EMITTED := True,
        counters := (counters s)\<lparr>stderr := stderr (counters s) @
          [str ''[PAXE] WARNING: setrlimit(RLIMIT_CORE, 0) failed ('' @ err @
           str ''); core dumps are NOT disabled and on macOS a crash can write key material '' @
           str ''into a core file (see PAXE.md '' @ [34] @ str ''Security Considerations'' @ [34] @ str '')'']\<rparr>\<rparr>)"

definition lunet_paxe_init ::
  "sodium_lib \<Rightarrow> ustr option \<Rightarrow> (int \<Rightarrow> ustr) \<Rightarrow> session \<Rightarrow> int \<times> session" where
  "lunet_paxe_init L env os_text s =
     (let s1 = (if core_dumps_allowed_by_env env then s
                else case disable_core_dumps L (proc s) of
                  (Err e, w) \<Rightarrow> warn_core_disable_failed (os_text e) (s\<lparr>proc := w\<rparr>)
                | (Ok _, w) \<Rightarrow> s\<lparr>proc := w\<rparr>) in
      case sodium_init L (proc s1) of
        (Err e, w) \<Rightarrow>
          fail (str ''libsodium initialisation failed: '' @ show_sodium_error e) (s1\<lparr>proc := w\<rparr>)
      | (Ok _, w) \<Rightarrow>
          let s2 = s1\<lparr>proc := w\<rparr> in
          (case check_sizes L of
             Err e \<Rightarrow> fail (str ''libsodium ABI check failed: '' @ show_sodium_error e) s2
           | Ok _ \<Rightarrow>
               (case require_aes_gcm L of
                  Err e \<Rightarrow>
                    fail (str ''AES-256-GCM hardware path unavailable (libsodium '' @ version_string L @
                      str ''); PAXE cannot operate on this host: '' @ show_sodium_error e) s2
                | Ok _ \<Rightarrow>
                    let s3 = s2\<lparr>EXIT_HOOK_REGISTERED := True\<rparr> in
                    if \<not> EXIT_HOOK_REGISTERED s2
                    then (RC_OK, s3\<lparr>proc := register_exit_hook L (proc s3)\<rparr>)
                    else (RC_OK, s3))))"

definition lunet_paxe_set_local_id :: "sodium_lib \<Rightarrow> u32 \<Rightarrow> session \<Rightarrow> int \<times> session" where
  "lunet_paxe_set_local_id L node_id s =
     (case check_u16 node_id (str ''node id'') of
        Err m \<Rightarrow> invalid m s
      | Ok nid \<Rightarrow>
          (case STORE s of
             Some _ \<Rightarrow>
               invalid (str ''local node id already configured; call shutdown() before reconfiguring'') s
           | None \<Rightarrow>
               (case keystore_new L nid (proc s) of
                  (Ok store, w) \<Rightarrow> (RC_OK, s\<lparr>STORE := Some store, proc := w\<rparr>)
                | (Err e, w) \<Rightarrow>
                    fail (str ''could not create keystore: '' @ show_keystore_error e) (s\<lparr>proc := w\<rparr>))))"

definition shutdown_state :: "sodium_lib \<Rightarrow> session \<Rightarrow> session" where
  "shutdown_state L s =
     (let w = (case STORE s of None \<Rightarrow> proc s | Some store \<Rightarrow> keystore_drop L store (proc s)) in
      s\<lparr>STORE := None, proc := w, LAST_ERROR := [], counters := reset_log_once_memo (counters s)\<rparr>)"

definition lunet_paxe_shutdown :: "sodium_lib \<Rightarrow> session \<Rightarrow> session" where
  "lunet_paxe_shutdown L s = shutdown_state L s"

text \<open>The \<open>atexit\<close> callback, and normal termination, which runs the registered callbacks.\<close>

definition shutdown_at_exit :: "sodium_lib \<Rightarrow> session \<Rightarrow> session" where
  "shutdown_at_exit L s = shutdown_state L s"

definition process_exit :: "sodium_lib \<Rightarrow> session \<Rightarrow> session" where
  "process_exit L s = (shutdown_at_exit L ^^ exit_hooks (proc s)) s"

section \<open>Keystore operations\<close>

definition NOT_CONFIGURED :: ustr where
  "NOT_CONFIGURED = str ''local node id not configured: call set_local_id() first''"

definition lunet_paxe_keystore_set ::
  "sodium_lib \<Rightarrow> u32 \<Rightarrow> u32 \<Rightarrow> bytes option \<Rightarrow> nat \<Rightarrow> session \<Rightarrow> int \<times> session" where
  "lunet_paxe_keystore_set L peer ep key_ptr key_len s =
     (case check_u16 peer (str ''peer node id'') of
        Err m \<Rightarrow> invalid m s
      | Ok p \<Rightarrow>
          (case check_epoch ep of
             Err m \<Rightarrow> invalid m s
           | Ok e \<Rightarrow>
               (case buf_in key_ptr key_len (str ''key'') of
                  Err m \<Rightarrow> invalid m s
                | Ok key \<Rightarrow>
                    if length key \<noteq> KEYBYTES then
                      invalid (str ''key must be exactly '' @ show_nat KEYBYTES @ str '' bytes, got '' @
                        show_nat (length key)) s
                    else (case to_array KEYBYTES key of
                        None \<Rightarrow>
                          invalid (str ''key must be exactly '' @ show_nat KEYBYTES @ str '' bytes'') s
                      | Some material \<Rightarrow>
                          (case STORE s of
                             None \<Rightarrow> fail NOT_CONFIGURED s
                           | Some store \<Rightarrow>
                               (case install L p e material (proc s) store of
                                  (Ok _, w, store') \<Rightarrow> (RC_OK, s\<lparr>STORE := Some store', proc := w\<rparr>)
                                | (Err x, w, store') \<Rightarrow>
                                    fail (str ''could not install key: '' @ show_keystore_error x)
                                      (s\<lparr>STORE := Some store', proc := w\<rparr>)))))))"

definition lunet_paxe_keystore_retire :: "sodium_lib \<Rightarrow> u32 \<Rightarrow> u32 \<Rightarrow> session \<Rightarrow> int \<times> session" where
  "lunet_paxe_keystore_retire L peer ep s =
     (case check_u16 peer (str ''peer node id'') of
        Err m \<Rightarrow> invalid m s
      | Ok p \<Rightarrow>
          (case check_epoch ep of
             Err m \<Rightarrow> invalid m s
           | Ok e \<Rightarrow>
               (case STORE s of
                  None \<Rightarrow> fail NOT_CONFIGURED s
                | Some store \<Rightarrow>
                    (case retire L p e (proc s) store of
                       (found, w, store') \<Rightarrow>
                         (if found then RC_OK else RC_OK_ABSENT, s\<lparr>STORE := Some store', proc := w\<rparr>)))))"

definition lunet_paxe_keystore_clear :: "sodium_lib \<Rightarrow> session \<Rightarrow> int \<times> session" where
  "lunet_paxe_keystore_clear L s =
     (case STORE s of
        None \<Rightarrow> (RC_OK, s)
      | Some store \<Rightarrow>
          (case keystore_clear L (proc s) store of
             (w, store') \<Rightarrow> (RC_OK, s\<lparr>STORE := Some store', proc := w\<rparr>)))"

section \<open>Sealing and opening\<close>

text \<open>
  Outputs of a seal: the output region after the call and the length written through \<open>out_len\<close>,
  if it was written. \<open>len_null\<close> says that the length pointer is NULL.
\<close>

definition lunet_paxe_seal ::
  "sodium_lib \<Rightarrow> bytes option \<Rightarrow> nat \<Rightarrow> u32 \<Rightarrow> u32 \<Rightarrow> bytes option \<Rightarrow> nat \<Rightarrow> bool \<Rightarrow> session \<Rightarrow>
    ((int \<times> session) \<times> bytes \<times> nat option) option" where
  "lunet_paxe_seal L payload_ptr payload_len to ch out_ptr out_cap len_null s =
     (let out0 = (case out_ptr of None \<Rightarrow> [] | Some bs \<Rightarrow> take out_cap bs);
          stop = (\<lambda>r. Some (r, out0, None)) in
      case check_u16 to (str ''destination node id'') of
        Err m \<Rightarrow> stop (invalid m s)
      | Ok dest \<Rightarrow>
          (case check_channel ch of
             Err m \<Rightarrow> stop (invalid m s)
           | Ok chan \<Rightarrow>
               (case buf_in payload_ptr payload_len (str ''payload'') of
                  Err m \<Rightarrow> stop (invalid m s)
                | Ok payload \<Rightarrow>
                    if len_null then
                      stop (invalid (str ''frame length output pointer must not be null'') s)
                    else (case buf_out out_ptr out_cap (str ''frame output'') of
                        Err m \<Rightarrow> stop (invalid m s)
                      | Ok out \<Rightarrow>
                          if length payload > MAX_PAYLOAD then
                            stop (fail (str ''payload too large: '' @ show_nat (length payload) @
                              str '' bytes exceeds the standard-mode maximum of '' @ show_nat MAX_PAYLOAD)
                              (s\<lparr>counters := record_tx_oversize (counters s)\<rparr>))
                          else (case STORE s of
                              None \<Rightarrow> stop (fail NOT_CONFIGURED s)
                            | Some store \<Rightarrow>
                                (case key_for_send_current store dest of
                                   None \<Rightarrow>
                                     stop (fail (str ''no key installed for peer '' @ show_nat (unat dest) @
                                       str '' under any epoch'') s)
                                 | Some (e, _) \<Rightarrow>
                                     do {
                                       (r, w) \<leftarrow> dek_seal L store dest chan e payload (proc s);
                                       let s1 = s\<lparr>proc := w\<rparr>;
                                       (case r of
                                          Err x \<Rightarrow>
                                            stop (fail (str ''seal failed: '' @ show_dek_seal_error x) s1)
                                        | Ok frame \<Rightarrow>
                                            if length frame > length out then
                                              stop (invalid (str ''frame output buffer too small: need '' @
                                                show_nat (length frame) @ str '', have '' @
                                                show_nat (length out)) s1)
                                            else do {
                                              slot \<leftarrow> subslice_to (length frame) out;
                                              slot' \<leftarrow> copy_from_slice slot frame;
                                              Some ((RC_OK, s1\<lparr>counters :=
                                                  record_tx_sealed Standard (counters s1)\<rparr>),
                                                overwrite out slot', Some (length frame))
                                            })
                                     }))))))"

text \<open>Outputs of an open: the output region, and the four values written on success.\<close>

record opened =
  op_len :: nat
  op_from :: u32
  op_channel :: u32
  op_mode :: u32

definition lunet_paxe_open ::
  "sodium_lib \<Rightarrow> bytes option \<Rightarrow> nat \<Rightarrow> bytes option \<Rightarrow> nat \<Rightarrow> bool \<Rightarrow> session \<Rightarrow>
    ((int \<times> session) \<times> bytes \<times> opened option) option" where
  "lunet_paxe_open L frame_ptr frame_len out_ptr out_cap some_null s =
     (let out0 = (case out_ptr of None \<Rightarrow> [] | Some bs \<Rightarrow> take out_cap bs);
          stop = (\<lambda>r. Some (r, out0, None)) in
      case buf_in frame_ptr frame_len (str ''frame'') of
        Err m \<Rightarrow> stop (invalid m s)
      | Ok frame \<Rightarrow>
          if some_null then stop (invalid (str ''open: output pointers must not be null'') s)
          else (case buf_out out_ptr out_cap (str ''payload output'') of
              Err m \<Rightarrow> stop (invalid m s)
            | Ok out \<Rightarrow>
                (case STORE s of
                   None \<Rightarrow> stop (RC_DROP, s)
                 | Some store \<Rightarrow>
                     do {
                       (r, w, st) \<leftarrow> dek_open L store frame (proc s) (counters s);
                       let s1 = s\<lparr>proc := w, counters := st\<rparr>;
                       (case r of
                          Ok (h, f, plain) \<Rightarrow>
                            if length plain > length out then
                              stop (invalid (str ''payload output buffer too small: need '' @
                                show_nat (length plain) @ str '', have '' @ show_nat (length out)) s1)
                            else do {
                              slot \<leftarrow> subslice_to (length plain) out;
                              slot' \<leftarrow> copy_from_slice slot plain;
                              Some ((RC_OK, s1\<lparr>counters := record_rx_ok (counters s1)\<rparr>),
                                overwrite out slot',
                                Some \<lparr>op_len = length plain, op_from = ucast (from_id h),
                                  op_channel = channel h,
                                  op_mode = (case flags_mode f of Standard \<Rightarrow> 0 | Dek \<Rightarrow> 1)\<rparr>)
                            }
                        | Err (OpenSodium _) \<Rightarrow> stop (RC_DROP, s1)
                        | Err _ \<Rightarrow>
                            stop (RC_DROP, s1\<lparr>counters := record_rx_drop (counters s1)\<rparr>))
                     })))"

definition lunet_paxe_frame_for_us :: "bytes option \<Rightarrow> nat \<Rightarrow> session \<Rightarrow> int \<times> session" where
  "lunet_paxe_frame_for_us frame_ptr frame_len s =
     (case buf_in frame_ptr frame_len (str ''frame'') of
        Err m \<Rightarrow> invalid m s
      | Ok frame \<Rightarrow>
          (case STORE s of
             None \<Rightarrow> (0, s)
           | Some store \<Rightarrow>
               let dest = (case subslice 2 4 frame of
                             Some [b0, b1] \<Rightarrow> u16_from_be_bytes b0 b1
                           | _ \<Rightarrow> 0) in
               if length frame \<ge> PREFIX_LEN \<and> dest = ks_local_id store then (1, s)
               else (0, s\<lparr>counters := record_reject RPlaintext (record_rx_drop (counters s))\<rparr>)))"

section \<open>Counters, policy, last error, version\<close>

text \<open>\<open>out\<close> is the caller's array of \<open>u64\<close>; the first \<open>min cap count\<close> entries are replaced.\<close>

definition lunet_paxe_stats :: "u64 list option \<Rightarrow> nat \<Rightarrow> session \<Rightarrow> u32 \<times> u64 list option" where
  "lunet_paxe_stats out out_cap s =
     (let fields = stats_fields (snapshot (counters s));
          n = length fields in
      (of_nat n,
       (case out of
          None \<Rightarrow> None
        | Some xs \<Rightarrow>
            if out_cap > 0 then Some (overwrite xs (take (min n out_cap) fields)) else Some xs)))"

definition lunet_paxe_fail_policy_set :: "bytes option \<Rightarrow> nat \<Rightarrow> session \<Rightarrow> int \<times> session" where
  "lunet_paxe_fail_policy_set name_ptr name_len s =
     (case buf_in name_ptr name_len (str ''policy name'') of
        Err m \<Rightarrow> invalid m s
      | Ok bs \<Rightarrow>
          (case from_utf8 bs of
             None \<Rightarrow> invalid (str ''policy name must be UTF-8'') s
           | Some name \<Rightarrow>
               (case policy_from_name name of
                  Some p \<Rightarrow> (RC_OK, s\<lparr>counters := set_policy p (counters s)\<rparr>)
                | None \<Rightarrow>
                    invalid (str ''unknown failure policy '' @ [39] @ name @ [39] @
                      str '': must be silent, log_once or verbose'') s)))"

definition lunet_paxe_last_error :: "bool \<Rightarrow> session \<Rightarrow> bytes \<times> nat option" where
  "lunet_paxe_last_error len_null s =
     (LAST_ERROR s, if len_null then None else Some (length (LAST_ERROR s)))"

definition lunet_paxe_version :: bytes where
  "lunet_paxe_version = as_bytes (str ''0.3.2'') @ [0]"

section \<open>Calls\<close>

datatype call =
    Init "ustr option"
  | SetLocalId u32
  | Shutdown
  | KeystoreSet u32 u32 "bytes option" nat
  | KeystoreRetire u32 u32
  | KeystoreClear
  | Seal "bytes option" nat u32 u32 "bytes option" nat bool
  | Open "bytes option" nat "bytes option" nat bool
  | FrameForUs "bytes option" nat
  | FailPolicySet "bytes option" nat
  | Stats "u64 list option" nat
  | LastError bool
  | Version
  | OverheadStandard
  | OverheadDek
  | MaxPayloadStandard
  | MaxPayloadDek

text \<open>One call of any of the seventeen exported functions: the number it returns and the new state. Where the
  C function returns nothing the number is 0, and where it returns a pointer it is the number of bytes
  behind it. \<open>None\<close> is a panic: sealing and opening slice and copy buffers and call into code that
  does; the bodies of the other functions have no operation that can panic (they use \<open>get\<close>, fallible
  conversions and \<open>try_borrow\<close>), and their definitions are total.\<close>

fun exec :: "sodium_lib \<Rightarrow> (int \<Rightarrow> ustr) \<Rightarrow> call \<Rightarrow> session \<Rightarrow> (int \<times> session) option" where
  "exec L os (Init env) s = Some (lunet_paxe_init L env os s)"
| "exec L os (SetLocalId n) s = Some (lunet_paxe_set_local_id L n s)"
| "exec L os Shutdown s = Some (0, lunet_paxe_shutdown L s)"
| "exec L os (KeystoreSet p e k n) s = Some (lunet_paxe_keystore_set L p e k n s)"
| "exec L os (KeystoreRetire p e) s = Some (lunet_paxe_keystore_retire L p e s)"
| "exec L os KeystoreClear s = Some (lunet_paxe_keystore_clear L s)"
| "exec L os (Seal p n to ch out cap nul) s =
     map_option fst (lunet_paxe_seal L p n to ch out cap nul s)"
| "exec L os (Open f n out cap nul) s = map_option fst (lunet_paxe_open L f n out cap nul s)"
| "exec L os (FrameForUs f n) s = Some (lunet_paxe_frame_for_us f n s)"
| "exec L os (FailPolicySet p n) s = Some (lunet_paxe_fail_policy_set p n s)"
| "exec L os (Stats out cap) s = Some (uint (fst (lunet_paxe_stats out cap s)), s)"
| "exec L os (LastError nul) s = Some (int (length (fst (lunet_paxe_last_error nul s))), s)"
| "exec L os Version s = Some (int (length lunet_paxe_version), s)"
| "exec L os OverheadStandard s = Some (uint lunet_paxe_overhead_standard, s)"
| "exec L os OverheadDek s = Some (uint lunet_paxe_overhead_dek, s)"
| "exec L os MaxPayloadStandard s = Some (uint lunet_paxe_max_payload_standard, s)"
| "exec L os MaxPayloadDek s = Some (uint lunet_paxe_max_payload_dek, s)"

section \<open>The session invariant\<close>

definition store_ok :: "world \<Rightarrow> keystore option \<Rightarrow> bool" where
  "store_ok w st \<longleftrightarrow> (case st of None \<Rightarrow> heap w = [] | Some ks \<Rightarrow> ks_inv w ks)"

text \<open>Whatever was released, and every dropped data key, has been left as zeroes.\<close>

definition residue_ok :: "world \<Rightarrow> bool" where
  "residue_ok w \<longleftrightarrow> (\<forall>(_, r) \<in> set (released w). r = zeros KEYBYTES) \<and>
     (\<forall>d \<in> set (wiped w). d = zeros KEYBYTES)"

definition accounted :: "stats_state \<Rightarrow> bool" where
  "accounted st \<longleftrightarrow> unat (rx_total (STATS st)) = U64_MAX \<or> balanced st"

definition session_inv :: "session \<Rightarrow> bool" where
  "session_inv s \<longleftrightarrow> store_ok (proc s) (STORE s) \<and> residue_ok (proc s) \<and> stats_wf (counters s) \<and>
     accounted (counters s)"

lemma session_invD:
  assumes "session_inv s"
  shows "store_ok (proc s) (STORE s)" "residue_ok (proc s)" "stats_wf (counters s)" "accounted (counters s)"
  using assms by (simp_all add: session_inv_def)

lemma session_inv_start: "heap w = [] \<Longrightarrow> released w = [] \<Longrightarrow> wiped w = [] \<Longrightarrow> session_inv (session_start w)"
  by (simp add: session_inv_def session_start_def store_ok_def residue_ok_def accounted_def stats_init_wf)

lemma store_ok_cong: "heap w' = heap w \<Longrightarrow> store_ok w' st = store_ok w st"
  by (cases st) (simp_all add: store_ok_def ks_inv_heap [of w' w])

lemma residue_cong: "released w' = released w \<Longrightarrow> wiped w' = wiped w \<Longrightarrow> residue_ok w' = residue_ok w"
  by (simp add: residue_ok_def)

text \<open>Calls that only touch other parts of the process state.\<close>

lemma unat_saturating: "unat (saturating_add x y) = min (unat x + unat y) U64_MAX"
  unfolding U64_MAX_def by (rule unat_saturating_add)

lemma saturated_stays: "unat x = U64_MAX \<Longrightarrow> unat (saturating_add x y) = U64_MAX"
  by (simp add: unat_saturating)

lemma rx_total_le: "unat (x :: u64) = U64_MAX \<or> unat x < U64_MAX"
proof -
  have "unat x < Suc U64_MAX" using unsigned_less [where 'a = nat, of x] by (simp add: U64_MAX_def)
  then show ?thesis by (simp only: less_Suc_eq disj_commute)
qed

lemma accounted_rx_ok:
  assumes "accounted st"
  shows "accounted (record_rx_ok st)"
  using rx_total_le [of "rx_total (STATS st)"]
proof
  assume "unat (rx_total (STATS st)) = U64_MAX"
  then show ?thesis by (simp add: accounted_def record_rx_ok_def bump_def saturated_stays)
next
  assume lt: "unat (rx_total (STATS st)) < U64_MAX"
  with assms have "balanced st" by (auto simp: accounted_def)
  from balanced_rx_ok [OF this lt] show ?thesis by (simp add: accounted_def)
qed

lemma accounted_drop:
  assumes "stats_wf st" "accounted st"
  shows "accounted (record_rx_drop (record_reject r st))"
  using rx_total_le [of "rx_total (STATS st)"]
proof
  assume "unat (rx_total (STATS st)) = U64_MAX"
  then show ?thesis by (simp add: accounted_def record_rx_drop_def bump_def saturated_stays)
next
  assume lt: "unat (rx_total (STATS st)) < U64_MAX"
  with assms have "balanced st" by (auto simp: accounted_def)
  from balanced_reject_drop [OF assms(1) this lt] show ?thesis by (simp add: accounted_def)
qed

lemma drop_reject_commute: "STATS (record_reject r (record_rx_drop st)) = STATS (record_rx_drop (record_reject r st))"
  by (auto simp: record_reject_def record_rx_drop_def bump_def should_log_def emit_def Let_def
      split: fail_policy.splits)

lemma accounted_STATS: "STATS a = STATS b \<Longrightarrow> accounted a = accounted b"
  by (simp add: accounted_def balanced_def)

lemma accounted_other [simp]:
  "accounted (record_tx_sealed m st) \<longleftrightarrow> accounted st"
  "accounted (record_tx_oversize st) \<longleftrightarrow> accounted st"
  "accounted (set_policy p st) \<longleftrightarrow> accounted st"
  "accounted (reset_log_once_memo st) \<longleftrightarrow> accounted st"
  by (auto simp: accounted_def record_tx_sealed_def record_tx_oversize_def set_policy_def bump_def
      reset_log_once_memo_def Let_def balanced_def reject_total_def split: mode.splits)

section \<open>Every call keeps the invariant\<close>

lemma drop_counts:
  assumes "session_inv s"
  shows "session_inv (s\<lparr>counters := record_reject RPlaintext (record_rx_drop (counters s))\<rparr>)"
proof -
  note i = session_invD [OF assms]
  have "accounted (record_reject RPlaintext (record_rx_drop (counters s)))"
    using accounted_drop [OF i(3,4)] accounted_STATS [OF drop_reject_commute] by blast
  with i show ?thesis by (simp add: session_inv_def)
qed

definition later :: "session \<Rightarrow> session \<Rightarrow> bool" where
  "later s s' \<longleftrightarrow> stats_le (counters s) (counters s') \<and>
     (\<exists>new. released (proc s') = new @ released (proc s))"

lemma later_refl: "later s s"
  by (simp add: later_def)

lemma later_trans: "later s t \<Longrightarrow> later t u \<Longrightarrow> later s u"
  unfolding later_def by (metis append.assoc stats_le_trans)

text \<open>A step that leaves heap, releases and counters alone, up to the last-error buffer.\<close>

lemma quiet_step:
  assumes "session_inv s" "STORE s' = STORE s" "STATS (counters s') = STATS (counters s)"
    and "heap (proc s') = heap (proc s)" "released (proc s') = released (proc s)"
    and "wiped (proc s') = wiped (proc s)"
  shows "session_inv s' \<and> later s s'"
  using assms by (simp add: session_inv_def later_def store_ok_cong [of "proc s'" "proc s"]
      residue_cong [of "proc s'" "proc s"] accounted_STATS [OF assms(3)] stats_wf_def stats_le_def
      list_all2_refl)

lemma fail_quiet [simp]:
  "fst (fail m s) = RC_ERR" "fst (invalid m s) = RC_INVAL"
  "snd (fail m s) = s\<lparr>LAST_ERROR := as_bytes m\<rparr>" "snd (invalid m s) = s\<lparr>LAST_ERROR := as_bytes m\<rparr>"
  by (simp_all add: fail_def invalid_def set_last_error_def)

lemma last_error_inv [simp]:
  "session_inv (s\<lparr>LAST_ERROR := m\<rparr>) \<longleftrightarrow> session_inv s" "later s (t\<lparr>LAST_ERROR := m\<rparr>) \<longleftrightarrow> later s t"
  by (simp_all add: session_inv_def later_def)

lemma fail_eq [simp]:
  "fail m s = (rc, s') \<longleftrightarrow> rc = RC_ERR \<and> s' = s\<lparr>LAST_ERROR := as_bytes m\<rparr>"
  "invalid m s = (rc, s') \<longleftrightarrow> rc = RC_INVAL \<and> s' = s\<lparr>LAST_ERROR := as_bytes m\<rparr>"
  by (auto simp: fail_def invalid_def set_last_error_def)

lemma init_mem:
  "heap (snd (sodium_init L w)) = heap w" "released (snd (sodium_init L w)) = released w"
  "wiped (snd (sodium_init L w)) = wiped w"
  by (simp_all add: sodium_init_def Let_def)

lemma core_mem:
  "heap (snd (disable_core_dumps L w)) = heap w" "released (snd (disable_core_dumps L w)) = released w"
  "wiped (snd (disable_core_dumps L w)) = wiped w"
  by (simp_all add: disable_core_dumps_def Let_def)

lemma hook_mem:
  "heap (register_exit_hook L w) = heap w" "released (register_exit_hook L w) = released w"
  "wiped (register_exit_hook L w) = wiped w"
  by (simp_all add: register_exit_hook_def)

lemma init_step:
  assumes "session_inv s" "lunet_paxe_init L env os s = (rc, s')"
  shows "session_inv s' \<and> later s s'"
proof -
  define s1 where "s1 = (if core_dumps_allowed_by_env env then s
                else case disable_core_dumps L (proc s) of
                  (Err e, w) \<Rightarrow> warn_core_disable_failed (os e) (s\<lparr>proc := w\<rparr>)
                | (Ok _, w) \<Rightarrow> s\<lparr>proc := w\<rparr>)"
  have s1: "STORE s1 = STORE s" "STATS (counters s1) = STATS (counters s)" "heap (proc s1) = heap (proc s)"
    "released (proc s1) = released (proc s)" "wiped (proc s1) = wiped (proc s)"
    using core_mem [of L "proc s"]
    by (auto simp: s1_def warn_core_disable_failed_def split: prod.splits sum.splits)
  obtain r w where i: "sodium_init L (proc s1) = (r, w)" by fastforce
  have "STORE s' = STORE s \<and> STATS (counters s') = STATS (counters s) \<and> heap (proc s') = heap (proc s) \<and>
      released (proc s') = released (proc s) \<and> wiped (proc s') = wiped (proc s)"
    using assms(2) s1 i init_mem [of L "proc s1"] hook_mem [of L w]
    unfolding lunet_paxe_init_def s1_def [symmetric]
    by (auto simp: Let_def fail_def set_last_error_def split: sum.splits if_splits)
  then show ?thesis using quiet_step [OF assms(1)] by blast
qed

lemma set_local_id_step:
  assumes "session_inv s" "lunet_paxe_set_local_id L n s = (rc, s')"
  shows "session_inv s' \<and> later s s'"
proof (cases "\<exists>x. check_u16 n (str ''node id'') = Ok x \<and> STORE s = None")
  case False
  then show ?thesis
    using assms by (auto simp: lunet_paxe_set_local_id_def later_refl split: sum.splits option.splits)
next
  case True
  then obtain x where x: "check_u16 n (str ''node id'') = Ok x" "STORE s = None" by blast
  note inv = session_invD [OF assms(1)]
  have empty: "heap (proc s) = []" using inv(1) x(2) by (simp add: store_ok_def)
  obtain r w where i: "sodium_init L (proc s) = (r, w)" by fastforce
  note mem = init_mem [of L "proc s", unfolded i, simplified]
  show ?thesis
  proof (cases r)
    case (Inl e)
    have "session_inv (s\<lparr>proc := w\<rparr>) \<and> later s (s\<lparr>proc := w\<rparr>)"
      by (rule quiet_step [OF assms(1)]) (simp_all add: mem)
    then show ?thesis using assms(2) x i Inl
      by (auto simp: lunet_paxe_set_local_id_def keystore_new_def fail_def set_last_error_def)
  next
    case (Inr u)
    then have s': "s' = s\<lparr>STORE := Some \<lparr>ks_local_id = x, entries = []\<rparr>, proc := w\<rparr>"
      using assms(2) x i by (simp add: lunet_paxe_set_local_id_def keystore_new_def)
    have "ks_inv w \<lparr>ks_local_id = x, entries = []\<rparr>" by (rule ks_inv_fresh) (simp add: mem empty)
    then show ?thesis using inv mem
      by (simp add: s' session_inv_def store_ok_def later_def residue_cong [of w "proc s"])
  qed
qed

text \<open>Dropping keys and installing them: the released regions grow at the front, all zeroed.\<close>

lemma residue_more:
  assumes "residue_ok w" "released w' = new @ released w" "wiped w' = wiped w"
    and "\<forall>(_, r) \<in> set new. r = zeros KEYBYTES"
  shows "residue_ok w'"
  using assms unfolding residue_ok_def by auto

lemma stored_key_drop_wiped [simp]: "wiped (stored_key_drop L g w) = wiped w"
  by (simp add: stored_key_drop_def galloc_drop_def galloc_write_def Let_def)

lemma drop_all_wiped [simp]: "wiped (drop_all L gs w) = wiped w"
  unfolding drop_all_def by (induction gs arbitrary: w) simp_all

lemma stored_key_new_wiped: "stored_key_new L m w = (r, w') \<Longrightarrow> wiped w' = wiped w"
proof -
  have lock: "wiped w2 = wiped w1" if "mlock L b w1 = (r', w2)" for b r' w1 w2
    using mlock_frame [OF that] unfolding lock_frame_def by (metis world.ext_inject world.surjective world.update_convs(6,7))
  assume "stored_key_new L m w = (r, w')"
  then show ?thesis
    by (auto simp: stored_key_new_def galloc_new_def Let_def galloc_drop_def galloc_write_def
        split: option.splits prod.splits sum.splits dest!: lock)
qed

lemma install_wiped: "install L p e m w ks = (r, w', ks') \<Longrightarrow> wiped w' = wiped w"
  by (auto simp: install_def bt_insert_def split: if_splits prod.splits sum.splits option.splits
      dest!: stored_key_new_wiped)

lemma check_epoch_ok: "check_epoch v = Ok e \<Longrightarrow> epoch_ok e"
  by (auto simp: check_epoch_def epoch_new_def epoch_ok_def split: if_splits)

lemma keystore_set_step:
  assumes "memory_contract L" "session_inv s" "lunet_paxe_keystore_set L p e kp kl s = (rc, s')"
  shows "session_inv s' \<and> later s s'"
proof (cases "\<exists>q d k st. check_u16 p (str ''peer node id'') = Ok q \<and> check_epoch e = Ok d \<and>
    buf_in kp kl (str ''key'') = Ok k \<and> length k = KEYBYTES \<and> STORE s = Some st")
  case False
  with assms(2,3) show ?thesis
    by (auto simp: lunet_paxe_keystore_set_def later_refl split: sum.splits option.splits if_splits)
next
  case True
  then obtain q d k st where ok: "check_u16 p (str ''peer node id'') = Ok q" "check_epoch e = Ok d"
    "buf_in kp kl (str ''key'') = Ok k" "length k = KEYBYTES" "STORE s = Some st" by blast
  note inv = session_invD [OF assms(2)]
  obtain r w st' where ins: "install L q d k (proc s) st = (r, w, st')" by (metis prod_cases3)
  have ks: "ks_inv (proc s) st" using inv(1) ok(5) by (simp add: store_ok_def)
  note ref = install_refines [OF assms(1) ks check_epoch_ok [OF ok(2)] ok(4) ins]
  define s1 where "s1 = s\<lparr>STORE := Some st', proc := w\<rparr>"
  obtain new where new: "released w = new @ released (proc s)" "\<forall>(_, z) \<in> set new. z = zeros KEYBYTES"
    using ref by (cases r) (auto split: if_splits)
  have "session_inv s1 \<and> later s s1"
    using inv ref new residue_more [OF inv(2) new(1) install_wiped [OF ins] new(2)]
    by (simp add: s1_def session_inv_def store_ok_def later_def)
  moreover have "s' = s1 \<or> (\<exists>m. s' = s1\<lparr>LAST_ERROR := m\<rparr>)"
    using assms(3) ok ins by (cases r) (auto simp: lunet_paxe_keystore_set_def s1_def)
  ultimately show ?thesis by auto
qed

lemma keystore_retire_step:
  assumes "memory_contract L" "session_inv s" "lunet_paxe_keystore_retire L p e s = (rc, s')"
  shows "session_inv s' \<and> later s s'"
proof (cases "\<exists>q d st. check_u16 p (str ''peer node id'') = Ok q \<and> check_epoch e = Ok d \<and> STORE s = Some st")
  case False
  with assms(2,3) show ?thesis
    by (auto simp: lunet_paxe_keystore_retire_def later_refl split: sum.splits option.splits)
next
  case True
  then obtain q d st where ok: "check_u16 p (str ''peer node id'') = Ok q" "check_epoch e = Ok d"
    "STORE s = Some st" by blast
  note inv = session_invD [OF assms(2)]
  obtain r w st' where ret: "retire L q d (proc s) st = (r, w, st')" by (metis prod_cases3)
  have ks: "ks_inv (proc s) st" using inv(1) ok(3) by (simp add: store_ok_def)
  note ref = retire_refines [OF assms(1) ks ret]
  have wiped: "wiped w = wiped (proc s)"
    using ret by (auto simp: retire_def bt_remove_def split: option.splits)
  obtain new where new: "released w = new @ released (proc s)" "\<forall>(_, z) \<in> set new. z = zeros KEYBYTES"
    using ref by (cases r) auto
  have "s' = s\<lparr>STORE := Some st', proc := w\<rparr>"
    using assms(3) ok ret by (simp add: lunet_paxe_keystore_retire_def)
  then show ?thesis using inv ref new residue_more [OF inv(2) new(1) wiped new(2)]
    by (simp add: session_inv_def store_ok_def later_def)
qed

lemma cleared:
  assumes "memory_contract L" "session_inv s" "STORE s = Some st"
  defines "w \<equiv> drop_all L (map snd (entries st)) (proc s)"
  shows "heap w = [] \<and> residue_ok w \<and> (\<exists>new. released w = new @ released (proc s)) \<and>
    ks_inv w (st\<lparr>entries := []\<rparr>)"
proof -
  note inv = session_invD [OF assms(2)]
  have ks: "ks_inv (proc s) st" using inv(1) assms(3) by (simp add: store_ok_def)
  have "keystore_clear L (proc s) st = (w, st\<lparr>entries := []\<rparr>)" by (simp add: keystore_clear_def w_def)
  note c = clear_refines [OF assms(1) ks this]
  have "residue_ok w"
    by (rule residue_more [OF inv(2) conjunct2 [OF conjunct2 [OF conjunct2 [OF c]]]]) (auto simp: w_def)
  with c show ?thesis by auto
qed

lemma keystore_clear_step:
  assumes "memory_contract L" "session_inv s" "lunet_paxe_keystore_clear L s = (rc, s')"
  shows "session_inv s' \<and> later s s'"
proof (cases "STORE s")
  case None
  with assms show ?thesis by (simp add: lunet_paxe_keystore_clear_def later_refl)
next
  case (Some st)
  then show ?thesis
    using assms(3) cleared [OF assms(1,2) Some] session_invD [OF assms(2)]
    by (auto simp: lunet_paxe_keystore_clear_def keystore_clear_def session_inv_def store_ok_def later_def)
qed

lemma shutdown_step:
  assumes "memory_contract L" "session_inv s"
  shows "session_inv (shutdown_state L s) \<and> later s (shutdown_state L s)"
proof (cases "STORE s")
  case None
  with session_invD [OF assms(2)] show ?thesis
    by (auto simp: shutdown_state_def Let_def session_inv_def later_def store_ok_def stats_le_record)
next
  case (Some st)
  then show ?thesis
    using cleared [OF assms(1,2) Some] session_invD [OF assms(2)]
    by (auto simp: shutdown_state_def Let_def keystore_drop_def session_inv_def later_def store_ok_def
        stats_le_record)
qed

text \<open>A seal that passes the argument checks, in terms of the key and the frame.\<close>

lemma seal_checked:
  assumes "sodium_contract L" "session_inv s"
    and "check_u16 to (str ''destination node id'') = Ok dest" "check_channel ch = Ok chan"
    and "buf_in pp pl (str ''payload'') = Ok payload" "buf_out op cap (str ''frame output'') = Ok out"
    and "length payload \<le> MAX_PAYLOAD" "STORE s = Some store" "current (proc s) store dest = Some (e, key)"
  shows "lunet_paxe_seal L pp pl to ch op cap False s =
    (let w1 = (proc s)\<lparr>draws := Suc (draws (proc s))\<rparr>;
         frame = std_frame L key (ks_local_id store) dest chan e (x_random L (draws (proc s)) NPUBBYTES) payload in
     if length payload + OVERHEAD > length out then
       Some (invalid (str ''frame output buffer too small: need '' @ show_nat (length payload + OVERHEAD) @
         str '', have '' @ show_nat (length out)) (s\<lparr>proc := w1\<rparr>),
         (case op of None \<Rightarrow> [] | Some bs \<Rightarrow> take cap bs), None)
     else Some ((RC_OK, s\<lparr>proc := w1, counters := record_tx_sealed Standard (counters s)\<rparr>),
       overwrite out frame, Some (length payload + OVERHEAD)))"
proof -
  note L = sodium_contractD [OF assms(1)]
  have ks: "ks_inv (proc s) store"
    using session_invD(1) [OF assms(2)] assms(8) by (simp add: store_ok_def)
  have look: "lookup (proc s) store dest e = Some key" and k: "length key = KEYBYTES"
    using ks.newest_Some [of "(proc s, store)" dest e key] ks.newest_key [of "(proc s, store)" dest e key]
      ks assms(9) by simp_all
  obtain g where cur: "key_for_send_current store dest = Some (e, g)"
    using assms(9) by (auto simp: current_def)
  have n: "length (x_random L (draws (proc s)) NPUBBYTES) = NPUBBYTES"
    using L(3) by (simp add: random_contract_def)
  note len = length_std_frame [OF L(1) k n, of "ks_local_id store" dest chan e payload]
  show ?thesis
    using assms(3-8) len
    by (simp add: lunet_paxe_seal_def Let_def cur dek_seal_spec [OF assms(1) ks] look not_less)
qed

lemma seal_step:
  assumes "sodium_contract L" "session_inv s"
  shows "\<exists>rc s' out n. lunet_paxe_seal L pp pl to ch op cap nul s = Some ((rc, s'), out, n) \<and>
    session_inv s' \<and> later s s'"
proof (cases "\<exists>dest chan payload out store e key. \<not> nul \<and>
    check_u16 to (str ''destination node id'') = Ok dest \<and> check_channel ch = Ok chan \<and>
    buf_in pp pl (str ''payload'') = Ok payload \<and> buf_out op cap (str ''frame output'') = Ok out \<and>
    length payload \<le> MAX_PAYLOAD \<and> STORE s = Some store \<and> current (proc s) store dest = Some (e, key)")
  case True
  then obtain dest chan payload out store e key where ok: "\<not> nul"
    "check_u16 to (str ''destination node id'') = Ok dest" "check_channel ch = Ok chan"
    "buf_in pp pl (str ''payload'') = Ok payload" "buf_out op cap (str ''frame output'') = Ok out"
    "length payload \<le> MAX_PAYLOAD" "STORE s = Some store" "current (proc s) store dest = Some (e, key)"
    by blast
  define w1 where "w1 = (proc s)\<lparr>draws := Suc (draws (proc s))\<rparr>"
  have "session_inv (s\<lparr>proc := w1\<rparr>) \<and> later s (s\<lparr>proc := w1\<rparr>)"
    by (rule quiet_step [OF assms(2)]) (simp_all add: w1_def)
  moreover have "session_inv (s\<lparr>proc := w1, counters := record_tx_sealed Standard (counters s)\<rparr>) \<and>
      later s (s\<lparr>proc := w1, counters := record_tx_sealed Standard (counters s)\<rparr>)"
    using calculation by (simp add: session_inv_def later_def stats_le_record)
  ultimately show ?thesis
    using ok(1) seal_checked [OF assms ok(2-8)]
    by (simp add: Let_def w1_def [symmetric] invalid_def set_last_error_def)
next
  case False
  have over: "session_inv (s\<lparr>counters := record_tx_oversize (counters s)\<rparr>) \<and>
      later s (s\<lparr>counters := record_tx_oversize (counters s)\<rparr>)"
    using session_invD [OF assms(2)] by (simp add: session_inv_def later_def stats_le_record)
  show ?thesis
    using False over assms(2)
    by (auto simp: lunet_paxe_seal_def Let_def fail_def invalid_def set_last_error_def later_refl
        current_def not_less split: sum.splits option.splits prod.splits)
qed

lemma residue_wipe: "residue_ok w \<Longrightarrow> residue_ok (wipe_dek w)"
  by (simp add: residue_ok_def wipe_dek_def)

lemma open_core:
  assumes "sodium_contract L" "session_inv s" "STORE s = Some store"
    and "dek_open L store frame (proc s) (counters s) = Some (r, w, st)"
  shows "STORE s = Some store \<and> store_ok w (Some store) \<and> residue_ok w \<and> released w = released (proc s) \<and>
    stats_wf st \<and> stats_le (counters s) st \<and>
    (case r of Inl e \<Rightarrow> (\<forall>x. e \<noteq> OpenSodium x) \<and> accounted (record_rx_drop st) | Inr _ \<Rightarrow> st = counters s)"
proof -
  note L = sodium_contractD [OF assms(1)]
  note inv = session_invD [OF assms(2)]
  have ks: "ks_inv (proc s) store" using inv(1) assms(3) by (simp add: store_ok_def)
  note acc = dek_open_accounts [OF L(1,2) ks assms(4)]
  then have mem: "heap w = heap (proc s)" "released w = released (proc s)" "residue_ok w"
    using inv(2) residue_wipe by (auto simp: wipe_dek_def)
  show ?thesis
    using acc inv mem assms(3) store_ok_cong [OF mem(1), of "Some store"]
    by (cases r) (auto simp: stats_le_record accounted_drop)
qed

lemma open_step:
  assumes "sodium_contract L" "session_inv s"
  shows "\<exists>rc s' out n. lunet_paxe_open L fp fl op cap nul s = Some ((rc, s'), out, n) \<and>
    session_inv s' \<and> later s s'"
proof (cases "\<exists>frame out store. \<not> nul \<and> buf_in fp fl (str ''frame'') = Ok frame \<and>
    buf_out op cap (str ''payload output'') = Ok out \<and> STORE s = Some store")
  case False
  with assms(2) show ?thesis
    by (auto simp: lunet_paxe_open_def Let_def invalid_def set_last_error_def later_refl
        split: sum.splits option.splits)
next
  case True
  then obtain frame out store where ok: "\<not> nul" "buf_in fp fl (str ''frame'') = Ok frame"
    "buf_out op cap (str ''payload output'') = Ok out" "STORE s = Some store" by blast
  obtain r w st where d: "dek_open L store frame (proc s) (counters s) = Some (r, w, st)"
    using dek_open_no_panic [of L store frame "proc s" "counters s"] by auto
  note core = open_core [OF assms ok(4) d]
  note inv = session_invD [OF assms(2)]
  show ?thesis
  proof (cases r)
    case (Inl e)
    then have nosod: "\<forall>x. e \<noteq> OpenSodium x" using core by simp
    have "session_inv (s\<lparr>proc := w, counters := record_rx_drop st\<rparr>) \<and>
        later s (s\<lparr>proc := w, counters := record_rx_drop st\<rparr>)"
      using core Inl stats_le_trans [OF _ stats_le_record(3), of "counters s" st]
      by (simp add: session_inv_def later_def)
    then show ?thesis using ok d Inl nosod
      by (cases e) (simp_all add: lunet_paxe_open_def Let_def)
  next
    case (Inr x)
    obtain h f plain where x: "x = (h, f, plain)" by (metis prod_cases3)
    have a: "session_inv (s\<lparr>proc := w, counters := st\<rparr>) \<and> later s (s\<lparr>proc := w, counters := st\<rparr>)"
      using core Inr inv by (simp add: session_inv_def later_def)
    moreover have "session_inv (s\<lparr>proc := w, counters := record_rx_ok st\<rparr>) \<and>
        later s (s\<lparr>proc := w, counters := record_rx_ok st\<rparr>)"
      using core Inr inv by (simp add: session_inv_def later_def accounted_rx_ok stats_le_record)
    ultimately show ?thesis using ok d Inr x
      by (simp add: lunet_paxe_open_def Let_def invalid_def set_last_error_def not_less)
  qed
qed

lemma frame_for_us_step:
  assumes "session_inv s" "lunet_paxe_frame_for_us fp fl s = (rc, s')"
  shows "session_inv s' \<and> later s s'"
proof -
  have "s' = s \<or> (\<exists>m. s' = s\<lparr>LAST_ERROR := m\<rparr>) \<or>
      s' = s\<lparr>counters := record_reject RPlaintext (record_rx_drop (counters s))\<rparr>"
    using assms(2) by (auto simp: lunet_paxe_frame_for_us_def Let_def split: sum.splits option.splits if_splits)
  moreover have "later s (s\<lparr>counters := record_reject RPlaintext (record_rx_drop (counters s))\<rparr>)"
    using session_invD(3) [OF assms(1)]
    by (auto simp: later_def intro: stats_le_trans [OF stats_le_record(3) stats_le_record(1)])
  ultimately show ?thesis using assms(1) drop_counts later_refl by auto
qed

lemma fail_policy_step:
  assumes "session_inv s" "lunet_paxe_fail_policy_set np nl s = (rc, s')"
  shows "session_inv s' \<and> later s s'"
proof -
  have "s' = s \<or> (\<exists>m. s' = s\<lparr>LAST_ERROR := m\<rparr>) \<or> (\<exists>p. s' = s\<lparr>counters := set_policy p (counters s)\<rparr>)"
    using assms(2) by (auto simp: lunet_paxe_fail_policy_set_def split: sum.splits option.splits)
  moreover have "session_inv (s\<lparr>counters := set_policy p (counters s)\<rparr>) \<and>
      later s (s\<lparr>counters := set_policy p (counters s)\<rparr>)" for p
    using session_invD [OF assms(1)] by (simp add: session_inv_def later_def stats_le_record)
  ultimately show ?thesis using assms(1) later_refl by auto
qed

text \<open>The exported functions form a machine.\<close>

lemma exec_step:
  assumes "sodium_contract L" "session_inv s"
  shows "\<exists>rc s'. exec L os c s = Some (rc, s') \<and> session_inv s' \<and> later s s'"
proof -
  note M = sodium_contractD(2) [OF assms(1)]
  show ?thesis
  proof (cases c)
    case (Init x)
    then show ?thesis using init_step [OF assms(2)] by (cases "lunet_paxe_init L x os s") simp
  next
    case (SetLocalId x)
    then show ?thesis using set_local_id_step [OF assms(2)] by (cases "lunet_paxe_set_local_id L x s") simp
  next
    case Shutdown
    then show ?thesis using shutdown_step [OF M assms(2)] by (simp add: lunet_paxe_shutdown_def)
  next
    case (KeystoreSet p e k n)
    then show ?thesis using keystore_set_step [OF M assms(2)]
      by (cases "lunet_paxe_keystore_set L p e k n s") simp
  next
    case (KeystoreRetire p e)
    then show ?thesis using keystore_retire_step [OF M assms(2)]
      by (cases "lunet_paxe_keystore_retire L p e s") simp
  next
    case KeystoreClear
    then show ?thesis using keystore_clear_step [OF M assms(2)]
      by (cases "lunet_paxe_keystore_clear L s") simp
  next
    case (Seal p n to ch out cap nul)
    then show ?thesis using seal_step [OF assms, of p n to ch out cap nul] by auto
  next
    case (Open f n out cap nul)
    then show ?thesis using open_step [OF assms, of f n out cap nul] by auto
  next
    case (FrameForUs f n)
    then show ?thesis using frame_for_us_step [OF assms(2)] by (cases "lunet_paxe_frame_for_us f n s") simp
  next
    case (FailPolicySet p n)
    then show ?thesis using fail_policy_step [OF assms(2)] by (cases "lunet_paxe_fail_policy_set p n s") simp
  qed (simp_all add: assms(2) later_refl)
qed

text \<open>What \<open>include/paxe.h\<close> documents of each function: the codes it may return; or its value, as \<open>README.md\<close> and
  \<open>PAXE.md\<close> give the sizes.\<close>

fun documented_codes :: "call \<Rightarrow> int set" where
  "documented_codes (Init env) = {RC_OK, RC_ERR}"
| "documented_codes (SetLocalId n) = {RC_OK, RC_ERR, RC_INVAL}"
| "documented_codes Shutdown = {0}"
| "documented_codes (KeystoreSet p e k n) = {RC_OK, RC_ERR, RC_INVAL}"
| "documented_codes (KeystoreRetire p e) = {RC_OK, RC_OK_ABSENT, RC_ERR, RC_INVAL}"
| "documented_codes KeystoreClear = {RC_OK}"
| "documented_codes (Seal p n to ch out cap nul) = {RC_OK, RC_ERR, RC_INVAL}"
| "documented_codes (Open f n out cap nul) = {RC_OK, RC_DROP, RC_INVAL}"
| "documented_codes (FrameForUs f n) = {0, 1, RC_INVAL}"
| "documented_codes (FailPolicySet p n) = {RC_OK, RC_INVAL}"
| "documented_codes (Stats out cap) = {13}"
| "documented_codes (LastError nul) = {0..}"
| "documented_codes Version = {6}"
| "documented_codes OverheadStandard = {37}"
| "documented_codes OverheadDek = {97}"
| "documented_codes MaxPayloadStandard = {65470}"
| "documented_codes MaxPayloadDek = {65410}"

text \<open>A failure code comes with a message, any other outcome leaves the last message alone.\<close>

definition reported :: "session \<Rightarrow> int \<times> session \<Rightarrow> bool" where
  "reported s = (\<lambda>(rc, s'). if rc = RC_ERR \<or> rc = RC_INVAL then LAST_ERROR s' \<noteq> [] else LAST_ERROR s' = LAST_ERROR s)"

lemma as_bytes_empty [simp]: "as_bytes m = [] \<longleftrightarrow> m = []"
  by (cases m) (simp_all add: as_bytes_def utf8_char_def)

lemma reported_fail [simp]:
  "reported s (fail m s') \<longleftrightarrow> m \<noteq> []" "reported s (invalid m s') \<longleftrightarrow> m \<noteq> []"
  by (simp_all add: reported_def fail_def invalid_def set_last_error_def)

lemma reported_other [simp]:
  "reported s (RC_OK, s') \<longleftrightarrow> LAST_ERROR s' = LAST_ERROR s" "reported s (RC_DROP, s') \<longleftrightarrow> LAST_ERROR s' = LAST_ERROR s"
  "reported s (RC_OK_ABSENT, s') \<longleftrightarrow> LAST_ERROR s' = LAST_ERROR s"
  "0 \<le> n \<Longrightarrow> reported s (n, s') \<longleftrightarrow> LAST_ERROR s' = LAST_ERROR s"
  by (simp_all add: reported_def rc_defs)

lemma str_empty [simp]: "str s = [] \<longleftrightarrow> s = []"
  by (simp add: str_def)

lemma check_messages:
  "check_u16 v what = Err m \<Longrightarrow> m \<noteq> []" "check_epoch x = Err m \<Longrightarrow> m \<noteq> []" "check_channel x = Err m \<Longrightarrow> m \<noteq> []"
  "buf_in q n what = Err m \<Longrightarrow> m \<noteq> []" "buf_out q n what = Err m \<Longrightarrow> m \<noteq> []"
  by (auto simp: check_u16_def check_epoch_def epoch_message_def check_channel_def buf_in_def buf_out_def
      split: if_splits option.splits sum.splits)

lemmas call_splits = prod.split sum.split option.split

lemma init_reported: "reported s (lunet_paxe_init L env os s) \<and> fst (lunet_paxe_init L env os s) \<in> {RC_OK, RC_ERR}"
proof -
  define s1 where "s1 = (if core_dumps_allowed_by_env env then s
    else case disable_core_dumps L (proc s) of
        (Err e, w) \<Rightarrow> warn_core_disable_failed (os e) (s\<lparr>proc := w\<rparr>)
      | (Ok _, w) \<Rightarrow> s\<lparr>proc := w\<rparr>)"
  have "LAST_ERROR s1 = LAST_ERROR s"
    by (simp add: s1_def warn_core_disable_failed_def split: prod.split sum.split)
  then show ?thesis
    unfolding lunet_paxe_init_def Let_def s1_def [symmetric] by (simp split: prod.split sum.split)
qed

lemma set_local_id_reported:
  "reported s (lunet_paxe_set_local_id L n s) \<and> fst (lunet_paxe_set_local_id L n s) \<in> {RC_OK, RC_ERR, RC_INVAL}"
  by (auto simp: lunet_paxe_set_local_id_def dest: check_messages split: call_splits)

lemma keystore_set_reported:
  "reported s (lunet_paxe_keystore_set L p e k l s) \<and> fst (lunet_paxe_keystore_set L p e k l s) \<in> {RC_OK, RC_ERR, RC_INVAL}"
  by (auto simp: lunet_paxe_keystore_set_def NOT_CONFIGURED_def dest: check_messages split: call_splits)

lemma keystore_retire_reported:
  "reported s (lunet_paxe_keystore_retire L p e s) \<and>
    fst (lunet_paxe_keystore_retire L p e s) \<in> {RC_OK, RC_OK_ABSENT, RC_ERR, RC_INVAL}"
  by (auto simp: lunet_paxe_keystore_retire_def NOT_CONFIGURED_def dest: check_messages split: call_splits)

lemma keystore_clear_reported:
  "reported s (lunet_paxe_keystore_clear L s) \<and> fst (lunet_paxe_keystore_clear L s) = RC_OK"
  by (auto simp: lunet_paxe_keystore_clear_def split: call_splits)

lemma frame_for_us_reported:
  "reported s (lunet_paxe_frame_for_us k l s) \<and> fst (lunet_paxe_frame_for_us k l s) \<in> {0, 1, RC_INVAL}"
  by (auto simp: lunet_paxe_frame_for_us_def Let_def dest: check_messages split: call_splits)

lemma fail_policy_reported:
  "reported s (lunet_paxe_fail_policy_set k l s) \<and> fst (lunet_paxe_fail_policy_set k l s) \<in> {RC_OK, RC_INVAL}"
  by (auto simp: lunet_paxe_fail_policy_set_def dest: check_messages split: call_splits)

lemma seal_reported:
  assumes "lunet_paxe_seal L pp pl to ch op cap nul s = Some (r, out, n)"
  shows "reported s r \<and> fst r \<in> {RC_OK, RC_ERR, RC_INVAL}"
  using assms
  by (auto simp: lunet_paxe_seal_def Let_def NOT_CONFIGURED_def dest: check_messages
      split: sum.splits if_splits option.splits prod.splits Option.bind_splits)

lemma open_reported:
  assumes "lunet_paxe_open L fp fl op cap nul s = Some (r, out, n)"
  shows "reported s r \<and> fst r \<in> {RC_OK, RC_DROP, RC_INVAL}"
  using assms
  by (auto simp: lunet_paxe_open_def Let_def dest: check_messages
      split: sum.splits if_splits option.splits prod.splits Option.bind_splits open_error.splits)

lemma exec_reported:
  assumes "exec L os c s = Some (rc, s')"
  shows "rc \<in> documented_codes c \<and> (c \<noteq> Shutdown \<longrightarrow> reported s (rc, s'))"
proof (cases c)
  case (Init x)
  then show ?thesis using assms init_reported [of s L x os] by simp
next
  case (SetLocalId x)
  then show ?thesis using assms set_local_id_reported [of s L x] by simp
next
  case (KeystoreSet p e k n)
  then show ?thesis using assms keystore_set_reported [of s L p e k n] by simp
next
  case (KeystoreRetire p e)
  then show ?thesis using assms keystore_retire_reported [of s L p e] by simp
next
  case KeystoreClear
  then show ?thesis using assms keystore_clear_reported [of s L] by auto
next
  case (Seal p n to ch out cap nul)
  then show ?thesis using assms seal_reported [of L p n to ch out cap nul s] by fastforce
next
  case (Open f n out cap nul)
  then show ?thesis using assms open_reported [of L f n out cap nul s] by fastforce
next
  case (FrameForUs f n)
  then show ?thesis using assms frame_for_us_reported [of s f n] by simp
next
  case (FailPolicySet p n)
  then show ?thesis using assms fail_policy_reported [of s p n] by simp
next
  case (Stats out cap)
  then show ?thesis using assms by (auto simp: lunet_paxe_stats_def Let_def stats_fields_def)
qed (use assms in \<open>auto simp: lunet_paxe_version_def as_bytes_def str_def utf8_char_def lunet_paxe_overhead_standard_def
    lunet_paxe_overhead_dek_def lunet_paxe_max_payload_standard_def lunet_paxe_max_payload_dek_def
    OVERHEAD_37 DEK_OVERHEAD_def MAX_PAYLOAD_def DEK_MAX_PAYLOAD_def MAX_UDP_DATAGRAM_def\<close>)

interpretation api: machine "exec L os" "\<lambda>s. sodium_contract L \<and> session_inv s" later for L os
proof unfold_locales
  fix s c rc s'
  assume inv: "sodium_contract L \<and> session_inv s"
  then obtain rc1 s1 where e: "exec L os c s = Some (rc1, s1)" "session_inv s1" "later s s1"
    using exec_step [of L s os c] by blast
  then show "\<exists>r s'. exec L os c s = Some (r, s')" by blast
  show "(sodium_contract L \<and> session_inv s') \<and> later s s'" if "exec L os c s = Some (rc, s')"
    using that e inv by simp
qed (auto intro: later_refl later_trans)

end
