(* ===== verification/Stomp.thy ===== *)
theory Stomp
  imports Rust_Text
begin

text \<open>
  The client surface, \<open>src/src/bin/six-seven-server/stomp.rs\<close>: frames, their encoding with
  escaped headers, and the reader. A \<open>BufRead\<close> is its buffer and the results that future reads
  of the underlying stream will have; the end of that list is the end of the stream, as is a read
  of no bytes. The lemmas show that escaping is undone by unescaping and removes the separators,
  that one frame is decided by a bounded part of the stream whatever follows, and that whatever the
  pieces a frame arrives in, reading returns that frame and leaves exactly what follows. The list of
  reads stands for what a connection has delivered up to some moment; the statements about a frame do
  not depend on how it goes on. The depth of the call stack is not modelled: a frame of heart-beat
  filler makes \<open>read_frame\<close> call itself once more.
\<close>

section \<open>Frames\<close>

definition MAX_FRAME_BYTES :: nat where "MAX_FRAME_BYTES = 8 * 1024"

record frame =
  command :: ustr
  headers :: "(ustr \<times> ustr) list"
  body :: ustr

definition frame_header :: "frame \<Rightarrow> ustr \<Rightarrow> ustr option" where
  "frame_header f name = map_option snd (find (\<lambda>(k, _). k = name) (headers f))"

fun escape :: "ustr \<Rightarrow> ustr" where
  "escape [] = []"
| "escape (c # s) =
     (if c = 92 then [92, 92]
      else if c = 13 then [92, 114]
      else if c = 10 then [92, 110]
      else if c = 58 then [92, 99]
      else [c]) @ escape s"

fun unescape :: "ustr \<Rightarrow> ustr" where
  "unescape [] = []"
| "unescape (c # s) =
     (if c \<noteq> 92 then c # unescape s
      else case s of
        [] \<Rightarrow> [92]
      | d # t \<Rightarrow>
          (if d = 114 then [13]
           else if d = 110 then [10]
           else if d = 99 then [58]
           else if d = 92 then [92]
           else [92, d]) @ unescape t)"

text \<open>The text of a frame, and its bytes with the terminating NUL.\<close>

definition frame_text :: "ustr \<Rightarrow> (ustr \<times> ustr) list \<Rightarrow> ustr \<Rightarrow> ustr" where
  "frame_text cmd hs bd =
     cmd @ [10] @ concat (map (\<lambda>(k, v). escape k @ [58] @ escape v @ [10]) hs) @ [10] @ bd"

definition frame_encode :: "ustr \<Rightarrow> (ustr \<times> ustr) list \<Rightarrow> ustr \<Rightarrow> bytes" where
  "frame_encode cmd hs bd = as_bytes (frame_text cmd hs bd) @ [0]"

section \<open>The reader\<close>

datatype read_result = ReadData bytes | ReadInterrupted | ReadError ustr

record reader =
  buffered :: bytes
  source :: "read_result list"

datatype frame_error = EndMidFrame | FrameTooLong | NotUtf8 | ReadFailed ustr

datatype fill_result = Filled bytes | FillInterrupted | FillError ustr

text \<open>\<open>fill_buf\<close>: the buffer if it holds anything, or the result of one read into it.\<close>

definition fill_buf :: "reader \<Rightarrow> fill_result \<times> reader" where
  "fill_buf r =
     (if buffered r \<noteq> [] then (Filled (buffered r), r)
      else case source r of
        [] \<Rightarrow> (Filled [], r)
      | ReadData bs # rest \<Rightarrow> (Filled bs, r\<lparr>buffered := bs, source := rest\<rparr>)
      | ReadInterrupted # rest \<Rightarrow> (FillInterrupted, r\<lparr>source := rest\<rparr>)
      | ReadError e # rest \<Rightarrow> (FillError e, r\<lparr>source := rest\<rparr>))"

definition consume :: "nat \<Rightarrow> reader \<Rightarrow> reader" where
  "consume n r = r\<lparr>buffered := drop n (buffered r)\<rparr>"

text \<open>\<open>position(|b| b == 0)\<close>.\<close>

fun nul_position :: "bytes \<Rightarrow> nat option" where
  "nul_position [] = None"
| "nul_position (b # bs) = (if b = 0 then Some 0 else map_option Suc (nul_position bs))"

definition reader_size :: "reader \<Rightarrow> nat" where
  "reader_size r = 2 * length (source r) + (if buffered r = [] then 0 else 1)"

text \<open>The loop of \<open>read_frame\<close> up to the NUL: \<open>Ok None\<close> is a clean end of stream.\<close>

function read_raw :: "bytes \<Rightarrow> reader \<Rightarrow> (frame_error + bytes option) \<times> reader" where
  "read_raw raw r =
     (case fill_buf r of
        (FillInterrupted, r1) \<Rightarrow> read_raw raw r1
      | (FillError e, r1) \<Rightarrow> (Err (ReadFailed e), r1)
      | (Filled available, r1) \<Rightarrow>
          if available = [] then
            (if raw = [] then (Ok None, r1) else (Err EndMidFrame, r1))
          else (case nul_position available of
              Some n \<Rightarrow> (Ok (Some (raw @ take n available)), consume (n + 1) r1)
            | None \<Rightarrow>
                let raw' = raw @ available; r2 = consume (length available) r1 in
                if length raw' > MAX_FRAME_BYTES then (Err FrameTooLong, r2) else read_raw raw' r2))"
  by pat_completeness auto
termination
  by (relation "measure (\<lambda>(raw, r). reader_size r)")
    (auto simp: fill_buf_def consume_def reader_size_def split: if_splits list.splits read_result.splits)

declare read_raw.simps [simp del]

text \<open>What is made of the text of a frame.\<close>

definition parse_header_line :: "ustr \<Rightarrow> (ustr \<times> ustr) option" where
  "parse_header_line line0 =
     (let line = trim_end_matches (\<lambda>c. c = 13) line0 in
      if line = [] then None
      else map_option (\<lambda>(k, v). (unescape k, unescape v)) (split_once (\<lambda>c. c = 58) line))"

definition parse_frame :: "ustr \<Rightarrow> frame" where
  "parse_frame text =
     (let (head, bd) = (case split_once_str [10, 10] text of Some p \<Rightarrow> p | None \<Rightarrow> (text, []));
          lines = split_char 10 head in
      \<lparr>command = trim_end_matches (\<lambda>c. c = 13) (hd lines),
       headers = List.map_filter parse_header_line (tl lines),
       body = bd\<rparr>)"

text \<open>All bytes still to come.\<close>

fun read_bytes :: "read_result list \<Rightarrow> bytes" where
  "read_bytes [] = []"
| "read_bytes (ReadData bs # rest) = bs @ read_bytes rest"
| "read_bytes (_ # rest) = read_bytes rest"

definition stream_bytes :: "reader \<Rightarrow> bytes" where
  "stream_bytes r = buffered r @ read_bytes (source r)"

lemma nul_position_Some: "nul_position bs = Some n \<Longrightarrow> n < length bs \<and> bs ! n = 0 \<and> 0 \<notin> set (take n bs)"
proof (induction bs arbitrary: n)
  case (Cons b bs)
  then show ?case by (cases n) (auto split: if_splits)
qed simp

lemma nul_position_None: "nul_position bs = None \<longleftrightarrow> 0 \<notin> set bs"
  by (induction bs) auto

lemma fill_buf_Filled:
  "fill_buf r = (Filled a, r1) \<Longrightarrow>
    buffered r1 = a \<and> length (source r1) \<le> length (source r) \<and> stream_bytes r = a @ read_bytes (source r1)"
  by (auto simp: fill_buf_def stream_bytes_def split: if_splits list.splits read_result.splits)

lemma fill_buf_Interrupted:
  "fill_buf r = (FillInterrupted, r1) \<Longrightarrow>
    stream_bytes r1 = stream_bytes r \<and> length (source r1) < length (source r)"
  by (auto simp: fill_buf_def stream_bytes_def split: if_splits list.splits read_result.splits)

lemma consume_fields [simp]:
  "buffered (consume n r) = drop n (buffered r)" "source (consume n r) = source r"
  by (simp_all add: consume_def)

definition stream_size :: "reader \<Rightarrow> nat" where
  "stream_size r = length (stream_bytes r) + length (source r)"

lemma read_raw_shorter: "read_raw raw r = (Ok (Some text), r') \<Longrightarrow> stream_size r' < stream_size r"
proof (induction raw r rule: read_raw.induct)
  case (1 raw r)
  obtain f r1 where f: "fill_buf r = (f, r1)" by fastforce
  show ?case
  proof (cases f)
    case FillInterrupted
    have "read_raw raw r1 = (Ok (Some text), r')"
      using "1.prems" f FillInterrupted by (simp add: read_raw.simps [of raw r])
    from "1.IH"(2) [OF f [symmetric] FillInterrupted this] fill_buf_Interrupted [of r r1] f FillInterrupted
    show ?thesis by (simp add: stream_size_def)
  next
    case (FillError e)
    with "1.prems" f show ?thesis by (simp add: read_raw.simps [of raw r])
  next
    case (Filled a)
    note fb = fill_buf_Filled [OF f [unfolded Filled]]
    have ne: "a \<noteq> []" using "1.prems" f Filled by (auto simp: read_raw.simps [of raw r] split: if_splits)
    show ?thesis
    proof (cases "nul_position a")
      case (Some n)
      then have "r' = consume (n + 1) r1"
        using "1.prems" f Filled ne by (simp add: read_raw.simps [of raw r])
      then show ?thesis
        using fb nul_position_Some [OF Some] by (auto simp: stream_size_def stream_bytes_def [of "consume _ _"])
    next
      case None
      have small: "\<not> length (raw @ a) > MAX_FRAME_BYTES"
        and step: "read_raw (raw @ a) (consume (length a) r1) = (Ok (Some text), r')"
        using "1.prems" f Filled ne None by (auto simp: read_raw.simps [of raw r] Let_def split: if_splits)
      have "stream_size r' < stream_size (consume (length a) r1)"
        using "1.IH"(1) [OF f [symmetric] Filled ne None refl refl small] step by simp
      also have "\<dots> \<le> stream_size r"
        using fb by (simp add: stream_size_def stream_bytes_def [of "consume _ _"])
      finally show ?thesis .
    qed
  qed
qed

text \<open>
  \<open>read_frame\<close>. A frame of line breaks only is skipped and the next one read; the source does so
  by calling itself.
\<close>

function read_frame :: "reader \<Rightarrow> (frame_error + frame option) \<times> reader" where
  "read_frame r =
     (case read_raw [] r of
        (Err e, r1) \<Rightarrow> (Err e, r1)
      | (Ok None, r1) \<Rightarrow> (Ok None, r1)
      | (Ok (Some raw), r1) \<Rightarrow>
          (case from_utf8 raw of
             None \<Rightarrow> (Err NotUtf8, r1)
           | Some text0 \<Rightarrow>
               let text = dropWhile (\<lambda>c. c = 10 \<or> c = 13) text0 in
               if text = [] then read_frame r1 else (Ok (Some (parse_frame text)), r1)))"
  by pat_completeness auto
termination
  by (relation "measure stream_size") (auto dest: read_raw_shorter [OF sym])

declare read_frame.simps [simp del]

section \<open>Escapes\<close>

lemma unescape_escape [simp]: "unescape (escape s) = s"
  by (induction s) auto

lemma escape_clean: "c \<in> set (escape s) \<Longrightarrow> c \<noteq> 10 \<and> c \<noteq> 13 \<and> c \<noteq> 58"
  by (induction s) (auto split: if_splits)

lemma escape_no_nul: "0 \<notin> set s \<Longrightarrow> 0 \<notin> set (escape s)"
  by (induction s) auto

lemma escape_scalar: "list_all is_scalar s \<Longrightarrow> list_all is_scalar (escape s)"
  by (induction s) (auto simp: is_scalar_def)

interpretation escapes: coding "\<lambda>_. True" escape "\<lambda>s. Some (unescape s)"
  by unfold_locales simp

section \<open>Reading what was written\<close>

text \<open>A source without errors and empty reads: data in pieces of any size, and interruptions.\<close>

definition steady :: "reader \<Rightarrow> bool" where
  "steady r \<longleftrightarrow> (\<forall>x \<in> set (source r). (\<exists>bs. x = ReadData bs \<and> bs \<noteq> []) \<or> x = ReadInterrupted)"

lemma steady_consume [simp]: "steady (consume n r) = steady r"
  by (simp add: steady_def)

lemma fill_buf_steady:
  assumes "steady r" "stream_bytes r \<noteq> []" "fill_buf r = (f, r1)"
  shows "steady r1 \<and> (f = FillInterrupted \<or> (\<exists>a. f = Filled a \<and> a \<noteq> []))"
  using assms
  by (auto simp: fill_buf_def steady_def stream_bytes_def split: if_splits list.splits read_result.splits)

lemma nul_position_prefix:
  assumes "a @ t = msg @ 0 # rest" "0 \<notin> set msg"
  shows "nul_position a = (if length msg < length a then Some (length msg) else None) \<and>
    (length msg < length a \<longrightarrow> take (length msg) a = msg \<and> drop (Suc (length msg)) a @ t = rest) \<and>
    (\<not> length msg < length a \<longrightarrow> a = take (length a) msg \<and> t = drop (length a) msg @ 0 # rest)"
  using assms
proof (induction msg arbitrary: a)
  case Nil
  then show ?case by (cases a) auto
next
  case (Cons m msg)
  show ?case
  proof (cases a)
    case (Cons x xs)
    with Cons.prems have "x = m" "x \<noteq> 0" "xs @ t = msg @ 0 # rest" "0 \<notin> set msg" by auto
    with Cons.IH [of xs] Cons show ?thesis by simp
  qed (use Cons.prems in simp)
qed

lemma read_raw_complete:
  assumes "steady r" "stream_bytes r = msg @ 0 # rest" "0 \<notin> set msg" "length (raw @ msg) \<le> MAX_FRAME_BYTES"
  shows "\<exists>r'. read_raw raw r = (Ok (Some (raw @ msg)), r') \<and> steady r' \<and> stream_bytes r' = rest"
  using assms
proof (induction raw r arbitrary: msg rule: read_raw.induct)
  case (1 raw r)
  obtain f r1 where f: "fill_buf r = (f, r1)" by fastforce
  have st: "steady r1" "f = FillInterrupted \<or> (\<exists>a. f = Filled a \<and> a \<noteq> [])"
    using fill_buf_steady [OF "1.prems"(1) _ f] "1.prems"(2) by auto
  show ?case
  proof (cases "f = FillInterrupted")
    case True
    have "stream_bytes r1 = msg @ 0 # rest" using fill_buf_Interrupted f True "1.prems"(2) by metis
    from "1.IH"(2) [OF f [symmetric] True st(1) this "1.prems"(3,4)] f True
    show ?thesis by (simp add: read_raw.simps [of raw r])
  next
    case False
    then obtain a where a: "f = Filled a" "a \<noteq> []" using st(2) by blast
    note fb = fill_buf_Filled [OF f [unfolded a(1)]]
    define t where "t = read_bytes (source r1)"
    have split: "a @ t = msg @ 0 # rest" using fb "1.prems"(2) by (simp add: t_def)
    note np = nul_position_prefix [OF split "1.prems"(3)]
    show ?thesis
    proof (cases "length msg < length a")
      case True
      with np f a show ?thesis
        by (intro exI [of _ "consume (length msg + 1) r1"])
          (simp add: read_raw.simps [of raw r] st(1) stream_bytes_def [of "consume _ _"] fb t_def)
    next
      case False
      define rest_msg where "rest_msg = drop (length a) msg"
      have msg: "msg = a @ rest_msg" using np False by (simp add: rest_msg_def) (metis append_take_drop_id)
      have small: "\<not> length (raw @ a) > MAX_FRAME_BYTES" using "1.prems"(4) by (simp add: msg)
      have np': "nul_position a = None" using np False by simp
      have "stream_bytes (consume (length a) r1) = rest_msg @ 0 # rest"
        using np False by (simp add: stream_bytes_def fb t_def [symmetric] rest_msg_def)
      moreover have "0 \<notin> set rest_msg" "length ((raw @ a) @ rest_msg) \<le> MAX_FRAME_BYTES"
        using "1.prems"(3,4) by (simp_all add: msg)
      ultimately show ?thesis
        using "1.IH"(1) [OF f [symmetric] a(1,2) np' refl refl small] st(1) f a np' small
        by (simp add: read_raw.simps [of raw r] Let_def msg)
    qed
  qed
qed

text \<open>The text of a frame, taken apart.\<close>

lemma split_lines_step:
  assumes "10 \<notin> set l" "x \<noteq> 10"
  shows "split_once_str [10, 10] (l @ 10 # x # t) =
    map_option (\<lambda>(a, b). (l @ 10 # a, b)) (split_once_str [10, 10] (x # t))"
  using assms by (induction l) (auto simp: option.map_comp comp_def case_prod_unfold option.map_ident)

lemma split_lines_end: "10 \<notin> set l \<Longrightarrow> split_once_str [10, 10] (l @ 10 # 10 # t) = Some (l, t)"
  by (induction l) auto

lemma split_blank_line:
  assumes "10 \<notin> set l" "\<forall>x \<in> set ls. x \<noteq> [] \<and> 10 \<notin> set x"
  shows "split_once_str [10, 10] (l @ concat (map (\<lambda>x. 10 # x) ls) @ [10, 10] @ t) =
    Some (l @ concat (map (\<lambda>x. 10 # x) ls), t)"
  using assms
proof (induction ls arbitrary: l)
  case Nil
  then show ?case using split_lines_end [of l t] by simp
next
  case (Cons y ls)
  obtain c y' where y: "y = c # y'" "c \<noteq> 10" using Cons.prems(2) by (cases y) auto
  have "split_once_str [10, 10] (y @ concat (map (\<lambda>x. 10 # x) ls) @ [10, 10] @ t) =
      Some (y @ concat (map (\<lambda>x. 10 # x) ls), t)"
    using Cons.prems by (intro Cons.IH) auto
  with split_lines_step [OF Cons.prems(1) y(2), of "y' @ concat (map (\<lambda>x. 10 # x) ls) @ [10, 10] @ t"] y
  show ?case by simp
qed

lemma split_char_lines:
  assumes "10 \<notin> set l" "\<forall>x \<in> set ls. 10 \<notin> set x"
  shows "split_char 10 (l @ concat (map (\<lambda>x. 10 # x) ls)) = l # ls"
  using assms
proof (induction ls arbitrary: l)
  case (Cons y ls)
  then show ?case using split_char_append [of 10 l "y @ concat (map (\<lambda>x. 10 # x) ls)"] by simp
qed (simp add: split_char_none)

lemma trim_end_none: "s = [] \<or> \<not> p (last s) \<Longrightarrow> trim_end_matches p s = s"
  by (cases s rule: rev_cases) (auto simp: trim_end_matches_def)

definition header_line :: "ustr \<times> ustr \<Rightarrow> ustr" where
  "header_line h = escape (fst h) @ [58] @ escape (snd h)"

lemma header_line_clean: "header_line h \<noteq> []" "10 \<notin> set (header_line h)" "13 \<notin> set (header_line h)"
  using escape_clean by (auto simp: header_line_def)

lemma parse_written_header [simp]: "parse_header_line (header_line h) = Some h"
proof -
  have "last (header_line h) \<noteq> 13" using header_line_clean(1,3) last_in_set by metis
  then have t: "trim_end_matches (\<lambda>c. c = 13) (header_line h) = header_line h" by (intro trim_end_none) simp
  have "\<forall>c \<in> set (escape (fst h)). c \<noteq> 58" using escape_clean by blast
  then have "split_once (\<lambda>c. c = 58) (header_line h) = Some (escape (fst h), escape (snd h))"
    using split_once_append [of "escape (fst h)" "\<lambda>c. c = 58" 58] by (simp add: header_line_def)
  with t header_line_clean(1) show ?thesis by (simp add: parse_header_line_def Let_def)
qed

definition frame_ok :: "frame \<Rightarrow> bool" where
  "frame_ok f \<longleftrightarrow> command f \<noteq> [] \<and> 10 \<notin> set (command f) \<and> hd (command f) \<noteq> 13 \<and> last (command f) \<noteq> 13 \<and>
     list_all is_scalar (command f) \<and> 0 \<notin> set (command f) \<and>
     (\<forall>(k, v) \<in> set (headers f). list_all is_scalar k \<and> list_all is_scalar v \<and> 0 \<notin> set k \<and> 0 \<notin> set v) \<and>
     list_all is_scalar (body f) \<and> 0 \<notin> set (body f)"

abbreviation text_of :: "frame \<Rightarrow> ustr" where
  "text_of f \<equiv> frame_text (command f) (headers f) (body f)"

lemma frame_text_lines:
  "frame_text cmd hs bd = cmd @ concat (map (\<lambda>x. 10 # x) (map header_line hs)) @ [10, 10] @ bd"
proof -
  have "[10] @ concat (map (\<lambda>(k, v). escape k @ [58] @ escape v @ [10]) hs) =
      concat (map (\<lambda>x. 10 # x) (map header_line hs)) @ [10]"
    by (induction hs) (auto simp: header_line_def)
  then show ?thesis by (simp add: frame_text_def)
qed

lemma parse_frame_text:
  assumes "frame_ok f"
  shows "parse_frame (text_of f) = f"
proof -
  have cmd: "10 \<notin> set (command f)" "trim_end_matches (\<lambda>c. c = 13) (command f) = command f"
    using assms trim_end_none [of "command f" "\<lambda>c. c = 13"] by (simp_all add: frame_ok_def)
  have lines: "\<forall>x \<in> set (map header_line (headers f)). x \<noteq> [] \<and> 10 \<notin> set x"
    using header_line_clean by auto
  have hs: "List.map_filter parse_header_line (map header_line (headers f)) = headers f"
    by (simp add: List.map_filter_def comp_def)
  from split_blank_line [OF cmd(1) lines, of "body f"] split_char_lines [OF cmd(1), of "map header_line (headers f)"]
    lines
  show ?thesis unfolding parse_frame_def frame_text_lines by (simp add: Let_def cmd(2) hs del: map_map)
qed

lemma header_lines_scalar:
  assumes "\<forall>(k, v) \<in> set hs. list_all is_scalar k \<and> list_all is_scalar v \<and> 0 \<notin> set k \<and> 0 \<notin> set v"
  shows "list_all is_scalar (concat (map (\<lambda>(k, v). escape k @ [58] @ escape v @ [10]) hs)) \<and>
    0 \<notin> set (concat (map (\<lambda>(k, v). escape k @ [58] @ escape v @ [10]) hs))"
  using assms
proof (induction hs)
  case (Cons h hs)
  have "is_scalar 58" "is_scalar 10" by (simp_all add: is_scalar_def)
  with Cons show ?case by (auto simp: escape_scalar escape_no_nul)
qed simp

lemma frame_text_scalar:
  assumes "frame_ok f"
  shows "list_all is_scalar (text_of f)" "0 \<notin> set (text_of f)"
proof -
  have "is_scalar 10" by (simp add: is_scalar_def)
  moreover have "\<forall>(k, v) \<in> set (headers f). list_all is_scalar k \<and> list_all is_scalar v \<and> 0 \<notin> set k \<and> 0 \<notin> set v"
    using assms by (simp add: frame_ok_def)
  note header_lines_scalar [OF this]
  ultimately show "list_all is_scalar (text_of f)" "0 \<notin> set (text_of f)"
    using assms by (simp_all add: frame_ok_def frame_text_def)
qed

lemma mk_byte_nonzero: "0 < n \<Longrightarrow> n < 256 \<Longrightarrow> mk_byte n \<noteq> 0"
  using unat_mk_byte [of n] by (metis less_irrefl unsigned_0)

lemma as_bytes_no_nul:
  assumes "list_all is_scalar s" "0 \<notin> set s"
  shows "0 \<notin> set (as_bytes s)"
proof -
  have char: "0 \<notin> set (utf8_char c)" if "c \<noteq> 0" "is_scalar c" for c
  proof -
    have low: "mk_byte (128 + c div 64 mod 64) \<noteq> 0" "mk_byte (128 + c mod 64) \<noteq> 0" "mk_byte (128 + c div 4096 mod 64) \<noteq> 0"
      by (rule mk_byte_nonzero; simp add: less_diff_conv)+
    have "c < 0x110000" using that(2) by (auto simp: is_scalar_def)
    then have d3: "c div 262144 < 5" by (simp add: div_less_iff_less_mult)
    have d1: "c < 0x800 \<Longrightarrow> c div 64 < 32" and d2: "c < 0x10000 \<Longrightarrow> c div 4096 < 16"
      by (simp_all add: div_less_iff_less_mult)
    have "c < 0x80 \<Longrightarrow> mk_byte c \<noteq> 0" using that(1) mk_byte_nonzero [of c] by simp
    moreover have "c < 0x800 \<Longrightarrow> mk_byte (192 + c div 64) \<noteq> 0"
      using d1 mk_byte_nonzero [of "192 + x" for x] by auto
    moreover have "c < 0x10000 \<Longrightarrow> mk_byte (224 + c div 4096) \<noteq> 0"
      using d2 mk_byte_nonzero [of "224 + x" for x] by auto
    moreover have "mk_byte (240 + c div 262144) \<noteq> 0"
      using d3 mk_byte_nonzero [of "240 + x" for x] by auto
    moreover note low
    ultimately show ?thesis by (simp add: utf8_char_def)
  qed
  show ?thesis using assms by (induction s) (auto simp: char)
qed

lemma read_frame_complete:
  assumes "frame_ok f" "steady r"
    and "stream_bytes r = frame_encode (command f) (headers f) (body f) @ rest"
    and "str_len (text_of f) \<le> MAX_FRAME_BYTES"
  shows "\<exists>r'. read_frame r = (Ok (Some f), r') \<and> steady r' \<and> stream_bytes r' = rest"
proof -
  note t = frame_text_scalar [OF assms(1)]
  obtain r' where raw: "read_raw [] r = (Ok (Some (as_bytes (text_of f))), r')" "steady r'" "stream_bytes r' = rest"
    using read_raw_complete [OF assms(2), of "as_bytes (text_of f)" rest "[]"] assms(3,4) as_bytes_no_nul [OF t]
    by (auto simp: frame_encode_def str_len_def)
  obtain c cmd where c: "command f = c # cmd" "c \<noteq> 10" "c \<noteq> 13"
    using assms(1) by (cases "command f") (auto simp: frame_ok_def)
  then have "dropWhile (\<lambda>c. c = 10 \<or> c = 13) (text_of f) = text_of f" "text_of f \<noteq> []"
    by (simp_all add: frame_text_def)
  then have "read_frame r = (Ok (Some f), r')"
    using raw(1) from_utf8_as_bytes [OF t(1)] parse_frame_text [OF assms(1)] by (simp add: read_frame.simps [of r])
  with raw show ?thesis by blast
qed

text \<open>Filler between frames is skipped.\<close>

lemma read_frame_filler:
  assumes "set filler \<subseteq> {10, 13}" "length filler \<le> MAX_FRAME_BYTES" "steady r"
    and "stream_bytes r = map mk_byte filler @ 0 # rest"
  shows "\<exists>r'. read_frame r = read_frame r' \<and> steady r' \<and> stream_bytes r' = rest"
proof -
  have f: "map mk_byte filler = as_bytes filler" "list_all is_scalar filler" "0 \<notin> set filler"
    using assms(1) by (induction filler) (auto simp: utf8_char_def is_scalar_def)
  have len: "length (as_bytes filler) \<le> MAX_FRAME_BYTES" using assms(2) f(1) by (metis length_map)
  obtain r' where raw: "read_raw [] r = (Ok (Some (as_bytes filler)), r')" "steady r'" "stream_bytes r' = rest"
    using read_raw_complete [OF assms(3), of "as_bytes filler" rest "[]"] assms(4) f len as_bytes_no_nul [OF f(2,3)]
    by auto
  have "dropWhile (\<lambda>c. c = 10 \<or> c = 13) filler = []" using assms(1) by (auto simp: dropWhile_eq_Nil_conv)
  then have "read_frame r = read_frame r'"
    using raw(1) from_utf8_as_bytes [OF f(2)] by (simp add: read_frame.simps [of r])
  with raw show ?thesis by blast
qed

text \<open>Reading a frame that arrives in one piece is the inverse of encoding it.\<close>

definition frame_bytes :: "frame \<Rightarrow> bytes" where
  "frame_bytes f = frame_encode (command f) (headers f) (body f)"

definition read_one :: "bytes \<Rightarrow> frame option" where
  "read_one bs = (case read_frame \<lparr>buffered = bs, source = []\<rparr> of (Ok f, _) \<Rightarrow> f | _ \<Rightarrow> None)"

interpretation stomp_wire: coding "\<lambda>f. frame_ok f \<and> str_len (text_of f) \<le> MAX_FRAME_BYTES" frame_bytes read_one
proof
  fix f assume f: "frame_ok f \<and> str_len (text_of f) \<le> MAX_FRAME_BYTES"
  have "\<exists>r'. read_frame \<lparr>buffered = frame_bytes f, source = []\<rparr> = (Ok (Some f), r') \<and> steady r' \<and> stream_bytes r' = []"
    using f by (intro read_frame_complete) (auto simp: frame_bytes_def steady_def stream_bytes_def)
  then show "read_one (frame_bytes f) = Some f" by (auto simp: read_one_def)
qed

text \<open>How much the reader takes from the stream for one frame, on every outcome.\<close>

definition chunks_le :: "nat \<Rightarrow> reader \<Rightarrow> bool" where
  "chunks_le n r \<longleftrightarrow> length (buffered r) \<le> n \<and> (\<forall>bs. ReadData bs \<in> set (source r) \<longrightarrow> length bs \<le> n)"

text \<open>What was taken for a frame, against what is returned for it.\<close>

definition taken_for :: "(frame_error + bytes option) \<Rightarrow> bytes \<Rightarrow> bool" where
  "taken_for res taken \<longleftrightarrow>
     (case res of
        Ok (Some raw) \<Rightarrow> taken = raw @ [0] \<and> 0 \<notin> set raw
      | Ok None \<Rightarrow> taken = []
      | Err FrameTooLong \<Rightarrow> 0 \<notin> set taken \<and> MAX_FRAME_BYTES < length taken
      | Err _ \<Rightarrow> 0 \<notin> set taken \<and> length taken \<le> MAX_FRAME_BYTES)"

lemma fill_buf_chunks:
  assumes "chunks_le n r" "fill_buf r = (f, r1)"
  shows "chunks_le n r1 \<and> (\<forall>a. f = Filled a \<longrightarrow> length a \<le> n)"
  using assms by (auto simp: fill_buf_def chunks_le_def split: if_splits list.splits read_result.splits)

lemma fill_buf_Error:
  "fill_buf r = (FillError e, r1) \<Longrightarrow> stream_bytes r1 = stream_bytes r"
  by (auto simp: fill_buf_def stream_bytes_def split: if_splits list.splits read_result.splits)

lemma read_raw_takes:
  assumes "chunks_le n r" "length raw \<le> MAX_FRAME_BYTES" "0 \<notin> set raw" "read_raw raw r = (res, r')"
  shows "\<exists>t. stream_bytes r = t @ stream_bytes r' \<and> length (raw @ t) \<le> MAX_FRAME_BYTES + n \<and> taken_for res (raw @ t)"
  using assms
proof (induction raw r rule: read_raw.induct)
  case (1 raw r)
  obtain f r1 where f: "fill_buf r = (f, r1)" by fastforce
  note c = fill_buf_chunks [OF "1.prems"(1) f]
  show ?case
  proof (cases f)
    case FillInterrupted
    then have "read_raw raw r1 = (res, r')" "stream_bytes r1 = stream_bytes r"
      using "1.prems"(4) f fill_buf_Interrupted by (simp_all add: read_raw.simps [of raw r])
    with "1.IH"(2) [OF f [symmetric] FillInterrupted] "1.prems"(2,3) c show ?thesis by simp
  next
    case (FillError e)
    then have "res = Err (ReadFailed e)" "stream_bytes r' = stream_bytes r"
      using "1.prems"(4) f fill_buf_Error by (auto simp: read_raw.simps [of raw r])
    with "1.prems"(2,3) show ?thesis by (simp add: taken_for_def)
  next
    case (Filled a)
    note fb = fill_buf_Filled [OF f [unfolded Filled]]
    then have r1: "stream_bytes r1 = stream_bytes r" by (simp add: stream_bytes_def)
    have drop: "stream_bytes r = take k a @ stream_bytes (consume k r1)" if "k \<le> length a" for k
      using fb that by (simp add: stream_bytes_def append.assoc [symmetric])
    show ?thesis
    proof (cases "a = []")
      case True
      then have "r' = r1" "res = (if raw = [] then Ok None else Err EndMidFrame)"
        using "1.prems"(4) f Filled by (auto simp: read_raw.simps [of raw r] split: if_splits)
      with r1 "1.prems"(2,3) show ?thesis by (simp add: taken_for_def)
    next
      case ne: False
      show ?thesis
      proof (cases "nul_position a")
        case (Some k)
        then have "res = Ok (Some (raw @ take k a))" "r' = consume (k + 1) r1"
          using "1.prems"(4) f Filled ne by (auto simp: read_raw.simps [of raw r])
        moreover have "take (k + 1) a = take k a @ [0]" "0 \<notin> set (take k a)" "k < length a"
          using nul_position_Some [OF Some] by (simp_all add: take_Suc_conv_app_nth)
        ultimately show ?thesis using drop [of "k + 1"] c Filled "1.prems"(2,3)
          by (intro exI [of _ "take k a @ [0]"]) (auto simp: taken_for_def)
      next
        case None
        then have a: "0 \<notin> set a" by (simp add: nul_position_None)
        show ?thesis
        proof (cases "length (raw @ a) > MAX_FRAME_BYTES")
          case True
          then have "res = Err FrameTooLong" "r' = consume (length a) r1"
            using "1.prems"(4) f Filled ne None by (auto simp: read_raw.simps [of raw r] Let_def)
          then show ?thesis using drop [of "length a"] a c Filled "1.prems"(2,3) True
            by (intro exI [of _ a]) (auto simp: taken_for_def)
        next
          case small: False
          have step: "read_raw (raw @ a) (consume (length a) r1) = (res, r')"
            using "1.prems"(4) f Filled ne None small by (auto simp: read_raw.simps [of raw r] Let_def)
          have "chunks_le n (consume (length a) r1)" using c by (auto simp: chunks_le_def)
          from "1.IH"(1) [OF f [symmetric] Filled ne None refl refl small this _ _ step] small a "1.prems"(3)
          obtain t where "stream_bytes (consume (length a) r1) = t @ stream_bytes r'"
              "length (raw @ a @ t) \<le> MAX_FRAME_BYTES + n" "taken_for res (raw @ a @ t)" by auto
          then show ?thesis using drop [of "length a"] by (intro exI [of _ "a @ t"]) simp
        qed
      qed
    qed
  qed
qed

text \<open>On a connection that does not fail and still has data, none of the other errors is returned.\<close>

lemma read_raw_steady:
  assumes "steady r" "MAX_FRAME_BYTES < length (raw @ stream_bytes r)" "read_raw raw r = (res, r')"
    "length raw \<le> MAX_FRAME_BYTES"
  shows "res = Err FrameTooLong \<or> (\<exists>t. res = Ok (Some t))"
  using assms
proof (induction raw r rule: read_raw.induct)
  case (1 raw r)
  obtain f r1 where f: "fill_buf r = (f, r1)" by fastforce
  have data: "stream_bytes r \<noteq> []" using "1.prems"(2,4) by auto
  note st = fill_buf_steady [OF "1.prems"(1) data f]
  show ?case
  proof (cases "f = FillInterrupted")
    case True
    with "1.IH"(2) [OF f [symmetric]] "1.prems" f st fill_buf_Interrupted [of r r1] show ?thesis
      by (simp add: read_raw.simps [of raw r])
  next
    case False
    then obtain a where a: "f = Filled a" "a \<noteq> []" using st by blast
    note fb = fill_buf_Filled [OF f [unfolded a(1)]]
    show ?thesis
    proof (cases "nul_position a = None \<and> length (raw @ a) \<le> MAX_FRAME_BYTES")
      case True
      then have step: "read_raw (raw @ a) (consume (length a) r1) = (res, r')" and np: "nul_position a = None"
          and small: "\<not> length (raw @ a) > MAX_FRAME_BYTES"
        using "1.prems"(3) f a by (auto simp: read_raw.simps [of raw r] Let_def)
      have "MAX_FRAME_BYTES < length ((raw @ a) @ stream_bytes (consume (length a) r1))"
        using "1.prems"(2) fb stream_bytes_def [of "consume (length a) r1"] by simp
      with "1.IH"(1) [OF f [symmetric] a np refl refl small _ _ step] st small show ?thesis by simp
    next
      case False
      then show ?thesis using "1.prems"(3) f a
        by (auto simp: read_raw.simps [of raw r] Let_def split: option.splits if_splits)
    qed
  qed
qed

text \<open>When the pieces \<open>xs\<close> that arrived decide a frame: a NUL, more data than the limit, a failed read or
  an end of the stream. Until then the reader waits for more.\<close>

definition decides :: "bytes \<Rightarrow> read_result list \<Rightarrow> bool" where
  "decides b xs \<longleftrightarrow> 0 \<in> set (b @ read_bytes xs) \<or> MAX_FRAME_BYTES < length (b @ read_bytes xs) \<or>
     (\<exists>x \<in> set xs. x = ReadData [] \<or> (\<exists>e. x = ReadError e))"

lemma read_raw_buffered:
  "b \<noteq> [] \<Longrightarrow> read_raw raw \<lparr>buffered = b, source = ys\<rparr> =
    (case nul_position b of
       Some k \<Rightarrow> (Ok (Some (raw @ take k b)), \<lparr>buffered = drop (Suc k) b, source = ys\<rparr>)
     | None \<Rightarrow> if MAX_FRAME_BYTES < length (raw @ b) then (Err FrameTooLong, \<lparr>buffered = [], source = ys\<rparr>)
         else read_raw (raw @ b) \<lparr>buffered = [], source = ys\<rparr>)"
  by (subst read_raw.simps) (simp add: fill_buf_def consume_def Let_def split: option.split)

lemma read_raw_empty:
  "read_raw raw \<lparr>buffered = [], source = ReadInterrupted # ys\<rparr> = read_raw raw \<lparr>buffered = [], source = ys\<rparr>"
  "read_raw raw \<lparr>buffered = [], source = ReadError e # ys\<rparr> = (Err (ReadFailed e), \<lparr>buffered = [], source = ys\<rparr>)"
  "read_raw raw \<lparr>buffered = [], source = ReadData [] # ys\<rparr> =
    ((if raw = [] then Ok None else Err EndMidFrame), \<lparr>buffered = [], source = ys\<rparr>)"
  "b \<noteq> [] \<Longrightarrow> read_raw raw \<lparr>buffered = [], source = ReadData b # ys\<rparr> = read_raw raw \<lparr>buffered = b, source = ys\<rparr>"
  by (subst read_raw.simps, simp add: fill_buf_def)+

text \<open>A frame that is decided is returned without a look at what the stream does next.\<close>

definition settled :: "bytes \<Rightarrow> bytes \<Rightarrow> read_result list \<Rightarrow> bool" where
  "settled raw b xs \<longleftrightarrow> (\<exists>res b' ws zs. xs = ws @ zs \<and> (\<forall>ys.
     read_raw raw \<lparr>buffered = b, source = xs @ ys\<rparr> = (res, \<lparr>buffered = b', source = zs @ ys\<rparr>)))"

lemma settled_buffered:
  assumes "b \<noteq> []" "0 \<notin> set b \<Longrightarrow> length (raw @ b) \<le> MAX_FRAME_BYTES \<Longrightarrow> settled (raw @ b) [] xs"
  shows "settled raw b xs"
proof (cases "nul_position b")
  case (Some k)
  then show ?thesis using assms(1) unfolding settled_def
    by (intro exI [of _ "Ok (Some (raw @ take k b))"] exI [of _ "drop (Suc k) b"] exI [of _ "[]"] exI [of _ xs])
      (simp add: read_raw_buffered)
next
  case None
  then have clean: "0 \<notin> set b" by (simp add: nul_position_None)
  show ?thesis
  proof (cases "MAX_FRAME_BYTES < length (raw @ b)")
    case True
    then show ?thesis using assms(1) None unfolding settled_def
      by (intro exI [of _ "Err FrameTooLong"] exI [of _ "[]"] exI [of _ xs]) (simp add: read_raw_buffered)
  next
    case False
    then have "settled (raw @ b) [] xs" by (intro assms(2) clean) simp
    then show ?thesis using assms(1) None False by (simp add: settled_def read_raw_buffered)
  qed
qed

lemma settled_empty:
  assumes "decides raw xs" "length raw \<le> MAX_FRAME_BYTES" "0 \<notin> set raw"
  shows "settled raw [] xs"
  using assms
proof (induction xs arbitrary: raw)
  case (Cons x xs)
  have more: "settled raw [] (x # xs)" if "settled raw' b xs"
    "\<And>ys. read_raw raw \<lparr>buffered = [], source = x # ys\<rparr> = read_raw raw' \<lparr>buffered = b, source = ys\<rparr>" for raw' b
    using that unfolding settled_def by (metis append_Cons)
  have stop: "settled raw [] (x # xs)" if "\<And>ys. read_raw raw \<lparr>buffered = [], source = x # ys\<rparr> = (res, \<lparr>buffered = [], source = ys\<rparr>)" for res
    unfolding settled_def by (intro exI [of _ res] exI [of _ "[]"] exI [of _ "[x]"] exI [of _ xs]) (simp add: that)
  show ?case
  proof (cases x)
    case (ReadData b)
    show ?thesis
    proof (cases "b = []")
      case True
      then show ?thesis using ReadData by (intro stop) (simp add: read_raw_empty)
    next
      case False
      show ?thesis
      proof (rule more)
        show "settled raw b xs"
        proof (rule settled_buffered [OF False])
          assume "0 \<notin> set b" "length (raw @ b) \<le> MAX_FRAME_BYTES"
          with Cons.prems ReadData False show "settled (raw @ b) [] xs"
            by (intro Cons.IH) (auto simp: decides_def)
        qed
      qed (simp add: ReadData False read_raw_empty)
    qed
  next
    case ReadInterrupted
    then have "settled raw [] xs" using Cons.prems by (intro Cons.IH) (auto simp: decides_def)
    then show ?thesis by (rule more) (simp add: ReadInterrupted read_raw_empty)
  next
    case (ReadError e)
    then show ?thesis by (intro stop) (simp add: read_raw_empty)
  qed
qed (simp add: decides_def)

lemma read_raw_settled:
  assumes "decides b xs"
  shows "settled [] b xs"
proof (cases "b = []")
  case False
  then show ?thesis
  proof (rule settled_buffered)
    assume "0 \<notin> set b" "length ([] @ b) \<le> MAX_FRAME_BYTES"
    with assms show "settled ([] @ b) [] xs" by (simp add: settled_empty)
  qed
qed (use assms in \<open>simp add: settled_empty\<close>)

text \<open>The limit is not checked on the read that completes a frame, so a longer frame is accepted.\<close>

lemma nul_position_append: "0 \<notin> set a \<Longrightarrow> nul_position (a @ [0]) = Some (length a)"
  by (induction a) auto

lemma overlong_frame_accepted:
  "\<exists>r'. read_raw [] \<lparr>buffered = replicate 8000 65, source = [ReadData (replicate 1000 65 @ [0])]\<rparr> =
    (Ok (Some (replicate 8000 65 @ replicate 1000 65)), r')"
proof -
  have n: "nul_position (replicate k 65) = None" for k by (induction k) auto
  have e: "nul_position (replicate 1000 65 @ [0]) = Some 1000" by (subst nul_position_append) auto
  have ne: "replicate (8000 :: nat) (65 :: byte) \<noteq> []" by simp
  show ?thesis
    by (subst read_raw.simps, simp add: fill_buf_def ne n consume_def MAX_FRAME_BYTES_def,
        subst read_raw.simps, simp add: fill_buf_def e)
qed

section \<open>Properties\<close>

text \<open>C29. A frame that is written is read back, however it arrives: for a frame whose command is a plain
  non-empty line, whose texts hold no NUL and whose text is at most 8192 bytes, any stream that
  starts with its encoding, cut into pieces of any size and interrupted any number of times,
  yields exactly that frame, and what is left in the stream is exactly what followed it.\<close>

theorem stomp_roundtrip:
  assumes "frame_ok f" "str_len (frame_text (command f) (headers f) (body f)) \<le> MAX_FRAME_BYTES" "steady r"
    and "stream_bytes r = frame_encode (command f) (headers f) (body f) @ rest"
  shows "\<exists>r'. read_frame r = (Ok (Some f), r') \<and> steady r' \<and> stream_bytes r' = rest"
  using read_frame_complete [OF assms(1,3,4,2)] .

theorem stomp_roundtrip_witness:
  "\<exists>r'. read_frame \<lparr>buffered = [83], source = [ReadInterrupted, ReadData [69, 78, 68, 10, 107, 58], ReadData [118, 10, 10, 104, 0, 9]]\<rparr> =
      (Ok (Some \<lparr>command = str ''SEND'', headers = [(str ''k'', str ''v'')], body = str ''h''\<rparr>), r') \<and>
    steady r' \<and> stream_bytes r' = [9]"
  by (rule stomp_roundtrip)
    (auto simp: frame_ok_def is_scalar_def str_len_def frame_text_def MAX_FRAME_BYTES_def utf8_char_def
      steady_def stream_bytes_def frame_encode_def mk_byte_def)

text \<open>C37. What a client can make the node gather for one frame is bounded, on every outcome. If no read
  delivers more than \<open>n\<close> bytes, the loop takes at most \<open>8192 + n\<close> bytes from the stream before it
  returns: for a complete frame, its text without a NUL and the NUL; for an overlong one, more than
  8192 bytes without a NUL; for a stream that ends or fails inside a frame, at most 8192 bytes; for
  an ended stream, none. And a frame whose terminating NUL does not come is refused as too long: when
  more than 8192 bytes are sent without a NUL in the first \<open>8192 + n\<close>, on a connection that does not fail,
  the result is that error.\<close>

theorem frame_memory_bound:
  assumes "length (buffered r) \<le> n" "\<forall>bs. ReadData bs \<in> set (source r) \<longrightarrow> length bs \<le> n"
    and "read_raw [] r = (res, r')"
  shows "(\<exists>taken. stream_bytes r = taken @ stream_bytes r' \<and> length taken \<le> MAX_FRAME_BYTES + n \<and>
      (case res of
         Ok (Some raw) \<Rightarrow> taken = raw @ [0] \<and> 0 \<notin> set raw
       | Ok None \<Rightarrow> taken = []
       | Err FrameTooLong \<Rightarrow> 0 \<notin> set taken \<and> MAX_FRAME_BYTES < length taken
       | Err _ \<Rightarrow> 0 \<notin> set taken \<and> length taken \<le> MAX_FRAME_BYTES)) \<and>
    (steady r \<and> MAX_FRAME_BYTES < length (stream_bytes r) \<and> 0 \<notin> set (take (MAX_FRAME_BYTES + n) (stream_bytes r)) \<longrightarrow>
      res = Err FrameTooLong)"
proof -
  have c: "chunks_le n r" using assms(1,2) by (simp add: chunks_le_def)
  have "\<exists>taken. stream_bytes r = taken @ stream_bytes r' \<and> length taken \<le> MAX_FRAME_BYTES + n \<and> taken_for res taken"
    using read_raw_takes [OF c _ _ assms(3)] by simp
  then obtain taken where t: "stream_bytes r = taken @ stream_bytes r'" "length taken \<le> MAX_FRAME_BYTES + n" "taken_for res taken"
    by blast
  moreover have "res = Err FrameTooLong" if "steady r" "MAX_FRAME_BYTES < length (stream_bytes r)"
      "0 \<notin> set (take (MAX_FRAME_BYTES + n) (stream_bytes r))"
  proof -
    have "0 \<notin> set taken" using that(3) t(1,2) by (auto simp: take_append)
    moreover have "res \<noteq> Ok None \<and> res \<noteq> Err EndMidFrame \<and> res \<noteq> Err NotUtf8 \<and> (\<forall>e. res \<noteq> Err (ReadFailed e))"
      using read_raw_steady [OF that(1) _ assms(3)] that(2) by auto
    ultimately show ?thesis using t(3)
      by (auto simp: taken_for_def split: sum.splits option.splits frame_error.splits)
  qed
  ultimately show ?thesis unfolding taken_for_def by blast
qed

theorem frame_memory_bound_witness:
  "(\<exists>taken r'. read_raw [] \<lparr>buffered = [71, 0, 9], source = []\<rparr> = (Ok (Some [71]), r') \<and>
      [71, 0, 9] = taken @ stream_bytes r' \<and> taken = [71, 0]) \<and>
   fst (read_raw [] \<lparr>buffered = replicate 5000 65, source = [ReadInterrupted, ReadData (replicate 5000 65)]\<rparr>) =
     Err FrameTooLong"
proof
  have r: "read_raw [] \<lparr>buffered = [71, 0, 9], source = []\<rparr> = (Ok (Some [71]), \<lparr>buffered = [9], source = []\<rparr>)"
    by (simp add: read_raw.simps fill_buf_def consume_def)
  from frame_memory_bound [OF _ _ r, of 3] r
  show "\<exists>taken r'. read_raw [] \<lparr>buffered = [71, 0, 9], source = []\<rparr> = (Ok (Some [71]), r') \<and>
      [71, 0, 9] = taken @ stream_bytes r' \<and> taken = [71, 0]" by (auto simp: stream_bytes_def)
next
  let ?r = "\<lparr>buffered = replicate 5000 65, source = [ReadInterrupted, ReadData (replicate 5000 65)]\<rparr>"
  obtain res r' where r: "read_raw [] ?r = (res, r')" by fastforce
  from frame_memory_bound [OF _ _ r, of 5000] r show "fst (read_raw [] ?r) = Err FrameTooLong"
    by (auto simp: steady_def stream_bytes_def MAX_FRAME_BYTES_def)
qed

text \<open>C38. A frame is decided by a bounded part of the stream, however long the stream goes on. As soon as what
  has arrived holds a NUL, more than 8192 bytes, an end of the stream or an error, the loop returns:
  its result, the bytes it leaves in the buffer and the reads it leaves to come do not depend on what
  the connection delivers afterwards, nor on whether it ever ends.\<close>

theorem frame_decided_by_prefix:
  assumes "0 \<in> set (b @ read_bytes xs) \<or> MAX_FRAME_BYTES < length (b @ read_bytes xs) \<or>
    ReadData [] \<in> set xs \<or> (\<exists>e. ReadError e \<in> set xs)"
  shows "\<exists>res b' ws zs. xs = ws @ zs \<and> (\<forall>ys.
    read_raw [] \<lparr>buffered = b, source = xs @ ys\<rparr> = (res, \<lparr>buffered = b', source = zs @ ys\<rparr>))"
  using read_raw_settled [of b xs] assms unfolding decides_def settled_def by blast

theorem frame_decided_by_prefix_witness:
  "\<exists>res b' ws zs. [ReadInterrupted, ReadData [0, 9]] = ws @ zs \<and> (\<forall>ys.
    read_raw [] \<lparr>buffered = [71], source = [ReadInterrupted, ReadData [0, 9]] @ ys\<rparr> = (res, \<lparr>buffered = b', source = zs @ ys\<rparr>))"
  by (rule frame_decided_by_prefix) simp

end
