(* ===== verification/Kv.thy ===== *)
theory Kv
  imports Rust_Text Ordered_Map
begin

text \<open>
  The six-seven protocol, \<open>src/src/bin/six-seven-server/kv.rs\<close>: the placement rule, the request
  parser and the store of one node. \<open>plain\<close> is the Unicode table used by the debug rendering in
  error texts. The lemmas show that every key has exactly one home in a pair, that a request is
  parsed back verbatim, and that the store is a partial map with a cap on its size.
\<close>

section \<open>Placement\<close>

definition MAX_PUT_BYTES :: nat where "MAX_PUT_BYTES = 1024"

definition MAX_KEYS :: nat where "MAX_KEYS = 1000000"

definition owner :: "u64 \<Rightarrow> u16 \<Rightarrow> u16 \<Rightarrow> u16" where
  "owner key a b =
     (let (lower, higher) = (if a \<le> b then (a, b) else (b, a)) in
      if key mod 2 = 1 then lower else higher)"

section \<open>Operations and replies\<close>

datatype op = Get u64 | Put u64 ustr | Rm u64

datatype reply = Value ustr | ReplyOk | ReplyNil | ReplyErr ustr

fun op_key :: "op \<Rightarrow> u64" where
  "op_key (Get k) = k"
| "op_key (Rm k) = k"
| "op_key (Put k _) = k"

text \<open>The closure \<open>parse_key\<close> of \<open>Op::parse\<close>.\<close>

definition request_key :: "(nat \<Rightarrow> bool) \<Rightarrow> ustr \<Rightarrow> ustr + u64" where
  "request_key plain s0 =
     (let s = trim s0 in
      if s = [] then Err (str ''missing key'')
      else case parse_u64 s of
        None \<Rightarrow> Err (str ''key must be a u64, got '' @ debug_str plain s)
      | Some k \<Rightarrow> Ok k)"

definition op_parse :: "(nat \<Rightarrow> bool) \<Rightarrow> ustr \<Rightarrow> ustr + op" where
  "op_parse plain body0 =
     (let body = trim_start body0;
          (verb, rest) =
            (case split_once is_whitespace body of
               Some (v, r) \<Rightarrow> (v, trim_start r)
             | None \<Rightarrow> (body, []));
          v = to_ascii_uppercase verb in
      if v = str ''GET'' then
        (case request_key plain rest of Err e \<Rightarrow> Err e | Ok k \<Rightarrow> Ok (Get k))
      else if v = str ''RM'' \<or> v = str ''DEL'' then
        (case request_key plain rest of Err e \<Rightarrow> Err e | Ok k \<Rightarrow> Ok (Rm k))
      else if v = str ''PUT'' \<or> v = str ''SET'' then
        if str_len body > MAX_PUT_BYTES then
          Err (str ''put of '' @ show_nat (str_len body) @ str '' bytes exceeds the '' @
            show_nat MAX_PUT_BYTES @ str ''-byte limit'')
        else (case split_once is_whitespace rest of
            None \<Rightarrow> Err (str ''PUT needs a key and a value'')
          | Some (key, value) \<Rightarrow>
              (case request_key plain key of Err e \<Rightarrow> Err e | Ok k \<Rightarrow> Ok (Put k value)))
      else if v = [] then Err (str ''empty request'')
      else Err (str ''unknown verb '' @ debug_str plain v @ str ''; want GET, PUT or RM''))"

section \<open>The store\<close>

record kv_store =
  kv_entries :: "(u64, ustr) btree_map"

definition kv_default :: kv_store where
  "kv_default = \<lparr>kv_entries = []\<rparr>"

definition kv_len :: "kv_store \<Rightarrow> nat" where
  "kv_len st = length (kv_entries st)"

fun kv_execute :: "op \<Rightarrow> kv_store \<Rightarrow> reply \<times> kv_store" where
  "kv_execute (Get k) st =
     (case bt_get (kv_entries st) k of Some v \<Rightarrow> (Value v, st) | None \<Rightarrow> (ReplyNil, st))"
| "kv_execute (Rm k) st =
     (case bt_remove k (kv_entries st) of
        (Some _, m) \<Rightarrow> (ReplyOk, st\<lparr>kv_entries := m\<rparr>)
      | (None, m) \<Rightarrow> (ReplyNil, st\<lparr>kv_entries := m\<rparr>))"
| "kv_execute (Put k v) st =
     (if \<not> bt_contains_key (kv_entries st) k \<and> length (kv_entries st) \<ge> MAX_KEYS then
        (ReplyErr (str ''keyset estimate at the '' @ show_nat MAX_KEYS @
           str ''-key ceiling; refusing new keys''), st)
      else (ReplyOk, st\<lparr>kv_entries := snd (bt_insert k v (kv_entries st))\<rparr>))"

section \<open>Placement is a partition\<close>

lemma owner_commute: "owner k a b = owner k b a"
  by (auto simp: owner_def)

lemma owner_cases: "owner k a b = a \<or> owner k a b = b"
  by (auto simp: owner_def Let_def)

lemma owner_same [simp]: "owner k a a = a"
  by (simp add: owner_def)

section \<open>The store as a map\<close>

definition kv_inv :: "kv_store \<Rightarrow> bool" where
  "kv_inv st \<longleftrightarrow> bt_ok (kv_entries st) \<and> kv_len st \<le> MAX_KEYS"

definition kv_map :: "kv_store \<Rightarrow> u64 \<Rightarrow> ustr option" where
  "kv_map st = bt_get (kv_entries st)"

text \<open>What the store promises, on a plain map.\<close>

fun map_reply :: "op \<Rightarrow> (u64 \<rightharpoonup> ustr) \<Rightarrow> reply" where
  "map_reply (Get k) m = (case m k of Some v \<Rightarrow> Value v | None \<Rightarrow> ReplyNil)"
| "map_reply (Rm k) m = (if m k = None then ReplyNil else ReplyOk)"
| "map_reply (Put k v) m = ReplyOk"

fun map_effect :: "op \<Rightarrow> (u64 \<rightharpoonup> ustr) \<Rightarrow> (u64 \<rightharpoonup> ustr)" where
  "map_effect (Get k) m = m"
| "map_effect (Rm k) m = m(k := None)"
| "map_effect (Put k v) m = m(k \<mapsto> v)"

definition refuses :: "op \<Rightarrow> kv_store \<Rightarrow> bool" where
  "refuses x st \<longleftrightarrow> (\<exists>k v. x = Put k v \<and> kv_map st k = None \<and> kv_len st = MAX_KEYS)"

lemma kv_inv_default: "kv_inv kv_default"
  by (simp add: kv_inv_def kv_default_def kv_len_def)

lemma kv_refines:
  assumes "kv_inv st" "kv_execute x st = (r, st')"
  shows "kv_inv st' \<and>
    (if refuses x st then st' = st \<and> (\<exists>m. r = ReplyErr m)
     else r = map_reply x (kv_map st) \<and> kv_map st' = map_effect x (kv_map st))"
proof (cases x)
  case (Get k)
  then show ?thesis using assms by (auto simp: kv_map_def refuses_def split: option.splits)
next
  case (Rm k)
  then show ?thesis
    using assms bt_get_delete [of "kv_entries st" k] bt.capped_del [of "kv_entries st" MAX_KEYS k]
    by (auto simp: kv_map_def refuses_def bt_remove_def kv_inv_def kv_len_def bt_ok_delete split: option.splits)
next
  case (Put k v)
  have ok: "bt_ok (kv_entries st)" "length (kv_entries st) \<le> MAX_KEYS"
    using assms(1) by (simp_all add: kv_inv_def kv_len_def)
  show ?thesis
  proof (cases "refuses x st")
    case True
    then show ?thesis using assms Put
      by (auto simp: refuses_def kv_map_def kv_len_def bt_contains_key_def)
  next
    case False
    with ok(2) Put have room: "bt_get (kv_entries st) k \<noteq> None \<or> length (kv_entries st) < MAX_KEYS"
      by (auto simp: refuses_def kv_map_def kv_len_def)
    then have "r = ReplyOk" "st' = st\<lparr>kv_entries := bt_put k v (kv_entries st)\<rparr>"
      using assms(2) Put by (auto simp: bt_contains_key_def bt_insert_def split: if_splits)
    with False Put bt.capped_put [OF ok room, of v] bt_ok_put [OF ok(1)] show ?thesis
      by (simp add: kv_map_def kv_inv_def kv_len_def bt_get_put)
  qed
qed

lemma kv_keys: "k \<in> fst ` set (kv_entries st) \<longleftrightarrow> kv_map st k \<noteq> None"
  by (simp add: kv_map_def bt_get_None)

text \<open>Executing an operation touches no other key.\<close>

lemma kv_other_keys:
  assumes "kv_inv st" "kv_execute x st = (r, st')" "k \<noteq> op_key x"
  shows "kv_map st' k = kv_map st k"
  using kv_refines [OF assms(1,2)] assms(3) by (cases x) (auto split: if_splits)

section \<open>Requests\<close>

lemma upper_verbs:
  "to_ascii_uppercase (str ''GET'') = str ''GET''" "to_ascii_uppercase (str ''PUT'') = str ''PUT''"
  "to_ascii_uppercase (str ''RM'') = str ''RM''"
  by (simp_all add: to_ascii_uppercase_def ascii_upper_def)

lemma verb_split:
  assumes "\<forall>c \<in> set verb. \<not> is_whitespace c" "verb \<noteq> []"
  shows "trim_start (verb @ [32] @ rest) = verb @ [32] @ rest"
    and "split_once is_whitespace (verb @ [32] @ rest) = Some (verb, rest)"
proof -
  show "trim_start (verb @ [32] @ rest) = verb @ [32] @ rest"
    using assms by (intro trim_start_none) (cases verb; simp)
  have "is_whitespace 32" by (simp add: is_whitespace_def)
  from split_once_append [OF assms(1) this, of rest]
  show "split_once is_whitespace (verb @ [32] @ rest) = Some (verb, rest)" by simp
qed

lemma verbs_plain:
  "\<forall>c \<in> set (str ''GET''). \<not> is_whitespace c" "\<forall>c \<in> set (str ''PUT''). \<not> is_whitespace c"
  "\<forall>c \<in> set (str ''RM''). \<not> is_whitespace c"
  by (simp_all add: is_whitespace_def)

lemma request_key_show [simp]: "request_key plain (show_u64 k) = Ok k"
  by (simp add: request_key_def Let_def show_u64_def) (simp add: show_u64_def [symmetric])

lemma trim_start_key: "trim_start (show_u64 k @ s) = show_u64 k @ s"
  by (simp add: show_u64_def)

lemma key_value_split: "split_once is_whitespace (show_u64 k @ [32] @ v) = Some (show_u64 k, v)"
proof -
  have "\<forall>c \<in> set (show_u64 k). \<not> is_whitespace c" by (simp add: show_u64_def show_nat_no_space)
  moreover have "is_whitespace 32" by (simp add: is_whitespace_def)
  ultimately show ?thesis using split_once_append [of "show_u64 k" is_whitespace 32 v] by simp
qed

section \<open>Properties\<close>

text \<open>Every key has exactly one home in a pair: both nodes compute the same owner whichever order
  they name the pair in, odd keys belong to the lower-numbered node and even keys to the higher,
  so that for two different nodes exactly one of them takes a key for its own.\<close>

lemma placement_partition:
  assumes "a < b"
  shows "owner k a b = owner k b a \<and> (owner k a b = a \<longleftrightarrow> odd (unat k)) \<and> (owner k b a = b \<longleftrightarrow> even (unat k))"
proof -
  have "k mod 2 = 1 \<longleftrightarrow> odd (unat k)"
    by (simp add: word_unat_eq_iff unat_mod_distrib odd_iff_mod_2_eq_one)
  then show ?thesis using assms owner_commute [of k a b] by (auto simp: owner_def Let_def)
qed

text \<open>Requests are taken verbatim: a \<open>GET\<close> or \<open>RM\<close> with a printed key is parsed to that key, and a
  \<open>PUT\<close> of at most 1024 bytes to that key and to every character after the separating space,
  leading and trailing blanks, newlines and the empty value included; a longer one is refused.\<close>

lemma request_verbatim:
  shows "op_parse plain (str ''GET '' @ show_u64 k) = Ok (Get k) \<and>
    op_parse plain (str ''RM '' @ show_u64 k) = Ok (Rm k) \<and>
    (if str_len (str ''PUT '' @ show_u64 k @ [32] @ v) \<le> MAX_PUT_BYTES
      then op_parse plain (str ''PUT '' @ show_u64 k @ [32] @ v) = Ok (Put k v)
      else \<exists>m. op_parse plain (str ''PUT '' @ show_u64 k @ [32] @ v) = Err m)"
proof -
  have verb: "str ''GET '' = str ''GET'' @ [32]" "str ''RM '' = str ''RM'' @ [32]" "str ''PUT '' = str ''PUT'' @ [32]"
    by simp_all
  have ne: "str ''GET'' \<noteq> []" "str ''PUT'' \<noteq> []" "str ''RM'' \<noteq> []"
    and diff: "str ''RM'' \<noteq> str ''GET''" "str ''PUT'' \<noteq> str ''GET''" "str ''PUT'' \<noteq> str ''RM''" "str ''PUT'' \<noteq> str ''DEL''"
    by simp_all
  note split = verb_split [OF verbs_plain(1) ne(1)] verb_split [OF verbs_plain(2) ne(2)] verb_split [OF verbs_plain(3) ne(3)]
  have key: "trim_start (show_u64 k) = show_u64 k" using trim_start_key [of k "[]"] by simp
  have "op_parse plain (str ''GET '' @ show_u64 k) = Ok (Get k)"
    unfolding verb append_assoc op_parse_def Let_def split option.case prod.case key upper_verbs by simp
  moreover have "op_parse plain (str ''RM '' @ show_u64 k) = Ok (Rm k)"
    unfolding verb append_assoc op_parse_def Let_def split option.case prod.case key upper_verbs
    using diff by (simp del: str_simps)
  moreover have "if str_len (str ''PUT '' @ show_u64 k @ [32] @ v) \<le> MAX_PUT_BYTES
      then op_parse plain (str ''PUT '' @ show_u64 k @ [32] @ v) = Ok (Put k v)
      else \<exists>m. op_parse plain (str ''PUT '' @ show_u64 k @ [32] @ v) = Err m"
    unfolding verb append_assoc op_parse_def Let_def split option.case prod.case trim_start_key upper_verbs key_value_split
    using diff by (simp del: str_simps add: not_less)
  ultimately show ?thesis by simp
qed

text \<open>C36. The store of a node is a partial map with a cap: every operation answers and acts as on a plain
  map from keys to values, except that a new key is refused, with nothing changed, when a million
  keys are present; overwriting is never refused and the cap is never exceeded.\<close>

theorem kv_store_implements_map:
  assumes "kv_inv st" "kv_execute x st = (r, st')"
  shows "kv_inv st' \<and> kv_len st' \<le> MAX_KEYS \<and>
    (if \<exists>k v. x = Put k v \<and> kv_map st k = None \<and> kv_len st = MAX_KEYS
     then st' = st \<and> (\<exists>m. r = ReplyErr m)
     else r = map_reply x (kv_map st) \<and> kv_map st' = map_effect x (kv_map st))"
  using kv_refines [OF assms] by (simp add: refuses_def kv_inv_def)

theorem kv_store_implements_map_witness:
  "\<exists>st'. kv_execute (Put 68 (str ''six seven'')) kv_default = (ReplyOk, st') \<and>
    kv_map st' = (kv_map kv_default)(68 \<mapsto> str ''six seven'')"
proof -
  obtain r st' where x: "kv_execute (Put 68 (str ''six seven'')) kv_default = (r, st')" by fastforce
  have "kv_len kv_default \<noteq> MAX_KEYS" by (simp add: kv_default_def kv_len_def MAX_KEYS_def)
  with kv_store_implements_map [OF kv_inv_default x] x show ?thesis by simp
qed

end
