(* ===== verification/Peer_Message.thy ===== *)
theory Peer_Message
  imports Kv
begin

text \<open>
  The node-to-node payload, \<open>src/src/bin/six-seven-server/peer.rs\<close>: requests and responses with a
  correlation id as one text. The lemmas show that decoding undoes encoding for every message,
  whatever text its values and error messages hold.
\<close>

datatype peer = Request u64 op | Response u64 reply

definition peer_key :: "(nat \<Rightarrow> bool) \<Rightarrow> ustr \<Rightarrow> ustr + u64" where
  "peer_key plain s =
     (case parse_u64 (trim s) of
        None \<Rightarrow> Err (str ''key must be a u64, got '' @ debug_str plain s)
      | Some k \<Rightarrow> Ok k)"

fun op_text :: "op \<Rightarrow> ustr" where
  "op_text (Get k) = str ''GET '' @ show_u64 k"
| "op_text (Rm k) = str ''RM '' @ show_u64 k"
| "op_text (Put k v) = str ''PUT '' @ show_u64 k @ [32] @ v"

fun reply_text :: "reply \<Rightarrow> ustr" where
  "reply_text (Value v) = str ''VAL '' @ v"
| "reply_text ReplyOk = str ''OK''"
| "reply_text ReplyNil = str ''NIL''"
| "reply_text (ReplyErr e) = str ''ERR '' @ e"

fun peer_encode :: "peer \<Rightarrow> ustr" where
  "peer_encode (Request corr x) = str ''REQ '' @ show_u64 corr @ [32] @ op_text x"
| "peer_encode (Response corr r) = str ''RSP '' @ show_u64 corr @ [32] @ reply_text r"

text \<open>\<open>split_once(' ')\<close> with the whole text and an empty rest when there is no space.\<close>

definition split_or_whole :: "ustr \<Rightarrow> ustr \<times> ustr" where
  "split_or_whole s = (case split_once (\<lambda>c. c = 32) s of Some p \<Rightarrow> p | None \<Rightarrow> (s, []))"

definition decode_request :: "(nat \<Rightarrow> bool) \<Rightarrow> u64 \<Rightarrow> ustr \<Rightarrow> ustr + peer" where
  "decode_request plain corr rest =
     (let (verb, tail) = split_or_whole rest;
          v = to_ascii_uppercase verb in
      if v = str ''GET'' then
        (case peer_key plain tail of Err e \<Rightarrow> Err e | Ok k \<Rightarrow> Ok (Request corr (Get k)))
      else if v = str ''RM'' then
        (case peer_key plain tail of Err e \<Rightarrow> Err e | Ok k \<Rightarrow> Ok (Request corr (Rm k)))
      else if v = str ''PUT'' then
        (let (key, value) = split_or_whole tail in
         case peer_key plain key of Err e \<Rightarrow> Err e | Ok k \<Rightarrow> Ok (Request corr (Put k value)))
      else Err (str ''unknown verb '' @ debug_str plain v @ str '' in a peer request''))"

definition decode_response :: "(nat \<Rightarrow> bool) \<Rightarrow> u64 \<Rightarrow> ustr \<Rightarrow> ustr + peer" where
  "decode_response plain corr rest =
     (let (tag, body) = split_or_whole rest in
      if tag = str ''VAL'' then Ok (Response corr (Value body))
      else if tag = str ''OK'' then Ok (Response corr ReplyOk)
      else if tag = str ''NIL'' then Ok (Response corr ReplyNil)
      else if tag = str ''ERR'' then Ok (Response corr (ReplyErr body))
      else Err (str ''unknown response tag '' @ debug_str plain tag))"

text \<open>\<open>splitn(3, ' ')\<close> is the first split and, if there was a space, the second.\<close>

definition peer_decode :: "(nat \<Rightarrow> bool) \<Rightarrow> ustr \<Rightarrow> ustr + peer" where
  "peer_decode plain text =
     (case split_once (\<lambda>c. c = 32) text of
        None \<Rightarrow> Err (str ''missing correlation id'')
      | Some (kind, after) \<Rightarrow>
          (let (corr_text, rest) = split_or_whole after in
           case parse_u64 corr_text of
             None \<Rightarrow> Err (str ''correlation id must be a u64'')
           | Some corr \<Rightarrow>
               if kind = str ''REQ'' then decode_request plain corr rest
               else if kind = str ''RSP'' then decode_response plain corr rest
               else Err (str ''unknown peer message kind '' @ debug_str plain kind)))"

section \<open>Round trip\<close>

lemma space_split:
  assumes "32 \<notin> set a"
  shows "split_once (\<lambda>c. c = 32) (a @ 32 # b) = Some (a, b)" "split_or_whole (a @ 32 # b) = (a, b)"
    "split_or_whole a = (a, [])"
proof -
  show "split_once (\<lambda>c. c = 32) (a @ 32 # b) = Some (a, b)"
    using assms by (intro split_once_append) auto
  then show "split_or_whole (a @ 32 # b) = (a, b)" by (simp add: split_or_whole_def)
  have "split_once (\<lambda>c. c = 32) a = None" using assms by auto
  then show "split_or_whole a = (a, [])" unfolding split_or_whole_def by (simp only: option.case)
qed

lemma show_u64_no_space: "32 \<notin> set (show_u64 k)"
  using show_nat_no_space by (auto simp: show_u64_def)

lemma peer_key_show [simp]: "peer_key plain (show_u64 k) = Ok k"
  using parse_show_u64 [of k] by (simp add: peer_key_def show_u64_def)

lemmas peer_split = space_split(2) [of "str ''GET''", simplified] space_split(2) [of "str ''RM''", simplified]
  space_split(2) [of "str ''PUT''", simplified] space_split(2) [of "str ''VAL''", simplified]
  space_split(2) [of "str ''ERR''", simplified] space_split(3) [of "str ''OK''", simplified]
  space_split(3) [of "str ''NIL''", simplified] space_split(2) [OF show_u64_no_space]

lemma decode_request_text: "decode_request plain corr (op_text x) = Ok (Request corr x)"
  by (cases x) (simp_all add: decode_request_def peer_split to_ascii_uppercase_def ascii_upper_def)

lemma decode_response_text: "decode_response plain corr (reply_text r) = Ok (Response corr r)"
  by (cases r) (simp_all add: decode_response_def peer_split)

lemma peer_decode_encode: "peer_decode plain (peer_encode m) = Ok m"
proof (cases m)
  case (Request corr x)
  have "split_once (\<lambda>c. c = 32) (str ''REQ '' @ show_u64 corr @ [32] @ op_text x) =
      Some (str ''REQ'', show_u64 corr @ 32 # op_text x)"
    using space_split(1) [of "str ''REQ''" "show_u64 corr @ 32 # op_text x"] by simp
  then show ?thesis
    unfolding Request peer_encode.simps peer_decode_def by (simp add: peer_split decode_request_text)
next
  case (Response corr r)
  have "split_once (\<lambda>c. c = 32) (str ''RSP '' @ show_u64 corr @ [32] @ reply_text r) =
      Some (str ''RSP'', show_u64 corr @ 32 # reply_text r)"
    using space_split(1) [of "str ''RSP''" "show_u64 corr @ 32 # reply_text r"] by simp
  then show ?thesis
    unfolding Response peer_encode.simps peer_decode_def by (simp add: peer_split decode_response_text)
qed

interpretation peer_wire: coding "\<lambda>_. True" peer_encode
  "\<lambda>text. case peer_decode plain text of Inr m \<Rightarrow> Some m | Inl _ \<Rightarrow> None" for plain
  by unfold_locales (simp add: peer_decode_encode)

section \<open>Properties\<close>

text \<open>C30. Node-to-node messages survive the hop: decoding the encoding of any request or response gives
  back the same message, for every key, correlation id and text (values with blanks or newlines at
  either end and empty values included), and no two messages are encoded alike.\<close>

theorem peer_roundtrip:
  "peer_decode plain (peer_encode m) = Ok m \<and> (peer_encode m = peer_encode m' \<longleftrightarrow> m = m')"
  using peer_decode_encode peer_wire.enc_inj [of m m'] by simp

end
