(* ===== verification/Six_Seven.thy ===== *)
theory Six_Seven
  imports Dek_Fanout Stomp Peer_Message
begin

text \<open>
  The demo node, \<open>src/src/bin/six-seven-server/main.rs\<close>: command line, start-up, and the core
  thread, which owns the store, the client table and the table of forwarded requests and handles
  one event at a time. \<open>node\<close> is that thread's state with the process state of libsodium, the
  counters, and what it has written and sent. What the operating system decides (addresses,
  binding, whether a write or a send succeeds, the order in which a hash table is traversed) is
  the record \<open>host\<close>; the time of an event is an argument of its step. \<open>None\<close> is a panic.

  The lemmas show that a connection posts its frames in order and then its end, what a handler
  leaves alone, and which operations reach the store. Arithmetic is that of a build with overflow
  checks.
\<close>

section \<open>Constants and data\<close>

definition PEER_CHANNEL :: u32 where "PEER_CHANNEL = 6767"

definition EPOCH :: u8 where "EPOCH = 0"

text \<open>Milliseconds.\<close>

definition FORWARD_TIMEOUT :: nat where "FORWARD_TIMEOUT = 5000"

definition MAX_DATAGRAM :: nat where "MAX_DATAGRAM = 65507"

datatype event =
    ClientUp u64
  | ClientFrame u64 frame
  | ClientDown u64
  | Datagram bytes
  | Tick

record pending_request =
  p_conn :: u64
  p_receipt :: "ustr option"
  p_deadline :: nat

text \<open>Socket addresses are kept as their text.\<close>

record config =
  c_id :: u16
  c_stomp :: ustr
  c_paxe :: ustr
  c_peer_id :: u16
  c_peer_addr :: ustr
  c_key :: bytes

record host =
  h_plain :: "nat \<Rightarrow> bool"
  h_parse_addr :: "ustr \<Rightarrow> ustr option"
  h_bind_udp :: "ustr \<Rightarrow> ustr option"
  h_bind_tcp :: "ustr \<Rightarrow> ustr option"
  h_clone_udp :: "ustr option"
  h_send :: "nat \<Rightarrow> ustr option"
  h_write :: "nat \<Rightarrow> bool"
  h_order :: "u64 list \<Rightarrow> u64 list"

record node =
  n_kv :: kv_store
  n_clients :: "u64 set"
  n_pending :: "(u64 \<times> pending_request) list"
  n_next_corr :: u64
  n_world :: world
  n_stats :: stats_state
  n_written :: "(u64 \<times> bytes \<times> bool) list"
  n_sent :: "(bytes \<times> bool) list"
  n_log :: "ustr list"

text \<open>The table of forwarded requests: \<open>HashMap::insert\<close>, \<open>remove\<close> and \<open>retain\<close>.\<close>

definition hm_remove :: "u64 \<Rightarrow> (u64 \<times> 'a) list \<Rightarrow> (u64 \<times> 'a) list" where
  "hm_remove k m = filter (\<lambda>(a, _). a \<noteq> k) m"

definition hm_insert :: "u64 \<Rightarrow> 'a \<Rightarrow> (u64 \<times> 'a) list \<Rightarrow> (u64 \<times> 'a) list" where
  "hm_insert k v m = (k, v) # hm_remove k m"

section \<open>Command line\<close>

definition parse_u16 :: "host \<Rightarrow> ustr \<Rightarrow> ustr \<Rightarrow> ustr + u16" where
  "parse_u16 H value flag =
     (case parse_unsigned 10 65535 value of
        None \<Rightarrow> Err (flag @ str '' must be 0-65535, got '' @ debug_str (h_plain H) value)
      | Some n \<Rightarrow> Ok (of_nat n))"

definition parse_addr :: "host \<Rightarrow> ustr \<Rightarrow> ustr \<Rightarrow> ustr + ustr" where
  "parse_addr H value flag =
     (case h_parse_addr H value of
        None \<Rightarrow> Err (flag @ str '' must be host:port, got '' @ debug_str (h_plain H) value)
      | Some a \<Rightarrow> Ok a)"

text \<open>The loop over the 32 bytes; slicing inside a character panics.\<close>

fun parse_key_bytes :: "ustr \<Rightarrow> nat list \<Rightarrow> (ustr + bytes) option" where
  "parse_key_bytes hex [] = Some (Ok [])"
| "parse_key_bytes hex (i # is) =
     do {
       pair \<leftarrow> str_slice (i * 2) (i * 2 + 2) hex;
       (case parse_unsigned 16 255 pair of
          None \<Rightarrow> Some (Err (str ''--key is not hexadecimal at offset '' @ show_nat (i * 2)))
        | Some b \<Rightarrow>
            do {
              rest \<leftarrow> parse_key_bytes hex is;
              (case rest of Err e \<Rightarrow> Some (Err e) | Ok bs \<Rightarrow> Some (Ok (of_nat b # bs)))
            })
     }"

definition parse_key :: "ustr \<Rightarrow> (ustr + bytes) option" where
  "parse_key hex0 =
     (let hex = trim hex0 in
      if str_len hex \<noteq> 64 then
        Some (Err (str ''--key must be exactly 64 hex characters (32 bytes), got '' @ show_nat (str_len hex)))
      else parse_key_bytes hex [0..<32])"

text \<open>The options gathered so far; a later flag overrides an earlier one.\<close>

record flags_seen =
  f_id :: "u16 option"
  f_stomp :: "ustr option"
  f_paxe :: "ustr option"
  f_peer_id :: "u16 option"
  f_peer_addr :: "ustr option"
  f_key_hex :: "ustr option"

datatype 'a cli = Help | Usage ustr | Proceed 'a

fun scan_args :: "host \<Rightarrow> ustr list \<Rightarrow> flags_seen \<Rightarrow> flags_seen cli" where
  "scan_args H [] s = Proceed s"
| "scan_args H (flag # args) s =
     (if flag = str ''-h'' \<or> flag = str ''--help'' then Help
      else case args of
        [] \<Rightarrow> Usage (flag @ str '' needs a value'')
      | value # rest \<Rightarrow>
          if flag = str ''--id'' then
            (case parse_u16 H value (str ''--id'') of
               Err m \<Rightarrow> Usage m | Ok v \<Rightarrow> scan_args H rest (s\<lparr>f_id := Some v\<rparr>))
          else if flag = str ''--peer-id'' then
            (case parse_u16 H value (str ''--peer-id'') of
               Err m \<Rightarrow> Usage m | Ok v \<Rightarrow> scan_args H rest (s\<lparr>f_peer_id := Some v\<rparr>))
          else if flag = str ''--stomp'' then
            (case parse_addr H value (str ''--stomp'') of
               Err m \<Rightarrow> Usage m | Ok v \<Rightarrow> scan_args H rest (s\<lparr>f_stomp := Some v\<rparr>))
          else if flag = str ''--paxe'' then
            (case parse_addr H value (str ''--paxe'') of
               Err m \<Rightarrow> Usage m | Ok v \<Rightarrow> scan_args H rest (s\<lparr>f_paxe := Some v\<rparr>))
          else if flag = str ''--peer'' then
            (case parse_addr H value (str ''--peer'') of
               Err m \<Rightarrow> Usage m | Ok v \<Rightarrow> scan_args H rest (s\<lparr>f_peer_addr := Some v\<rparr>))
          else if flag = str ''--key'' then scan_args H rest (s\<lparr>f_key_hex := Some value\<rparr>)
          else Usage (str ''unknown flag '' @ debug_str (h_plain H) flag))"

definition required :: "ustr \<Rightarrow> 'a option \<Rightarrow> ustr + 'a" where
  "required name v = (case v of None \<Rightarrow> Err (name @ str '' is required'') | Some x \<Rightarrow> Ok x)"

definition finish_args :: "flags_seen \<Rightarrow> (config cli) option" where
  "finish_args s =
     (case required (str ''--id'') (f_id s) of
        Err m \<Rightarrow> Some (Usage m)
      | Ok nid \<Rightarrow>
     (case required (str ''--peer-id'') (f_peer_id s) of
        Err m \<Rightarrow> Some (Usage m)
      | Ok pid \<Rightarrow>
          if nid = pid then
            Some (Usage (str ''--id and --peer-id must differ: a pair needs two nodes''))
          else
     (case required (str ''--stomp'') (f_stomp s) of
        Err m \<Rightarrow> Some (Usage m)
      | Ok st \<Rightarrow>
     (case required (str ''--paxe'') (f_paxe s) of
        Err m \<Rightarrow> Some (Usage m)
      | Ok px \<Rightarrow>
     (case required (str ''--peer'') (f_peer_addr s) of
        Err m \<Rightarrow> Some (Usage m)
      | Ok pa \<Rightarrow>
     (case required (str ''--key'') (f_key_hex s) of
        Err m \<Rightarrow> Some (Usage m)
      | Ok hex \<Rightarrow>
          do {
            k \<leftarrow> parse_key hex;
            (case k of
               Err m \<Rightarrow> Some (Usage m)
             | Ok key \<Rightarrow>
                 Some (Proceed \<lparr>c_id = nid, c_stomp = st, c_paxe = px, c_peer_id = pid,
                   c_peer_addr = pa, c_key = key\<rparr>))
          }))))))"

definition no_flags :: flags_seen where
  "no_flags = \<lparr>f_id = None, f_stomp = None, f_paxe = None, f_peer_id = None, f_peer_addr = None,
     f_key_hex = None\<rparr>"

definition parse_args :: "host \<Rightarrow> ustr list \<Rightarrow> (config cli) option" where
  "parse_args H args =
     (case scan_args H args no_flags of
        Help \<Rightarrow> Some Help
      | Usage m \<Rightarrow> Some (Usage m)
      | Proceed s \<Rightarrow> finish_args s)"

section \<open>Writing to clients and to the peer\<close>

definition write_frame :: "host \<Rightarrow> u64 \<Rightarrow> bytes \<Rightarrow> node \<Rightarrow> node" where
  "write_frame H conn bs n =
     (if conn \<notin> n_clients n then n
      else let ok = h_write H (length (n_written n));
               n1 = n\<lparr>n_written := n_written n @ [(conn, bs, ok)]\<rparr> in
        if ok then n1 else n1\<lparr>n_clients := n_clients n1 - {conn}\<rparr>)"

fun client_body :: "reply \<Rightarrow> ustr" where
  "client_body (Value v) = v"
| "client_body ReplyOk = str ''OK''"
| "client_body ReplyNil = str ''NIL''"
| "client_body (ReplyErr e) = str ''ERR '' @ e"

definition message_bytes :: "ustr option \<Rightarrow> reply \<Rightarrow> bytes" where
  "message_bytes receipt r =
     frame_encode (str ''MESSAGE'')
       ([(str ''destination'', str ''/queue/kv''), (str ''content-type'', str ''text/plain''),
         (str ''subscription'', str ''0'')] @
        (case receipt of None \<Rightarrow> [] | Some x \<Rightarrow> [(str ''receipt-id'', x)]))
       (client_body r)"

definition reply_to_client :: "host \<Rightarrow> u64 \<Rightarrow> ustr option \<Rightarrow> reply \<Rightarrow> node \<Rightarrow> node" where
  "reply_to_client H conn receipt r n = write_frame H conn (message_bytes receipt r) n"

definition send_to_peer ::
  "host \<Rightarrow> sodium_lib \<Rightarrow> config \<Rightarrow> keystore \<Rightarrow> epoch \<Rightarrow> ustr \<Rightarrow> node \<Rightarrow> ((ustr + unit) \<times> node) option" where
  "send_to_peer H L cfg store e message n =
     do {
       (r, w) \<leftarrow> dek_seal L store (c_peer_id cfg) PEER_CHANNEL e (as_bytes message) (n_world n);
       let n1 = n\<lparr>n_world := w\<rparr>;
       (case r of
          Err x \<Rightarrow>
            Some (Err (str ''sealing for peer '' @ show_nat (unat (c_peer_id cfg)) @ str '': '' @
              show_dek_seal_error x), n1)
        | Ok frame \<Rightarrow>
            (case h_send H (length (n_sent n1)) of
               Some err \<Rightarrow>
                 Some (Err (str ''sending to peer '' @ c_peer_addr cfg @ str '': '' @ err),
                   n1\<lparr>n_sent := n_sent n1 @ [(frame, False)]\<rparr>)
             | None \<Rightarrow> Some (Ok (), n1\<lparr>n_sent := n_sent n1 @ [(frame, True)]\<rparr>)))
     }"

section \<open>Handlers\<close>

definition forward ::
  "host \<Rightarrow> sodium_lib \<Rightarrow> config \<Rightarrow> keystore \<Rightarrow> epoch \<Rightarrow> nat \<Rightarrow> u64 \<Rightarrow> ustr option \<Rightarrow> op \<Rightarrow> node \<Rightarrow> node option"
  where
  "forward H L cfg store e now conn receipt x n =
     (if n_next_corr n = 0xFFFFFFFFFFFFFFFF then None
      else let corr = n_next_corr n + 1; n1 = n\<lparr>n_next_corr := corr\<rparr> in
        do {
          (r, n2) \<leftarrow> send_to_peer H L cfg store e (peer_encode (Request corr x)) n1;
          (case r of
             Err m \<Rightarrow> Some (reply_to_client H conn receipt (ReplyErr m) n2)
           | Ok _ \<Rightarrow>
               Some (n2\<lparr>n_pending := hm_insert corr
                 \<lparr>p_conn = conn, p_receipt = receipt, p_deadline = now + FORWARD_TIMEOUT\<rparr> (n_pending n2)\<rparr>))
        })"

definition handle_send ::
  "host \<Rightarrow> sodium_lib \<Rightarrow> config \<Rightarrow> keystore \<Rightarrow> epoch \<Rightarrow> nat \<Rightarrow> u64 \<Rightarrow> ustr option \<Rightarrow> ustr \<Rightarrow> node \<Rightarrow> node option"
  where
  "handle_send H L cfg store e now conn receipt bd n =
     (if eq_ignore_ascii_case (trim bd) (str ''SIZE'') then
        Some (reply_to_client H conn receipt
          (Value (show_nat (kv_len (n_kv n)) @ str '' of '' @ show_nat MAX_KEYS @ str '' keys on node '' @
            show_nat (unat (c_id cfg)))) n)
      else case op_parse (h_plain H) bd of
        Err m \<Rightarrow> Some (reply_to_client H conn receipt (ReplyErr m) n)
      | Ok x \<Rightarrow>
          if owner (op_key x) (c_id cfg) (c_peer_id cfg) = c_id cfg then
            (case kv_execute x (n_kv n) of
               (r, st) \<Rightarrow> Some (reply_to_client H conn receipt r (n\<lparr>n_kv := st\<rparr>)))
          else forward H L cfg store e now conn receipt x n)"

definition receipt_frame :: "ustr \<Rightarrow> bytes" where
  "receipt_frame r = frame_encode (str ''RECEIPT'') [(str ''receipt-id'', r)] []"

definition handle_client_frame ::
  "host \<Rightarrow> sodium_lib \<Rightarrow> config \<Rightarrow> keystore \<Rightarrow> epoch \<Rightarrow> nat \<Rightarrow> u64 \<Rightarrow> frame \<Rightarrow> node \<Rightarrow> node option" where
  "handle_client_frame H L cfg store e now conn fr n =
     (let receipt = frame_header fr (str ''receipt'');
          cmd = to_ascii_uppercase (command fr) in
      if cmd = str ''CONNECT'' \<or> cmd = str ''STOMP'' then
        Some (write_frame H conn (frame_encode (str ''CONNECTED'')
          [(str ''version'', str ''1.2''), (str ''server'', str ''six-seven-server/0.1'')] []) n)
      else if cmd = str ''SUBSCRIBE'' \<or> cmd = str ''UNSUBSCRIBE'' then
        Some (case receipt of Some r \<Rightarrow> write_frame H conn (receipt_frame r) n | None \<Rightarrow> n)
      else if cmd = str ''DISCONNECT'' then
        (let n1 = (case receipt of Some r \<Rightarrow> write_frame H conn (receipt_frame r) n | None \<Rightarrow> n) in
         Some (n1\<lparr>n_clients := n_clients n1 - {conn}\<rparr>))
      else if cmd = str ''SEND'' then handle_send H L cfg store e now conn receipt (body fr) n
      else
        Some (write_frame H conn (frame_encode (str ''ERROR'')
          [(str ''message'', str ''unsupported command'')]
          (str ''six-seven-server does not implement '' @ cmd @ [10])) n))"

definition handle_message ::
  "host \<Rightarrow> sodium_lib \<Rightarrow> config \<Rightarrow> keystore \<Rightarrow> epoch \<Rightarrow> peer \<Rightarrow> node \<Rightarrow> node option" where
  "handle_message H L cfg store e m n =
     (case m of
        Request corr x \<Rightarrow>
          (case (if owner (op_key x) (c_id cfg) (c_peer_id cfg) = c_id cfg then kv_execute x (n_kv n)
                 else (ReplyErr (str ''key '' @ show_u64 (op_key x) @ str '' does not belong to node '' @
                   show_nat (unat (c_id cfg))), n_kv n)) of
             (r, st) \<Rightarrow>
               do {
                 (res, n1) \<leftarrow> send_to_peer H L cfg store e (peer_encode (Response corr r)) (n\<lparr>n_kv := st\<rparr>);
                 (case res of
                    Err m' \<Rightarrow> Some (n1\<lparr>n_log := n_log n1 @
                      [str ''answering peer request '' @ show_u64 corr @ str '': '' @ m']\<rparr>)
                  | Ok _ \<Rightarrow> Some n1)
               })
      | Response corr r \<Rightarrow>
          (case map_of (n_pending n) corr of
             None \<Rightarrow> Some n
           | Some p \<Rightarrow>
               Some (reply_to_client H (p_conn p) (p_receipt p) r
                 (n\<lparr>n_pending := hm_remove corr (n_pending n)\<rparr>))))"

definition handle_datagram ::
  "host \<Rightarrow> sodium_lib \<Rightarrow> config \<Rightarrow> keystore \<Rightarrow> epoch \<Rightarrow> bytes \<Rightarrow> node \<Rightarrow> node option" where
  "handle_datagram H L cfg store e bs n =
     do {
       (r, w, st) \<leftarrow> dek_open L store bs (n_world n) (n_stats n);
       let n1 = n\<lparr>n_world := w, n_stats := st\<rparr>;
       (case r of
          Err _ \<Rightarrow> Some n1
        | Ok (hdr, _, payload) \<Rightarrow>
            if from_id hdr \<noteq> c_peer_id cfg \<or> channel hdr \<noteq> PEER_CHANNEL then Some n1
            else (case from_utf8 payload of
                None \<Rightarrow> Some n1
              | Some t \<Rightarrow>
                  (case peer_decode (h_plain H) t of
                     Err m \<Rightarrow>
                       Some (n1\<lparr>n_log := n_log n1 @ [str ''peer sent an undecodable message: '' @ m]\<rparr>)
                   | Ok msg \<Rightarrow> handle_message H L cfg store e msg n1)))
     }"

text \<open>The timer: every overdue request is removed and its client told.\<close>

definition timeout_reply :: "config \<Rightarrow> reply" where
  "timeout_reply cfg =
     ReplyErr (str ''peer '' @ show_nat (unat (c_peer_id cfg)) @ str '' did not answer within 5s'')"

fun expire_loop :: "host \<Rightarrow> config \<Rightarrow> u64 list \<Rightarrow> node \<Rightarrow> node" where
  "expire_loop H cfg [] n = n"
| "expire_loop H cfg (corr # rest) n =
     expire_loop H cfg rest
       (case map_of (n_pending n) corr of
          None \<Rightarrow> n
        | Some p \<Rightarrow>
            reply_to_client H (p_conn p) (p_receipt p) (timeout_reply cfg)
              (n\<lparr>n_pending := hm_remove corr (n_pending n)\<rparr>))"

definition handle_tick :: "host \<Rightarrow> config \<Rightarrow> nat \<Rightarrow> node \<Rightarrow> node" where
  "handle_tick H cfg now n =
     expire_loop H cfg
       (h_order H (map fst (filter (\<lambda>(_, p). p_deadline p \<le> now) (n_pending n)))) n"

text \<open>One turn of \<open>core_loop\<close>, and the loop over the events received up to some moment: after the last of
  them it waits in \<open>rx.recv()\<close>.\<close>

fun node_step ::
  "host \<Rightarrow> sodium_lib \<Rightarrow> config \<Rightarrow> keystore \<Rightarrow> epoch \<Rightarrow> nat \<times> event \<Rightarrow> node \<Rightarrow> node option" where
  "node_step H L cfg store e (now, ClientUp conn) n =
     Some (n\<lparr>n_clients := insert conn (n_clients n)\<rparr>)"
| "node_step H L cfg store e (now, ClientDown conn) n =
     Some (n\<lparr>n_clients := n_clients n - {conn},
       n_pending := filter (\<lambda>(_, p). p_conn p \<noteq> conn) (n_pending n)\<rparr>)"
| "node_step H L cfg store e (now, ClientFrame conn fr) n =
     handle_client_frame H L cfg store e now conn fr n"
| "node_step H L cfg store e (now, Datagram bs) n = handle_datagram H L cfg store e bs n"
| "node_step H L cfg store e (now, Tick) n = Some (handle_tick H cfg now n)"

fun core_loop ::
  "host \<Rightarrow> sodium_lib \<Rightarrow> config \<Rightarrow> keystore \<Rightarrow> epoch \<Rightarrow> (nat \<times> event) list \<Rightarrow> node \<Rightarrow> node option" where
  "core_loop H L cfg store e [] n = Some n"
| "core_loop H L cfg store e (x # xs) n =
     do { n1 \<leftarrow> node_step H L cfg store e x n; core_loop H L cfg store e xs n1 }"

definition node_start :: "world \<Rightarrow> stats_state \<Rightarrow> ustr list \<Rightarrow> node" where
  "node_start w st lines =
     \<lparr>n_kv = kv_default, n_clients = {}, n_pending = [], n_next_corr = 0, n_world = w, n_stats = st,
      n_written = [], n_sent = [], n_log = lines\<rparr>"

section \<open>Start-up\<close>

definition banner :: "config \<Rightarrow> ustr list" where
  "banner cfg =
     [str ''six-seven-server node '' @ show_nat (unat (c_id cfg)) @ [32, 0x2014] @ str '' STOMP on '' @ c_stomp cfg @
        str '', PAXE on '' @ c_paxe cfg @ str '' (channel '' @ show_nat (unat PEER_CHANNEL) @ str ''), peer '' @
        show_nat (unat (c_peer_id cfg)) @ str '' at '' @ c_peer_addr cfg,
      str ''  odd keys -> node '' @ show_nat (unat (min (c_id cfg) (c_peer_id cfg))) @
        str '', even keys -> node '' @ show_nat (unat (max (c_id cfg) (c_peer_id cfg)))]"

text \<open>
  \<open>run\<close> up to the core loop. A failure after the keystore exists drops it.
\<close>

definition run_setup ::
  "host \<Rightarrow> sodium_lib \<Rightarrow> config \<Rightarrow> stats_state \<Rightarrow> world \<Rightarrow> (ustr + keystore \<times> epoch \<times> node) \<times> world" where
  "run_setup H L cfg st w =
     (case sodium_init L w of
        (Err x, w1) \<Rightarrow> (Err (str ''libsodium init failed: '' @ show_sodium_error x), w1)
      | (Ok _, w1) \<Rightarrow>
     (case require_aes_gcm L of
        Err x \<Rightarrow> (Err (str ''AES-256-GCM hardware path unavailable: '' @ show_sodium_error x), w1)
      | Ok _ \<Rightarrow>
     (case epoch_new EPOCH of
        Err x \<Rightarrow> (Err (show_keystore_error x), w1)
      | Ok e \<Rightarrow>
     (case keystore_new L (c_id cfg) w1 of
        (Err x, w2) \<Rightarrow> (Err (show_keystore_error x), w2)
      | (Ok store0, w2) \<Rightarrow>
     (case install L (c_peer_id cfg) e (c_key cfg) w2 store0 of
        (Err x, w3, store) \<Rightarrow>
          (Err (str ''installing the link key failed: '' @ show_keystore_error x), keystore_drop L store w3)
      | (Ok _, w3, store) \<Rightarrow>
     (case h_bind_udp H (c_paxe cfg) of
        Some m \<Rightarrow> (Err (str ''binding --paxe '' @ c_paxe cfg @ str '': '' @ m), keystore_drop L store w3)
      | None \<Rightarrow>
     (case h_bind_tcp H (c_stomp cfg) of
        Some m \<Rightarrow> (Err (str ''binding --stomp '' @ c_stomp cfg @ str '': '' @ m), keystore_drop L store w3)
      | None \<Rightarrow>
     (case h_clone_udp H of
        Some m \<Rightarrow> (Err (str ''cloning the UDP socket: '' @ m), keystore_drop L store w3)
      | None \<Rightarrow> (Ok (store, e, node_start w3 st (banner cfg)), w3)))))))))"

text \<open>How far \<open>run\<close> and \<open>main\<close> have come: they have returned, or the core loop has handled the events
  received so far and waits for the next one, with the keystore it owns and the state of the node.\<close>

datatype 'a progress =
    Returned 'a world
  | Serving keystore node

text \<open>\<open>run\<close>: a failure of the set-up is returned; otherwise the core loop takes one event after the other.
  \<open>run\<close> keeps the sender \<open>tx\<close> of the channel until it returns, so \<open>rx.recv()\<close> never fails: the loop
  does not end, and the \<open>Ok(())\<close> after it is not reached. A panic of a handler is \<open>None\<close>.\<close>

definition run ::
  "host \<Rightarrow> sodium_lib \<Rightarrow> config \<Rightarrow> stats_state \<Rightarrow> (nat \<times> event) list \<Rightarrow> world \<Rightarrow> (ustr + unit) progress option"
  where
  "run H L cfg st events w =
     (case run_setup H L cfg st w of
        (Err m, w1) \<Rightarrow> Some (Returned (Err m) w1)
      | (Ok (store, e, n), w1) \<Rightarrow>
          do {
            n1 \<leftarrow> core_loop H L cfg store e events n;
            Some (Serving store n1)
          })"

definition USAGE :: ustr where
  "USAGE = concat (map (\<lambda>l. l @ [10])
     [str ''six-seven-server '' @ [0x2014] @ str '' the six-seven protocol, over PAXE'',
      [],
      str ''USAGE:'',
      str ''  six-seven-server --id <u16> --stomp <addr> --paxe <addr> '' @ [92],
      str ''                   --peer-id <u16> --peer <addr> --key <64 hex chars>'',
      [],
      str ''The two nodes form a pair. Odd keys live on the lower-numbered node, even'',
      str ''keys on the higher; a node asked for a key it does not own forwards the'',
      str ''operation to its peer inside a PAXE frame and relays the answer back.'',
      [],
      str ''Both nodes must be given the SAME --key. It is the shared secret for the'',
      str ''link, 32 bytes as 64 hex characters.'',
      [],
      str ''EXAMPLE (two terminals):'',
      str ''  six-seven-server --id 100 --stomp 127.0.0.1:6167 --paxe 127.0.0.1:6100 '' @ [92],
      str ''                   --peer-id 200 --peer 127.0.0.1:6200 --key $KEY'',
      str ''  six-seven-server --id 200 --stomp 127.0.0.1:6267 --paxe 127.0.0.1:6200 '' @ [92],
      str ''                   --peer-id 100 --peer 127.0.0.1:6100 --key $KEY''])"

text \<open>\<open>main\<close>: the exit status, and what it prints on standard output and standard error.\<close>

record exit_report =
  exit_status :: nat
  exit_out :: "ustr list"
  exit_err :: "ustr list"

definition server_main ::
  "host \<Rightarrow> sodium_lib \<Rightarrow> ustr list \<Rightarrow> stats_state \<Rightarrow> (nat \<times> event) list \<Rightarrow> world \<Rightarrow> exit_report progress option"
  where
  "server_main H L args st events w =
     do {
       c \<leftarrow> parse_args H args;
       (case c of
          Help \<Rightarrow> Some (Returned \<lparr>exit_status = 0, exit_out = [USAGE], exit_err = []\<rparr> w)
        | Usage m \<Rightarrow> Some (Returned \<lparr>exit_status = 2, exit_out = [], exit_err = [m @ [10, 10] @ USAGE]\<rparr> w)
        | Proceed cfg \<Rightarrow>
            do {
              p \<leftarrow> run H L cfg st events w;
              (case p of
                 Returned (Err m) w1 \<Rightarrow>
                   Some (Returned \<lparr>exit_status = 1, exit_out = [], exit_err = [str ''six-seven-server: '' @ m]\<rparr> w1)
               | Returned (Ok _) w1 \<Rightarrow> Some (Returned \<lparr>exit_status = 0, exit_out = [], exit_err = []\<rparr> w1)
               | Serving store n \<Rightarrow> Some (Serving store n))
            })
     }"

section \<open>Producer threads\<close>

text \<open>The UDP reader: at most the buffer is delivered, and the first error ends the thread. The
  acceptor numbers connections from 1; its result is the connections that were announced to the
  core, each with the stream its reader thread is given. A panic ends the thread.\<close>

datatype recv_result = Received bytes | RecvFailed ustr

fun udp_reader :: "recv_result list \<Rightarrow> event list" where
  "udp_reader [] = []"
| "udp_reader (Received bs # rest) = Datagram (take MAX_DATAGRAM bs) # udp_reader rest"
| "udp_reader (RecvFailed _ # _) = []"

datatype accept_result = Accepted reader | CloneFailed ustr | AcceptFailed ustr

fun acceptor :: "u64 \<Rightarrow> accept_result list \<Rightarrow> (u64 \<times> reader) list" where
  "acceptor next_id [] = []"
| "acceptor next_id (AcceptFailed _ # rest) = acceptor next_id rest"
| "acceptor next_id (CloneFailed _ # rest) =
     (if next_id = 0xFFFFFFFFFFFFFFFF then [] else acceptor (next_id + 1) rest)"
| "acceptor next_id (Accepted r # rest) =
     (if next_id = 0xFFFFFFFFFFFFFFFF then [] else (next_id + 1, r) # acceptor (next_id + 1) rest)"

lemma read_frame_shorter: "read_frame r = (Ok (Some f), r') \<Longrightarrow> stream_size r' < stream_size r"
proof (induction r rule: read_frame.induct)
  case (1 r)
  obtain raw r1 where raw: "read_raw [] r = (Ok (Some raw), r1)"
    using "1.prems" by (auto simp: read_frame.simps [of r] split: sum.splits option.splits prod.splits)
  obtain t where t: "from_utf8 raw = Some t"
    using "1.prems" raw by (auto simp: read_frame.simps [of r] split: option.splits)
  show ?case
  proof (cases "dropWhile (\<lambda>c. c = 10 \<or> c = 13) t = []")
    case True
    then have "read_frame r1 = (Ok (Some f), r')" using "1.prems" raw t by (simp add: read_frame.simps [of r])
    from "1.IH" [OF raw [symmetric] refl refl t refl True this] read_raw_shorter [OF raw] show ?thesis by simp
  next
    case False
    then have "r' = r1"
      using "1.prems" raw t by (auto simp: read_frame.simps [of r] Let_def simp del: dropWhile_eq_Nil_conv)
    then show ?thesis using read_raw_shorter [OF raw] by simp
  qed
qed

text \<open>The reader thread of one connection, on what its stream delivers: its frames in order, then the end
  when the list of reads is exhausted, which stands for an end of file there. A connection that stays
  open has posted the frames of what it delivered so far, and not the end; the statements about such a
  connection are about the frames and do not depend on what follows them.\<close>

function client_thread :: "u64 \<Rightarrow> reader \<Rightarrow> event list" where
  "client_thread conn r =
     (case read_frame r of
        (Ok (Some f), r1) \<Rightarrow> ClientFrame conn f # client_thread conn r1
      | _ \<Rightarrow> [ClientDown conn])"
  by pat_completeness auto
termination
  by (relation "measure (\<lambda>(_, r). stream_size r)") (auto dest: read_frame_shorter [OF sym])

declare client_thread.simps [simp del]

text \<open>What one connection posts to the core, in this order.\<close>

definition connection_events :: "u64 \<times> reader \<Rightarrow> event list" where
  "connection_events x = (case x of (conn, r) \<Rightarrow> ClientUp conn # client_thread conn r)"

lemma read_raw_end: "steady r \<Longrightarrow> stream_bytes r = [] \<Longrightarrow> \<exists>r'. read_raw [] r = (Ok None, r')"
proof (induction "length (source r)" arbitrary: r)
  case (Suc n)
  then obtain xs where r: "r = \<lparr>buffered = [], source = ReadInterrupted # xs\<rparr>"
    by (cases r; cases "source r") (auto simp: steady_def stream_bytes_def)
  then have "\<exists>r'. read_raw [] \<lparr>buffered = [], source = xs\<rparr> = (Ok None, r')"
    using Suc by (intro Suc.hyps) (auto simp: steady_def stream_bytes_def)
  then show ?case by (simp add: r read_raw.simps [of "[]" "\<lparr>buffered = [], source = ReadInterrupted # xs\<rparr>"] fill_buf_def)
qed (auto simp: read_raw.simps fill_buf_def stream_bytes_def)

lemma client_thread_frames:
  assumes "steady r" "stream_bytes r = concat (map frame_bytes fs) @ rest"
    and "\<forall>f \<in> set fs. frame_ok f \<and> str_len (frame_text (command f) (headers f) (body f)) \<le> MAX_FRAME_BYTES"
  shows "\<exists>r'. client_thread conn r = map (ClientFrame conn) fs @ client_thread conn r' \<and> steady r' \<and> stream_bytes r' = rest"
  using assms
proof (induction fs arbitrary: r)
  case (Cons f fs)
  have "\<exists>r'. read_frame r = (Ok (Some f), r') \<and> steady r' \<and> stream_bytes r' = concat (map frame_bytes fs) @ rest"
    using Cons.prems by (intro read_frame_complete) (simp_all add: frame_bytes_def [of f])
  then obtain r' where r': "read_frame r = (Ok (Some f), r')" "steady r'" "stream_bytes r' = concat (map frame_bytes fs) @ rest"
    by blast
  have "\<exists>r''. client_thread conn r' = map (ClientFrame conn) fs @ client_thread conn r'' \<and> steady r'' \<and> stream_bytes r'' = rest"
    using Cons.prems by (intro Cons.IH r'(2,3)) simp
  then show ?case using r'(1) by (auto simp: client_thread.simps [of conn r])
qed auto

lemma client_thread_end:
  assumes "steady r" "stream_bytes r = []"
  shows "client_thread conn r = [ClientDown conn]"
proof -
  obtain r' where "read_raw [] r = (Ok None, r')" using read_raw_end [OF assms] by blast
  then have "read_frame r = (Ok None, r')" by (simp add: read_frame.simps [of r])
  then show ?thesis by (simp add: client_thread.simps [of conn r])
qed

lemma client_thread_last: "\<exists>fs. client_thread conn r = map (ClientFrame conn) fs @ [ClientDown conn]"
proof (induction conn r rule: client_thread.induct)
  case (1 conn r)
  show ?case
  proof (cases "\<exists>f r1. read_frame r = (Ok (Some f), r1)")
    case True
    then obtain f r1 where f: "read_frame r = (Ok (Some f), r1)" by blast
    with "1.IH" [OF f [symmetric] refl refl] obtain fs where "client_thread conn r1 = map (ClientFrame conn) fs @ [ClientDown conn]"
      by blast
    then have "client_thread conn r = map (ClientFrame conn) (f # fs) @ [ClientDown conn]"
      by (simp add: client_thread.simps [of conn r] f)
    then show ?thesis by blast
  next
    case False
    then have "client_thread conn r = map (ClientFrame conn) [] @ [ClientDown conn]"
      by (auto simp: client_thread.simps [of conn r] split: sum.splits option.splits prod.splits)
    then show ?thesis by blast
  qed
qed

section \<open>What a handler leaves alone\<close>

lemma write_frame_keeps [simp]:
  "n_kv (write_frame H c bs n) = n_kv n" "n_pending (write_frame H c bs n) = n_pending n"
  "n_next_corr (write_frame H c bs n) = n_next_corr n" "n_world (write_frame H c bs n) = n_world n"
  "n_stats (write_frame H c bs n) = n_stats n" "n_sent (write_frame H c bs n) = n_sent n"
  "n_log (write_frame H c bs n) = n_log n"
  by (simp_all add: write_frame_def Let_def)

lemma reply_keeps [simp]:
  "n_kv (reply_to_client H c rc r n) = n_kv n" "n_pending (reply_to_client H c rc r n) = n_pending n"
  "n_next_corr (reply_to_client H c rc r n) = n_next_corr n"
  "n_world (reply_to_client H c rc r n) = n_world n" "n_stats (reply_to_client H c rc r n) = n_stats n"
  "n_sent (reply_to_client H c rc r n) = n_sent n" "n_log (reply_to_client H c rc r n) = n_log n"
  by (simp_all add: reply_to_client_def)

lemma write_frame_appends: "\<exists>x. n_written (write_frame H c bs n) = n_written n @ x"
  by (simp add: write_frame_def Let_def)

lemma write_frame_clients: "n_clients (write_frame H c bs n) \<subseteq> n_clients n"
  by (auto simp: write_frame_def Let_def)

lemma dek_seal_heap: "dek_seal L store to ch e m w = Some (r, w') \<Longrightarrow> heap w' = heap w"
  by (auto simp: dek_seal_def seal_def random_nonce_eq split: if_splits Option.bind_splits sum.splits seal_error.splits)

lemma send_to_peer_keeps:
  assumes "send_to_peer H L cfg store e m n = Some (r, n')"
  shows "\<exists>w x. n' = n\<lparr>n_world := w, n_sent := n_sent n @ x\<rparr> \<and> heap w = heap (n_world n)"
proof -
  obtain q w where d: "dek_seal L store (c_peer_id cfg) PEER_CHANNEL e (as_bytes m) (n_world n) = Some (q, w)"
    using assms by (auto simp: send_to_peer_def split: Option.bind_splits)
  have "n' = n\<lparr>n_world := w\<rparr> \<or> (\<exists>y. n' = n\<lparr>n_world := w, n_sent := n_sent n @ [y]\<rparr>)"
    using assms d by (auto simp: send_to_peer_def Let_def split: sum.splits option.splits)
  then show ?thesis
  proof
    assume "n' = n\<lparr>n_world := w\<rparr>"
    then have "n' = n\<lparr>n_world := w, n_sent := n_sent n @ []\<rparr>" by simp
    then show ?thesis using dek_seal_heap [OF d] by blast
  qed (use dek_seal_heap [OF d] in blast)
qed

section \<open>Which operations reach the store\<close>

text \<open>An operation asked for by an event: by a client, or by an authentic request of the peer.\<close>

definition asked_by_client :: "host \<Rightarrow> event \<Rightarrow> op \<Rightarrow> bool" where
  "asked_by_client H ev x \<longleftrightarrow>
     (\<exists>conn fr. ev = ClientFrame conn fr \<and> to_ascii_uppercase (command fr) = str ''SEND'' \<and>
       op_parse (h_plain H) (body fr) = Ok x)"

definition asked_by_peer :: "host \<Rightarrow> sodium_lib \<Rightarrow> config \<Rightarrow> keystore \<Rightarrow> world \<Rightarrow> event \<Rightarrow> op \<Rightarrow> bool" where
  "asked_by_peer H L cfg store w ev x \<longleftrightarrow>
     (\<exists>bs hdr fl key payload t corr. ev = Datagram bs \<and>
       lookup w store (c_peer_id cfg) (flags_epoch fl) = Some key \<and> sealed_frame L key hdr fl payload bs \<and>
       from_id hdr = c_peer_id cfg \<and> to_id hdr = ks_local_id store \<and> channel hdr = PEER_CHANNEL \<and>
       from_utf8 payload = Some t \<and> peer_decode (h_plain H) t = Ok (Request corr x))"

lemma handle_client_kv:
  assumes "handle_client_frame H L cfg store e now conn fr n = Some n'"
  shows "heap (n_world n') = heap (n_world n) \<and> n_stats n' = n_stats n \<and>
    (n_kv n' = n_kv n \<or> (\<exists>x r. asked_by_client H (ClientFrame conn fr) x \<and>
      owner (op_key x) (c_id cfg) (c_peer_id cfg) = c_id cfg \<and> kv_execute x (n_kv n) = (r, n_kv n')))"
proof (cases "to_ascii_uppercase (command fr) = str ''SEND'' \<and> \<not> eq_ignore_ascii_case (trim (body fr)) (str ''SIZE'')")
  case False
  then show ?thesis using assms
    by (auto simp: handle_client_frame_def Let_def handle_send_def split: if_splits option.splits)
next
  case True
  then have h: "handle_send H L cfg store e now conn (frame_header fr (str ''receipt'')) (body fr) n = Some n'"
    using assms by (auto simp: handle_client_frame_def Let_def split: if_splits)
  show ?thesis
  proof (cases "op_parse (h_plain H) (body fr)")
    case (Inl m)
    with h True show ?thesis by (auto simp: handle_send_def)
  next
    case (Inr x)
    show ?thesis
    proof (cases "owner (op_key x) (c_id cfg) (c_peer_id cfg) = c_id cfg")
      case own: True
      with h True Inr show ?thesis
        by (auto simp: handle_send_def asked_by_client_def split: prod.splits)
    next
      case False
      with h True Inr have "forward H L cfg store e now conn (frame_header fr (str ''receipt'')) x n = Some n'"
        by (simp add: handle_send_def)
      then show ?thesis
        by (auto simp: forward_def Let_def split: if_splits Option.bind_splits sum.splits
            dest!: send_to_peer_keeps)
    qed
  qed
qed

lemma handle_message_kv:
  assumes "handle_message H L cfg store e m n = Some n'"
  shows "heap (n_world n') = heap (n_world n) \<and> n_stats n' = n_stats n \<and>
    (n_kv n' = n_kv n \<or> (\<exists>x r corr. m = Request corr x \<and>
      owner (op_key x) (c_id cfg) (c_peer_id cfg) = c_id cfg \<and> kv_execute x (n_kv n) = (r, n_kv n')))"
proof (cases m)
  case (Request corr x)
  show ?thesis
  proof (cases "owner (op_key x) (c_id cfg) (c_peer_id cfg) = c_id cfg")
    case True
    then show ?thesis using assms Request
      by (auto simp: handle_message_def split: prod.splits Option.bind_splits sum.splits dest!: send_to_peer_keeps)
  next
    case False
    then show ?thesis using assms Request
      by (auto simp: handle_message_def split: prod.splits Option.bind_splits sum.splits dest!: send_to_peer_keeps)
  qed
next
  case (Response corr r)
  then show ?thesis using assms by (auto simp: handle_message_def split: option.splits)
qed

section \<open>The key argument\<close>

text \<open>A key in lower-case hexadecimal, two digits a byte.\<close>

definition hex_text :: "bytes \<Rightarrow> ustr" where
  "hex_text k = concat (map (\<lambda>b. [hex_digit (unat b div 16), hex_digit (unat b mod 16)]) k)"

lemma byte_div: "unat (b :: byte) div 16 < 16"
  using unsigned_less [where 'a = nat, of b] by (simp add: div_less_iff_less_mult)

lemma hex_text_chars: "c \<in> set (hex_text k) \<Longrightarrow> c < 128 \<and> \<not> is_whitespace c"
  using byte_div by (auto simp: hex_text_def hex_digit_props)

lemma length_hex_text: "length (hex_text k) = 2 * length k"
  by (induction k) (auto simp: hex_text_def)

lemma hex_text_pair:
  "i < length k \<Longrightarrow> take 2 (drop (i * 2) (hex_text k)) = [hex_digit (unat (k ! i) div 16), hex_digit (unat (k ! i) mod 16)]"
proof (induction k arbitrary: i)
  case (Cons b k)
  then show ?case by (cases i) (simp_all add: hex_text_def)
qed simp

lemma parse_key_hex:
  "\<forall>i \<in> set is. i < length k \<Longrightarrow> parse_key_bytes (hex_text k) is = Some (Ok (map ((!) k) is))"
proof (induction "is")
  case (Cons i "is")
  have "str_slice (i * 2) (i * 2 + 2) (hex_text k) = Some (take 2 (drop (i * 2) (hex_text k)))"
    using str_slice_ascii [of "hex_text k" "i * 2" "i * 2 + 2"] hex_text_chars Cons.prems by (simp add: length_hex_text)
  moreover have "parse_unsigned 16 255 (take 2 (drop (i * 2) (hex_text k))) = Some (unat (k ! i))"
    using Cons.prems byte_div [of "k ! i"] by (simp add: hex_text_pair parse_hex_pair)
  ultimately show ?case using Cons by simp
qed simp

lemma parse_key_hex_text:
  assumes "length k = KEYBYTES"
  shows "parse_key (hex_text k) = Some (Ok k)"
proof -
  have k: "length k = 32" using assms by (simp add: KEYBYTES_def)
  have "hex_text k \<noteq> []" using length_hex_text [of k] k by auto
  then have "trim ([] @ hex_text k @ []) = hex_text k" using hex_text_chars by (intro trim_padded) auto
  moreover have "str_len (hex_text k) = 64" using str_len_ascii [of "hex_text k"] hex_text_chars k by (simp add: length_hex_text)
  moreover have "parse_key_bytes (hex_text k) [0..<32] = Some (Ok k)"
    using parse_key_hex [of "[0..<32]" k] map_nth [of k] k by simp
  ultimately show ?thesis by (simp add: parse_key_def)
qed

lemma parse_key_bytes_length: "parse_key_bytes hex is = Some (Ok bs) \<Longrightarrow> length bs = length is"
  by (induction hex "is" arbitrary: bs rule: parse_key_bytes.induct)
    (auto split: Option.bind_splits option.splits sum.splits)

lemma parse_args_key:
  assumes "parse_args H args = Some (Proceed cfg)"
  shows "length (c_key cfg) = KEYBYTES"
proof -
  obtain hex where "parse_key hex = Some (Ok (c_key cfg))"
    using assms by (auto simp: parse_args_def finish_args_def split: cli.splits sum.splits if_splits Option.bind_splits)
  then show ?thesis by (auto simp: parse_key_def Let_def KEYBYTES_def dest: parse_key_bytes_length split: if_splits)
qed

text \<open>A non-ASCII argument of 64 bytes makes the slice panic instead of being refused.\<close>

lemma parse_key_panics: "parse_key (str ''0'' @ [0xE9] @ replicate 61 48) = None"
proof -
  have t: "trim (str ''0'' @ [0xE9] @ replicate 61 48) = str ''0'' @ [0xE9] @ replicate 61 48"
    using trim_padded [of "[]" "[]" "str ''0'' @ [0xE9] @ replicate 61 48"] by (simp add: is_whitespace_def)
  have l: "str_len (str ''0'' @ [0xE9] @ replicate 61 48) = 64"
    by (simp add: str_len_def as_bytes_def utf8_char_def length_concat sum_list_triv)
  have "str_slice 0 2 (str ''0'' @ [0xE9] @ replicate 61 48) = None"
    by (simp add: str_slice_def utf8_char_def)
  moreover have "[0..<32] = 0 # [1..<32]" by (simp add: upt_conv_Cons)
  ultimately have "parse_key_bytes (str ''0'' @ [0xE9] @ replicate 61 48) [0..<32] = None"
    by (simp only: parse_key_bytes.simps mult_0 add_0 Option.bind.simps)
  with t l show ?thesis by (simp add: parse_key_def Let_def)
qed

section \<open>Properties\<close>

text \<open>The link key given on the command line is the key used: 64 lower-case hexadecimal digits, with any
  white space around them, are read as exactly the 32 bytes they denote. An argument of 64 bytes
  with a character that is not ASCII in the wrong place is not refused: the slice panics.\<close>

lemma key_argument:
  assumes "length k = KEYBYTES" "\<forall>c \<in> set a. is_whitespace c" "\<forall>c \<in> set b. is_whitespace c"
  shows "parse_key (a @ hex_text k @ b) = Some (Ok k) \<and> parse_key (str ''0'' @ [0xE9] @ replicate 61 48) = None"
proof -
  have "hex_text k \<noteq> []" using length_hex_text [of k] assms(1) by (auto simp: KEYBYTES_def)
  then have "trim (a @ hex_text k @ b) = hex_text k" "trim ([] @ hex_text k @ []) = hex_text k"
    using assms(2,3) hex_text_chars by (intro trim_padded; auto)+
  with parse_key_hex_text [OF assms(1)] have "parse_key (a @ hex_text k @ b) = Some (Ok k)" by (simp add: parse_key_def)
  with parse_key_panics show ?thesis by blast
qed



end
