(* ===== verification/Pair.thy ===== *)
theory Pair
  imports Six_Seven
begin

text \<open>
  The two nodes of a pair. Invariant of one node under any sequence of events, whatever datagrams
  the network delivers; the pair as one key-value map; what a forwarded request and an overdue
  one lead to.
\<close>

declare str_simps [simp del] peer_encode.simps [simp del]

section \<open>One node under any events\<close>

definition pending_ok :: "node \<Rightarrow> bool" where
  "pending_ok n \<longleftrightarrow> distinct (map fst (n_pending n)) \<and> (\<forall>c \<in> fst ` set (n_pending n). c \<le> n_next_corr n)"

definition placed :: "config \<Rightarrow> node \<Rightarrow> bool" where
  "placed cfg n \<longleftrightarrow> (\<forall>k. kv_map (n_kv n) k \<noteq> None \<longrightarrow> owner k (c_id cfg) (c_peer_id cfg) = c_id cfg)"

definition node_inv :: "config \<Rightarrow> keystore \<Rightarrow> node \<Rightarrow> bool" where
  "node_inv cfg store n \<longleftrightarrow> kv_inv (n_kv n) \<and> placed cfg n \<and> ks_inv (n_world n) store \<and> pending_ok n"

definition node_later :: "node \<Rightarrow> node \<Rightarrow> bool" where
  "node_later n n' \<longleftrightarrow> n_next_corr n \<le> n_next_corr n' \<and> (\<exists>x. n_written n' = n_written n @ x) \<and>
     (\<exists>x. n_sent n' = n_sent n @ x)"

lemma node_later_refl: "node_later n n"
  by (simp add: node_later_def)

lemma node_later_trans: "node_later a b \<Longrightarrow> node_later b c \<Longrightarrow> node_later a c"
  unfolding node_later_def by (metis append.assoc order_trans)

lemma node_later_write: "node_later n (write_frame H c bs n)"
  using write_frame_appends [of H c bs n] by (simp add: node_later_def)

lemma node_later_reply: "node_later n (reply_to_client H c rc r n)"
  by (simp add: reply_to_client_def node_later_write)

lemma pending_ok_cong:
  "n_pending n' = n_pending n \<Longrightarrow> n_next_corr n' = n_next_corr n \<Longrightarrow> pending_ok n' = pending_ok n"
  by (simp add: pending_ok_def)

lemma pending_ok_filter:
  assumes "pending_ok n" "n_pending n' = filter P (n_pending n)" "n_next_corr n' = n_next_corr n"
  shows "pending_ok n'"
  using assms by (auto simp: pending_ok_def distinct_map_filter)

lemma node_later_send:
  "send_to_peer H L cfg store e m n = Some (r, n') \<Longrightarrow> node_later n n' \<and> (pending_ok n \<longrightarrow> pending_ok n')"
  by (drule send_to_peer_keeps) (auto simp: node_later_def intro: pending_ok_cong [THEN iffD2])

lemma u64_succ_less:
  assumes "x \<noteq> (0xFFFFFFFFFFFFFFFF :: u64)"
  shows "x < x + 1"
proof -
  have "unat x \<noteq> 18446744073709551615" using assms by (simp add: word_unat_eq_iff)
  moreover have "unat x < 2 ^ 64" using unsigned_less [where 'a = nat, of x] by simp
  ultimately have "unat x + 1 < 2 ^ 64" by simp
  then have "unat (x + 1) = unat x + 1" by (simp add: unat_word_ariths)
  then show ?thesis by (simp add: word_less_nat_alt)
qed

lemmas corr_fresh = u64_succ_less [of "n_next_corr n" for n]

lemma forward_later:
  assumes "forward H L cfg store e now conn rc x n = Some n'"
  shows "node_later n n' \<and> (pending_ok n \<longrightarrow> pending_ok n')"
proof -
  let ?corr = "n_next_corr n + 1"
  have ne: "n_next_corr n \<noteq> 0xFFFFFFFFFFFFFFFF"
    using assms by (auto simp: forward_def split: if_splits)
  note fresh = corr_fresh [OF ne]
  obtain r n2 where s: "send_to_peer H L cfg store e (peer_encode (Request ?corr x)) (n\<lparr>n_next_corr := ?corr\<rparr>) = Some (r, n2)"
    and n': "n' = (case r of Inl m \<Rightarrow> reply_to_client H conn rc (ReplyErr m) n2 | Inr _ \<Rightarrow>
      n2\<lparr>n_pending := hm_insert ?corr \<lparr>p_conn = conn, p_receipt = rc, p_deadline = now + FORWARD_TIMEOUT\<rparr> (n_pending n2)\<rparr>)"
    using assms ne by (auto simp: forward_def Let_def split: Option.bind_splits sum.splits)
  obtain w y where n2: "n2 = n\<lparr>n_next_corr := ?corr, n_world := w, n_sent := n_sent n @ y\<rparr>"
    using send_to_peer_keeps [OF s] by auto
  have l2: "node_later n n2" using fresh by (simp add: n2 node_later_def)
  have p2: "pending_ok n2" if "pending_ok n" using that fresh by (fastforce simp: n2 pending_ok_def)
  show ?thesis
  proof (cases r)
    case (Inl m)
    then show ?thesis using n' l2 p2 node_later_reply [of n2] node_later_trans pending_ok_cong [of n' n2] by auto
  next
    case (Inr u)
    have "pending_ok n'" if "pending_ok n"
      using p2 [OF that] n' Inr
      by (auto simp: pending_ok_def hm_insert_def hm_remove_def distinct_map_filter n2)
    then show ?thesis using n' Inr l2 by (auto simp: node_later_def)
  qed
qed

lemma handle_client_later:
  assumes "handle_client_frame H L cfg store e now conn fr n = Some n'"
  shows "node_later n n' \<and> (pending_ok n \<longrightarrow> pending_ok n')"
proof (cases "\<exists>rc x. forward H L cfg store e now conn rc x n = Some n'")
  case True
  then show ?thesis using forward_later by blast
next
  case False
  then have "n_next_corr n' = n_next_corr n \<and> n_pending n' = n_pending n \<and> (\<exists>x. n_written n' = n_written n @ x) \<and>
      n_sent n' = n_sent n"
    using assms write_frame_appends [of H conn]
    by (auto simp: handle_client_frame_def handle_send_def Let_def reply_to_client_def
        split: if_splits option.splits sum.splits prod.splits) (metis node.select_convs(7) node.surjective node.update_convs(1))+
  then show ?thesis using pending_ok_cong [of n' n] by (auto simp: node_later_def)
qed

lemma handle_message_later:
  assumes "handle_message H L cfg store e m n = Some n'"
  shows "node_later n n' \<and> (pending_ok n \<longrightarrow> pending_ok n')"
proof (cases m)
  case (Request corr x)
  obtain r st where ex: "(if owner (op_key x) (c_id cfg) (c_peer_id cfg) = c_id cfg then kv_execute x (n_kv n)
      else (ReplyErr (str ''key '' @ show_u64 (op_key x) @ str '' does not belong to node '' @
        show_nat (unat (c_id cfg))), n_kv n)) = (r, st)" by fastforce
  obtain res n1 where s: "send_to_peer H L cfg store e (peer_encode (Response corr r)) (n\<lparr>n_kv := st\<rparr>) = Some (res, n1)"
    using assms by (auto simp: handle_message_def Request ex split: Option.bind_splits)
  have n': "n' = n1 \<or> (\<exists>l. n' = n1\<lparr>n_log := l\<rparr>)"
    using assms s by (cases res) (auto simp: handle_message_def Request ex)
  note k = node_later_send [OF s]
  have "node_later n n1" "pending_ok n \<Longrightarrow> pending_ok n1"
    using k pending_ok_cong [of "n\<lparr>n_kv := st\<rparr>" n] by (simp_all add: node_later_def)
  then show ?thesis using n' pending_ok_cong [of n' n1] by (auto simp: node_later_def)
next
  case (Response corr r)
  show ?thesis
  proof (cases "map_of (n_pending n) corr")
    case None
    with assms Response show ?thesis by (simp add: handle_message_def node_later_refl)
  next
    case (Some p)
    then have n': "n' = reply_to_client H (p_conn p) (p_receipt p) r (n\<lparr>n_pending := hm_remove corr (n_pending n)\<rparr>)"
      using assms Response by (simp add: handle_message_def)
    have "node_later n n'"
      using node_later_reply [of "n\<lparr>n_pending := hm_remove corr (n_pending n)\<rparr>"] by (simp add: n' node_later_def)
    then show ?thesis using pending_ok_filter [of n n'] by (auto simp: n' hm_remove_def)
  qed
qed

text \<open>A datagram: refused or foreign, or the message of an authentic frame of the peer.\<close>

lemma datagram_cases:
  assumes "sodium_contract L" "ks_inv (n_world n) store" "handle_datagram H L cfg store e bs n = Some n'"
  obtains (ignored) w st l where "n' = n\<lparr>n_world := w, n_stats := st, n_log := n_log n @ l\<rparr>"
      "heap w = heap (n_world n)"
    | (taken) hdr fl key payload t m w where
      "lookup (n_world n) store (c_peer_id cfg) (flags_epoch fl) = Some key" "sealed_frame L key hdr fl payload bs"
      "from_id hdr = c_peer_id cfg" "to_id hdr = ks_local_id store" "channel hdr = PEER_CHANNEL"
      "from_utf8 payload = Some t" "peer_decode (h_plain H) t = Ok m" "heap w = heap (n_world n)"
      "handle_message H L cfg store e m (n\<lparr>n_world := w\<rparr>) = Some n'"
proof -
  note L = sodium_contractD [OF assms(1)]
  obtain r w st where d: "dek_open L store bs (n_world n) (n_stats n) = Some (r, w, st)"
    using assms(3) by (auto simp: handle_datagram_def split: Option.bind_splits)
  note acc = dek_open_accounts [OF L(1,2) assms(2) d]
  have heap: "heap w = heap (n_world n)" using acc by (auto simp: wipe_dek_def)
  have ign: "n\<lparr>n_world := w, n_stats := st\<rparr> = n\<lparr>n_world := w, n_stats := st, n_log := n_log n @ []\<rparr>" by simp
  show thesis
  proof (cases r)
    case (Inl x)
    then have "n' = n\<lparr>n_world := w, n_stats := st\<rparr>" using assms(3) d by (simp add: handle_datagram_def)
    with ign heap show thesis using ignored by metis
  next
    case (Inr y)
    obtain hdr fl payload where y: "y = (hdr, fl, payload)" by (metis prod_cases3)
    have st: "st = n_stats n" using acc Inr by simp
    show thesis
    proof (cases "from_id hdr = c_peer_id cfg \<and> channel hdr = PEER_CHANNEL \<and>
        (\<exists>t m. from_utf8 payload = Some t \<and> peer_decode (h_plain H) t = Ok m)")
      case False
      then have "n' = n\<lparr>n_world := w, n_stats := st\<rparr> \<or> (\<exists>l. n' = n\<lparr>n_world := w, n_stats := st, n_log := n_log n @ l\<rparr>)"
        using assms(3) d Inr y
        by (auto simp: handle_datagram_def Let_def split: if_splits option.splits sum.splits)
      with ign heap show thesis using ignored by metis
    next
      case True
      then obtain t m where t: "from_id hdr = c_peer_id cfg" "channel hdr = PEER_CHANNEL" "from_utf8 payload = Some t"
        "peer_decode (h_plain H) t = Ok m" by blast
      obtain key where k: "to_id hdr = ks_local_id store" "lookup (n_world n) store (from_id hdr) (flags_epoch fl) = Some key"
          "sealed_frame L key hdr fl payload bs"
        using dek_open_accepts [OF L(1,2) assms(2) d [unfolded Inr y]] by blast
      have "handle_message H L cfg store e m (n\<lparr>n_world := w\<rparr>) = Some n'"
        using assms(3) d Inr y t st by (simp add: handle_datagram_def Let_def)
      with taken k t heap show thesis by metis
    qed
  qed
qed

lemma expire_later:
  "node_later n (expire_loop H cfg cs n) \<and> (pending_ok n \<longrightarrow> pending_ok (expire_loop H cfg cs n)) \<and>
    n_kv (expire_loop H cfg cs n) = n_kv n \<and> n_world (expire_loop H cfg cs n) = n_world n"
proof (induction cs arbitrary: n)
  case (Cons c cs)
  show ?case
  proof (cases "map_of (n_pending n) c")
    case (Some p)
    define n1 where "n1 = reply_to_client H (p_conn p) (p_receipt p) (timeout_reply cfg) (n\<lparr>n_pending := hm_remove c (n_pending n)\<rparr>)"
    have n1: "node_later n n1" "n_kv n1 = n_kv n" "n_world n1 = n_world n" "pending_ok n \<Longrightarrow> pending_ok n1"
      using node_later_reply [of "n\<lparr>n_pending := hm_remove c (n_pending n)\<rparr>"] pending_ok_filter [of n n1]
      by (simp_all add: n1_def node_later_def hm_remove_def)
    then show ?thesis using Cons.IH [of n1] Some node_later_trans by (auto simp: n1_def [symmetric])
  qed (use Cons.IH [of n] in simp)
qed (simp add: node_later_refl)

text \<open>The effect of one event on the store of the node.\<close>

lemma node_step_kv:
  assumes "sodium_contract L" "ks_inv (n_world n) store" "node_step H L cfg store e (now, ev) n = Some n'"
  shows "heap (n_world n') = heap (n_world n) \<and>
    (n_kv n' = n_kv n \<or> (\<exists>x r. (asked_by_client H ev x \<or> asked_by_peer H L cfg store (n_world n) ev x) \<and>
      owner (op_key x) (c_id cfg) (c_peer_id cfg) = c_id cfg \<and> kv_execute x (n_kv n) = (r, n_kv n')))"
proof (cases ev)
  case (ClientFrame conn fr)
  then show ?thesis using assms(3) handle_client_kv [of H L cfg store e now conn fr n n'] by auto
next
  case (Datagram bs)
  with assms(3) have h: "handle_datagram H L cfg store e bs n = Some n'" by simp
  show ?thesis
  proof (rule datagram_cases [OF assms(1,2) h])
    fix hdr fl key payload t m w
    assume a: "lookup (n_world n) store (c_peer_id cfg) (flags_epoch fl) = Some key" "sealed_frame L key hdr fl payload bs"
      "from_id hdr = c_peer_id cfg" "to_id hdr = ks_local_id store" "channel hdr = PEER_CHANNEL"
      "from_utf8 payload = Some t" "peer_decode (h_plain H) t = Ok m" and w: "heap w = heap (n_world n)"
      and "handle_message H L cfg store e m (n\<lparr>n_world := w\<rparr>) = Some n'"
    note k = handle_message_kv [OF this(9)]
    have "asked_by_peer H L cfg store (n_world n) ev x" if "m = Request corr x" for corr x
      unfolding asked_by_peer_def Datagram using a that by blast
    with k w show ?thesis by auto
  qed auto
next
  case Tick
  then show ?thesis using assms(3) expire_later by (auto simp: handle_tick_def)
qed (use assms(3) in auto)

lemma node_step_later:
  assumes "sodium_contract L" "ks_inv (n_world n) store" "node_step H L cfg store e (now, ev) n = Some n'"
  shows "node_later n n' \<and> (pending_ok n \<longrightarrow> pending_ok n')"
proof (cases ev)
  case (ClientFrame conn fr)
  then show ?thesis using assms(3) handle_client_later [of H L cfg store e now conn fr n n'] by auto
next
  case (Datagram bs)
  with assms(3) have h: "handle_datagram H L cfg store e bs n = Some n'" by simp
  show ?thesis
  proof (rule datagram_cases [OF assms(1,2) h])
    fix hdr fl key payload t m w
    assume "handle_message H L cfg store e m (n\<lparr>n_world := w\<rparr>) = Some n'"
    from handle_message_later [OF this] pending_ok_cong [of "n\<lparr>n_world := w\<rparr>" n] show ?thesis
      by (simp add: node_later_def)
  next
    fix w st l assume "n' = n\<lparr>n_world := w, n_stats := st, n_log := n_log n @ l\<rparr>"
    then show ?thesis using pending_ok_cong [of n' n] by (simp add: node_later_def)
  qed
next
  case Tick
  then show ?thesis using assms(3) expire_later by (auto simp: handle_tick_def)
next
  case (ClientDown conn)
  then show ?thesis using assms(3) pending_ok_filter [of n n'] by (auto simp: node_later_def)
next
  case (ClientUp conn)
  then show ?thesis using assms(3) pending_ok_cong [of n' n] by (auto simp: node_later_def)
qed

lemma placed_step:
  assumes "kv_inv (n_kv n)" "placed cfg n" "owner (op_key x) (c_id cfg) (c_peer_id cfg) = c_id cfg"
    and "kv_execute x (n_kv n) = (r, n_kv n')"
  shows "placed cfg n'"
  unfolding placed_def
proof (intro allI impI)
  fix k assume k: "kv_map (n_kv n') k \<noteq> None"
  show "owner k (c_id cfg) (c_peer_id cfg) = c_id cfg"
  proof (cases "k = op_key x")
    case False
    with k kv_other_keys [OF assms(1,4)] assms(2) show ?thesis by (simp add: placed_def)
  qed (simp add: assms(3))
qed

lemma node_step_inv:
  assumes "sodium_contract L" "node_inv cfg store n" "node_step H L cfg store e (now, ev) n = Some n'"
  shows "node_inv cfg store n' \<and> node_later n n'"
proof -
  have inv: "kv_inv (n_kv n)" "placed cfg n" "ks_inv (n_world n) store" "pending_ok n"
    using assms(2) by (simp_all add: node_inv_def)
  note k = node_step_kv [OF assms(1) inv(3) assms(3)] and l = node_step_later [OF assms(1) inv(3) assms(3)]
  have "kv_inv (n_kv n') \<and> placed cfg n'"
  proof (cases "n_kv n' = n_kv n")
    case True
    then show ?thesis using inv by (simp add: placed_def)
  next
    case False
    with k obtain x r where x: "owner (op_key x) (c_id cfg) (c_peer_id cfg) = c_id cfg"
      "kv_execute x (n_kv n) = (r, n_kv n')" by blast
    then show ?thesis using kv_refines [OF inv(1) x(2)] placed_step [OF inv(1,2) x] by simp
  qed
  with k l inv show ?thesis by (simp add: node_inv_def ks_inv_heap [of "n_world n'" "n_world n"])
qed

definition node_call ::
  "host \<Rightarrow> sodium_lib \<Rightarrow> config \<Rightarrow> keystore \<Rightarrow> epoch \<Rightarrow> nat \<times> event \<Rightarrow> node \<Rightarrow> (unit \<times> node) option" where
  "node_call H L cfg store e x n = map_option (Pair ()) (node_step H L cfg store e x n)"

interpretation core: safe_machine "node_call H L cfg store e" "\<lambda>n. sodium_contract L \<and> node_inv cfg store n" node_later
  for H L cfg store e
proof unfold_locales
  fix n x r n'
  assume "sodium_contract L \<and> node_inv cfg store n" "node_call H L cfg store e x n = Some (r, n')"
  then show "(sodium_contract L \<and> node_inv cfg store n') \<and> node_later n n'"
    using node_step_inv [of L cfg store n H e "fst x" "snd x" n'] by (auto simp: node_call_def)
qed (auto intro: node_later_refl node_later_trans)

text \<open>Serving events leaves the guarded memory alone.\<close>

lemma core_loop_heap:
  "sodium_contract L \<Longrightarrow> ks_inv (n_world n) store \<Longrightarrow> core_loop H L cfg store e xs n = Some n' \<Longrightarrow>
    heap (n_world n') = heap (n_world n)"
proof (induction xs arbitrary: n)
  case (Cons x xs)
  obtain t ev where x: "x = (t, ev)" by (cases x)
  obtain n1 where s: "node_step H L cfg store e (t, ev) n = Some n1" "core_loop H L cfg store e xs n1 = Some n'"
    using Cons.prems(3) x by (auto split: Option.bind_splits)
  have h: "heap (n_world n1) = heap (n_world n)" using node_step_kv [OF Cons.prems(1,2) s(1)] by blast
  from Cons.IH [OF Cons.prems(1) _ s(2)] Cons.prems(2) h show ?case by (simp add: ks_inv_heap [OF h])
qed simp

lemma node_inv_start: "ks_inv w store \<Longrightarrow> node_inv cfg store (node_start w st ls)"
  using kv_inv_default
  by (simp add: node_inv_def node_start_def placed_def pending_ok_def kv_map_def bt_get_def)
    (simp add: kv_default_def)

lemma core_loop_reachable:
  "core_loop H L cfg store e xs n = Some n' \<Longrightarrow> reachable (node_call H L cfg store e) n0 n \<Longrightarrow>
    reachable (node_call H L cfg store e) n0 n'"
proof (induction xs arbitrary: n)
  case (Cons x xs)
  then obtain n1 where s: "node_step H L cfg store e x n = Some n1" "core_loop H L cfg store e xs n1 = Some n'"
    by (auto split: Option.bind_splits)
  then have "node_call H L cfg store e x n = Some ((), n1)" by (simp add: node_call_def)
  from reachable_call [of "node_call H L cfg store e" n0 n x "()" n1, OF Cons.prems(2) this]
  have "reachable (node_call H L cfg store e) n0 n1" .
  then show ?case using Cons.IH s(2) by blast
qed simp

lemma reply_written:
  "c \<in> n_clients n \<Longrightarrow> \<exists>ok. n_written (reply_to_client H c rc r n) = n_written n @ [(c, message_bytes rc r, ok)]"
  by (auto simp: reply_to_client_def write_frame_def Let_def)

section \<open>Over the link\<close>

lemma send_ok:
  assumes "sodium_contract L" "ks_inv (n_world n) store" "lookup (n_world n) store (c_peer_id cfg) e = Some key"
    and "str_len m \<le> MAX_PAYLOAD" "h_send H (length (n_sent n)) = None"
  shows "\<exists>nonce w. length nonce = NPUBBYTES \<and> heap w = heap (n_world n) \<and>
    send_to_peer H L cfg store e m n = Some (Ok (), n\<lparr>n_world := w, n_sent := n_sent n @
      [(std_frame L key (ks_local_id store) (c_peer_id cfg) PEER_CHANNEL e nonce (as_bytes m), True)]\<rparr>)"
proof -
  have "length (x_random L (draws (n_world n)) NPUBBYTES) = NPUBBYTES"
    using sodium_contractD(3) [OF assms(1)] by (simp add: random_contract_def)
  then show ?thesis using assms(3-5)
    by (intro exI [of _ "x_random L (draws (n_world n)) NPUBBYTES"]
        exI [of _ "(n_world n)\<lparr>draws := Suc (draws (n_world n))\<rparr>"])
      (simp add: send_to_peer_def dek_seal_spec [OF assms(1,2)] str_len_def not_less Let_def)
qed

lemma receive_ok:
  assumes "sodium_contract L" "ks_inv (n_world n) store" "ks_local_id store = c_id cfg"
    and "lookup (n_world n) store (c_peer_id cfg) e = Some key" "length nonce = NPUBBYTES" "list_all is_scalar (peer_encode m)"
  shows "handle_datagram H L cfg store e
    (std_frame L key (c_peer_id cfg) (c_id cfg) PEER_CHANNEL e nonce (as_bytes (peer_encode m))) n =
    handle_message H L cfg store e m n"
proof -
  note L = sodium_contractD [OF assms(1)]
  note d = dek_open_standard [OF L(1,2) assms(2,5,4), of PEER_CHANNEL "as_bytes (peer_encode m)" "n_stats n"]
  show ?thesis
    using d assms(3) by (simp add: handle_datagram_def Let_def from_utf8_as_bytes [OF assms(6)] peer_decode_encode)
qed

text \<open>Two configurations that name each other, and a node ready for its link.\<close>

definition paired :: "config \<Rightarrow> config \<Rightarrow> bool" where
  "paired a b \<longleftrightarrow> c_peer_id a = c_id b \<and> c_peer_id b = c_id a \<and> c_id a \<noteq> c_id b"

definition linked :: "config \<Rightarrow> keystore \<Rightarrow> epoch \<Rightarrow> bytes \<Rightarrow> node \<Rightarrow> bool" where
  "linked cfg store e key n \<longleftrightarrow> ks_inv (n_world n) store \<and> ks_local_id store = c_id cfg \<and>
     lookup (n_world n) store (c_peer_id cfg) e = Some key"

definition sendable :: "ustr \<Rightarrow> bool" where
  "sendable m \<longleftrightarrow> list_all is_scalar m \<and> str_len m \<le> MAX_PAYLOAD"

lemma linked_heap: "heap (n_world n') = heap (n_world n) \<Longrightarrow> linked cfg store e key n' = linked cfg store e key n"
  by (simp add: linked_def ks_inv_heap [of "n_world n'" "n_world n"] lookup_heap [of "n_world n'" "n_world n"])

lemma owner_other: "paired a b \<Longrightarrow> owner k (c_id a) (c_peer_id a) \<noteq> c_id a \<longleftrightarrow> owner k (c_id b) (c_peer_id b) = c_id b"
  using owner_cases [of k "c_id a" "c_id b"] owner_commute [of k "c_id a" "c_id b"] by (auto simp: paired_def)

lemma hm_remove_fresh: "k \<notin> fst ` set m \<Longrightarrow> hm_remove k m = m"
  by (force simp: hm_remove_def filter_id_conv)

lemma forward_sends:
  assumes "sodium_contract L" "linked cfg store e key n" "pending_ok n" "n_next_corr n \<noteq> 0xFFFFFFFFFFFFFFFF"
    and "sendable (peer_encode (Request (n_next_corr n + 1) x))" "h_send H (length (n_sent n)) = None"
  shows "\<exists>nonce w. length nonce = NPUBBYTES \<and> heap w = heap (n_world n) \<and>
    forward H L cfg store e now conn rc x n = Some (n\<lparr>n_next_corr := n_next_corr n + 1, n_world := w,
      n_sent := n_sent n @ [(std_frame L key (c_id cfg) (c_peer_id cfg) PEER_CHANNEL e nonce
        (as_bytes (peer_encode (Request (n_next_corr n + 1) x))), True)],
      n_pending := (n_next_corr n + 1, \<lparr>p_conn = conn, p_receipt = rc, p_deadline = now + FORWARD_TIMEOUT\<rparr>) #
        n_pending n\<rparr>)"
proof -
  have fresh: "n_next_corr n + 1 \<notin> fst ` set (n_pending n)"
    using corr_fresh [OF assms(4)] assms(3) by (force simp: pending_ok_def)
  obtain nonce w where s: "length nonce = NPUBBYTES" "heap w = heap (n_world n)"
    "send_to_peer H L cfg store e (peer_encode (Request (n_next_corr n + 1) x)) (n\<lparr>n_next_corr := n_next_corr n + 1\<rparr>) =
      Some (Ok (), n\<lparr>n_next_corr := n_next_corr n + 1, n_world := w, n_sent := n_sent n @
        [(std_frame L key (ks_local_id store) (c_peer_id cfg) PEER_CHANNEL e nonce
          (as_bytes (peer_encode (Request (n_next_corr n + 1) x))), True)]\<rparr>)"
    using send_ok [OF assms(1), of "n\<lparr>n_next_corr := n_next_corr n + 1\<rparr>" store cfg e key
        "peer_encode (Request (n_next_corr n + 1) x)" H] assms(2,5,6)
    by (auto simp: linked_def sendable_def)
  then show ?thesis using assms(2,4) hm_remove_fresh [OF fresh]
    by (intro exI [of _ nonce] exI [of _ w]) (simp add: forward_def Let_def hm_insert_def linked_def)
qed

lemma peer_answers:
  assumes "sodium_contract L" "linked cfg store e key n" "length nonce = NPUBBYTES"
    and "owner (op_key x) (c_id cfg) (c_peer_id cfg) = c_id cfg" "kv_execute x (n_kv n) = (r, st)"
    and "sendable (peer_encode (Request corr x))" "sendable (peer_encode (Response corr r))"
    and "h_send H (length (n_sent n)) = None"
  shows "\<exists>nonce' w. length nonce' = NPUBBYTES \<and> heap w = heap (n_world n) \<and>
    handle_datagram H L cfg store e (std_frame L key (c_peer_id cfg) (c_id cfg) PEER_CHANNEL e nonce
      (as_bytes (peer_encode (Request corr x)))) n =
    Some (n\<lparr>n_kv := st, n_world := w, n_sent := n_sent n @ [(std_frame L key (c_id cfg) (c_peer_id cfg) PEER_CHANNEL e nonce'
      (as_bytes (peer_encode (Response corr r))), True)]\<rparr>)"
proof -
  have l: "ks_inv (n_world n) store" "ks_local_id store = c_id cfg" "lookup (n_world n) store (c_peer_id cfg) e = Some key"
    using assms(2) by (simp_all add: linked_def)
  have "handle_datagram H L cfg store e (std_frame L key (c_peer_id cfg) (c_id cfg) PEER_CHANNEL e nonce
      (as_bytes (peer_encode (Request corr x)))) n = handle_message H L cfg store e (Request corr x) n"
    using receive_ok [OF assms(1) l assms(3)] assms(6) by (simp add: sendable_def)
  moreover obtain nonce' w where "length nonce' = NPUBBYTES" "heap w = heap (n_world n)"
    "send_to_peer H L cfg store e (peer_encode (Response corr r)) (n\<lparr>n_kv := st\<rparr>) = Some (Ok (), n\<lparr>n_kv := st,
      n_world := w, n_sent := n_sent n @ [(std_frame L key (c_id cfg) (c_peer_id cfg) PEER_CHANNEL e nonce'
      (as_bytes (peer_encode (Response corr r))), True)]\<rparr>)"
    using send_ok [OF assms(1), of "n\<lparr>n_kv := st\<rparr>" store cfg e key "peer_encode (Response corr r)" H] l assms(7,8)
    by (auto simp: sendable_def)
  ultimately show ?thesis using assms(4,5)
    by (intro exI [of _ nonce'] exI [of _ w]) (simp add: handle_message_def)
qed

lemma response_delivered:
  assumes "sodium_contract L" "linked cfg store e key n" "length nonce = NPUBBYTES" "sendable (peer_encode (Response corr r))"
    and "map_of (n_pending n) corr = Some p" "p_conn p \<in> n_clients n"
  shows "\<exists>n' ok. handle_datagram H L cfg store e (std_frame L key (c_peer_id cfg) (c_id cfg) PEER_CHANNEL e nonce
      (as_bytes (peer_encode (Response corr r)))) n = Some n' \<and>
    n_written n' = n_written n @ [(p_conn p, message_bytes (p_receipt p) r, ok)] \<and>
    n_pending n' = hm_remove corr (n_pending n) \<and> n_kv n' = n_kv n"
proof -
  have l: "ks_inv (n_world n) store" "ks_local_id store = c_id cfg" "lookup (n_world n) store (c_peer_id cfg) e = Some key"
    using assms(2) by (simp_all add: linked_def)
  have "handle_datagram H L cfg store e (std_frame L key (c_peer_id cfg) (c_id cfg) PEER_CHANNEL e nonce
      (as_bytes (peer_encode (Response corr r)))) n = handle_message H L cfg store e (Response corr r) n"
    using receive_ok [OF assms(1) l assms(3)] assms(4) by (simp add: sendable_def)
  then show ?thesis
    using assms(5) reply_written [of "p_conn p" "n\<lparr>n_pending := hm_remove corr (n_pending n)\<rparr>" H "p_receipt p" r] assms(6)
    by (simp add: handle_message_def)
qed

lemma send_command:
  assumes "to_ascii_uppercase (command fr) = str ''SEND''"
  shows "handle_client_frame H L cfg store e now conn fr n =
    handle_send H L cfg store e now conn (frame_header fr (str ''receipt'')) (body fr) n"
  using assms by (simp add: handle_client_frame_def Let_def str_simps)

text \<open>The map of a pair: every key read at its home.\<close>

definition pair_map :: "config \<Rightarrow> node \<Rightarrow> node \<Rightarrow> u64 \<Rightarrow> ustr option" where
  "pair_map cfg near far k =
     (if owner k (c_id cfg) (c_peer_id cfg) = c_id cfg then kv_map (n_kv near) k else kv_map (n_kv far) k)"

section \<open>Overdue requests\<close>

lemma expire_pending: "n_pending (expire_loop H cfg cs n) = filter (\<lambda>(c, _). c \<notin> set cs) (n_pending n)"
proof (induction cs arbitrary: n)
  case (Cons c cs)
  show ?case
  proof (cases "map_of (n_pending n) c")
    case None
    then have "c \<notin> fst ` set (n_pending n)" by (simp add: map_of_eq_None_iff)
    then show ?thesis using None Cons.IH [of n] by (force intro: filter_cong)
  next
    case (Some p)
    then show ?thesis by (auto simp: Cons.IH hm_remove_def intro!: filter_cong)
  qed
qed (simp add: case_prod_unfold)

lemma expire_clients: "n_clients (expire_loop H cfg cs n) \<subseteq> n_clients n"
proof (induction cs arbitrary: n)
  case (Cons c cs)
  show ?case
  proof (cases "map_of (n_pending n) c")
    case (Some p)
    let ?m = "n\<lparr>n_pending := hm_remove c (n_pending n)\<rparr>"
    have "n_clients (reply_to_client H (p_conn p) (p_receipt p) (timeout_reply cfg) ?m) \<subseteq> n_clients n"
      using write_frame_clients [of H "p_conn p" _ ?m] by (simp add: reply_to_client_def)
    from order_trans [OF Cons.IH this] Some show ?thesis by simp
  qed (use Cons.IH in simp)
qed simp

text \<open>The ids that a tick expires, and what it leaves on record.\<close>

lemma overdue_ids:
  assumes "pending_ok n" "\<forall>xs. set (h_order H xs) = set xs" "(c, p) \<in> set (n_pending n)"
  shows "c \<in> set (h_order H (map fst (filter (\<lambda>(_, p). p_deadline p \<le> now) (n_pending n)))) \<longleftrightarrow> p_deadline p \<le> now"
proof -
  have "distinct (map fst (n_pending n))" using assms(1) by (simp add: pending_ok_def)
  with assms(2,3) show ?thesis by (force dest: eq_key_imp_eq_value)
qed

lemma tick_pending:
  assumes "pending_ok n" "\<forall>xs. set (h_order H xs) = set xs"
  shows "n_pending (handle_tick H cfg now n) = filter (\<lambda>(_, p). now < p_deadline p) (n_pending n)"
  unfolding handle_tick_def expire_pending using overdue_ids [OF assms] by (intro filter_cong) (auto simp: not_le)

lemma expire_answers:
  assumes "distinct (map fst (n_pending n))" "(c, p) \<in> set (n_pending n)" "c \<in> set cs" "p_conn p \<in> n_clients n"
  shows "p_conn p \<in> n_clients (expire_loop H cfg cs n) \<longrightarrow>
    (\<exists>ok. (p_conn p, message_bytes (p_receipt p) (timeout_reply cfg), ok) \<in> set (n_written (expire_loop H cfg cs n)))"
  using assms
proof (induction cs arbitrary: n)
  case (Cons d cs)
  show ?case
  proof (cases "map_of (n_pending n) d")
    case None
    then have "d \<noteq> c" using Cons.prems(2) by (force simp: map_of_eq_None_iff)
    with Cons None show ?thesis by simp
  next
    case (Some q)
    define n1 where "n1 = reply_to_client H (p_conn q) (p_receipt q) (timeout_reply cfg) (n\<lparr>n_pending := hm_remove d (n_pending n)\<rparr>)"
    have step: "expire_loop H cfg (d # cs) n = expire_loop H cfg cs n1" by (simp add: Some n1_def)
    obtain x where x: "n_written (expire_loop H cfg cs n1) = n_written n1 @ x"
      using expire_later [of n1 H cfg cs] by (auto simp: node_later_def)
    show ?thesis
    proof (cases "c = d")
      case True
      then have "q = p" using Some map_of_is_SomeI [OF Cons.prems(1,2)] by (metis option.inject)
      then obtain ok where "n_written n1 = n_written n @ [(p_conn p, message_bytes (p_receipt p) (timeout_reply cfg), ok)]"
        using reply_written [of "p_conn p" "n\<lparr>n_pending := hm_remove d (n_pending n)\<rparr>" H "p_receipt p" "timeout_reply cfg"]
          Cons.prems(4) by (auto simp: n1_def)
      then show ?thesis unfolding step using x by auto
    next
      case False
      have n1: "distinct (map fst (n_pending n1))" "(c, p) \<in> set (n_pending n1)" "c \<in> set cs"
        using Cons.prems False by (auto simp: n1_def hm_remove_def distinct_map_filter)
      show ?thesis
      proof (cases "p_conn p \<in> n_clients n1")
        case True
        then show ?thesis unfolding step using Cons.IH [OF n1] by simp
      next
        case False
        then show ?thesis unfolding step using expire_clients [of H cfg cs n1] by auto
      qed
    qed
  qed
qed simp

section \<open>Start-up\<close>

lemma run_setup_ok:
  assumes "run_setup H L cfg st w = (Ok (store, e, n), w')"
  shows "\<exists>w1 w2 store0 u. sodium_init L w = (Ok u, w1) \<and> epoch_new EPOCH = Ok e \<and>
    keystore_new L (c_id cfg) w1 = (Ok store0, w2) \<and>
    install L (c_peer_id cfg) e (c_key cfg) w2 store0 = (Ok (), w', store) \<and> n = node_start w' st (banner cfg)"
  using assms by (auto simp: run_setup_def split: prod.splits sum.splits option.splits)

lemma keystore_new_ok:
  "keystore_new L me w = (Ok store, w') \<Longrightarrow> store = \<lparr>ks_local_id = me, entries = []\<rparr> \<and> heap w' = heap w"
  by (auto simp: keystore_new_def sodium_init_def Let_def split: prod.splits sum.splits if_splits)

lemma run_setup_linked:
  assumes "sodium_contract L" "heap w = []" "length (c_key cfg) = KEYBYTES"
    and "run_setup H L cfg st w = (Ok (store, e, n), w')"
  shows "linked cfg store e (c_key cfg) n \<and> node_inv cfg store n \<and> e = Epoch 0"
proof -
  obtain w1 w2 store0 u where s: "sodium_init L w = (Ok u, w1)" "epoch_new EPOCH = Ok e"
    "keystore_new L (c_id cfg) w1 = (Ok store0, w2)"
    "install L (c_peer_id cfg) e (c_key cfg) w2 store0 = (Ok (), w', store)" "n = node_start w' st (banner cfg)"
    using run_setup_ok [OF assms(4)] by blast
  note M = sodium_contractD(2) [OF assms(1)]
  have e: "e = Epoch 0" "epoch_ok e" using s(2) by (auto simp: epoch_new_def EPOCH_def epoch_ok_def split: if_splits)
  have h: "heap w2 = []" "store0 = \<lparr>ks_local_id = c_id cfg, entries = []\<rparr>"
    using keystore_new_ok [OF s(3)] s(1) assms(2) by (auto simp: sodium_init_def Let_def split: if_splits)
  have "ks_inv w2 store0" unfolding h(2) by (rule ks_inv_fresh [OF h(1)])
  note ref = install_refines [OF M this e(2) assms(3) s(4)]
  have "ks_local_id store = c_id cfg"
    using s(4) h(2) by (auto simp: install_def Let_def bt_insert_def split: if_splits prod.splits sum.splits option.splits)
  then show ?thesis using ref e node_inv_start [of w' store cfg st "banner cfg"]
    by (simp add: linked_def s(5) lookup_abs) (simp add: node_start_def)
qed

text \<open>When the process ends, the store of the link key is gone.\<close>

lemma drop_link:
  assumes "memory_contract L" "ks_inv w store"
  shows "heap (keystore_drop L store w) = [] \<and>
    released (keystore_drop L store w) = replicate (keystore_len store) (zeros KEYBYTES, zeros KEYBYTES) @ released w"
  using clear_refines [OF assms, of "fst (keystore_clear L w store)" "snd (keystore_clear L w store)"]
  by (simp add: keystore_drop_clear)

lemma install_one_entry:
  assumes "install L p e m w \<lparr>ks_local_id = me, entries = []\<rparr> = (r, w', store)"
  shows "keystore_len store = (if r = Ok () then 1 else 0) \<and> (r \<noteq> Ok () \<longrightarrow> store = \<lparr>ks_local_id = me, entries = []\<rparr>)"
  using assms
  by (auto simp: install_def Let_def bt_insert_def keystore_len_def bt_contains_key_def bt_get_def MAX_ENTRIES_def
      split: if_splits prod.splits sum.splits option.splits)

lemma run_setup_one_key:
  assumes "run_setup H L cfg st w = (Ok (store, e, n), w')"
  shows "keystore_len store = 1"
  using run_setup_ok [OF assms] keystore_new_ok install_one_entry by fastforce

lemma one_key_heap:
  assumes "ks_inv w store" "lookup w store p e = Some k" "keystore_len store = 1"
  shows "\<exists>a. heap w = [(a, k)]"
proof -
  obtain x g where es: "entries store = [(x, g)]"
    using assms(3) by (auto simp: keystore_len_def length_Suc_conv)
  obtain g' where g: "bt_get (entries store) (p, e) = Some g'" and k: "k = expose w g'"
    using assms(2) by (auto simp: lookup_def key_for_receive_def)
  have wf: "distinct (map fst (heap w))" and "live w = {ga_ptr g}"
    using assms(1) es by (simp_all add: ks_inv_def wf_heap_def ptr_of_def)
  then have "length (map fst (heap w)) = 1" using distinct_card [OF wf] by (simp add: live_def)
  then obtain a bs where h: "heap w = [(a, bs)]" by (auto simp: length_Suc_conv)
  obtain cs where "mem w (ga_ptr g') = Some cs" "expose w g' = cs" using ks_inv_entry [OF assms(1) g] by metis
  with h k show ?thesis by (auto simp: mem_def split: if_splits)
qed

lemma run_setup_failed:
  assumes "memory_contract L" "heap w = []" "length (c_key cfg) = KEYBYTES" "run_setup H L cfg st w = (Err m, w')"
  shows "heap w' = [] \<and> (released w' = released w \<or> (\<exists>given. released w' = (given, zeros KEYBYTES) # released w))"
proof -
  obtain r1 w1 where i: "sodium_init L w = (r1, w1)" by fastforce
  then have w1: "heap w1 = []" "released w1 = released w"
    using assms(2) by (auto simp: sodium_init_def Let_def split: if_splits)
  obtain r2 w2 where k: "keystore_new L (c_id cfg) w1 = (r2, w2)" by fastforce
  then have w2: "heap w2 = []" "released w2 = released w"
    using w1 by (auto simp: keystore_new_def sodium_init_def Let_def split: prod.splits sum.splits if_splits)
  show ?thesis
  proof (cases "\<exists>u v e store. r1 = Ok u \<and> require_aes_gcm L = Ok v \<and> epoch_new EPOCH = Ok e \<and> r2 = Ok store")
    case False
    then show ?thesis using assms(4) i k w1 w2
      by (auto simp: run_setup_def split: prod.splits sum.splits option.splits)
  next
    case True
    then obtain u v e where ok: "r1 = Ok u" "require_aes_gcm L = Ok v" "epoch_new EPOCH = Ok e"
      "r2 = Ok \<lparr>ks_local_id = c_id cfg, entries = []\<rparr>"
      using keystore_new_ok [of L "c_id cfg" w1] k by auto
    obtain r3 w3 store where n: "install L (c_peer_id cfg) e (c_key cfg) w2 \<lparr>ks_local_id = c_id cfg, entries = []\<rparr> = (r3, w3, store)"
      by (metis prod_cases3)
    have e: "epoch_ok e" using ok(3) by (auto simp: epoch_new_def EPOCH_def epoch_ok_def split: if_splits)
    note ref = install_refines [OF assms(1) ks_inv_fresh [OF w2(1)] e assms(3) n]
    have "w' = keystore_drop L store w3"
      using assms(4) i k ok n by (auto simp: run_setup_def split: sum.splits option.splits)
    then have d: "heap w' = []" "released w' = replicate (keystore_len store) (zeros KEYBYTES, zeros KEYBYTES) @ released w3"
      using drop_link [OF assms(1)] ref by auto
    show ?thesis using d ref install_one_entry [OF n] w2
      by (cases r3) (auto simp: ks_abs_def bt_get_def split: if_splits)
  qed
qed

text \<open>A host on which everything succeeds, and two nodes of a pair on the concrete library.\<close>

definition demo_host :: host where
  "demo_host = \<lparr>h_plain = \<lambda>c. 32 \<le> c \<and> c < 127, h_parse_addr = Some, h_bind_udp = \<lambda>_. None, h_bind_tcp = \<lambda>_. None,
     h_clone_udp = None, h_send = \<lambda>_. None, h_write = \<lambda>_. True, h_order = \<lambda>xs. xs\<rparr>"

definition demo_config :: "u16 \<Rightarrow> u16 \<Rightarrow> config" where
  "demo_config me peer = \<lparr>c_id = me, c_stomp = [], c_paxe = [], c_peer_id = peer, c_peer_addr = [], c_key = demo_key\<rparr>"

definition demo_node :: node where
  "demo_node = (node_start demo_world stats_init [])\<lparr>n_clients := {1}\<rparr>"

lemma demo_epoch_0: "epoch_ok (Epoch 0)"
  by (simp add: epoch_ok_def MAX_EPOCH_def)

lemma demo_linked: "linked (demo_config me peer) (demo_store me peer (Epoch 0)) (Epoch 0) demo_key demo_node"
  using demo_ks_inv [OF demo_epoch_0]
  by (simp add: linked_def demo_node_def node_start_def demo_config_def demo_lookup) (simp add: demo_store_def)

lemma demo_node_fields:
  "n_pending demo_node = []" "n_next_corr demo_node = 0" "n_sent demo_node = []" "n_written demo_node = []"
  "n_clients demo_node = {1}" "n_kv demo_node = kv_default" "pending_ok demo_node" "n_world demo_node = demo_world"
  by (simp_all add: demo_node_def node_start_def pending_ok_def)

lemma demo_node_inv: "node_inv (demo_config me peer) (demo_store me peer (Epoch 0)) demo_node"
proof -
  have "node_inv (demo_config me peer) (demo_store me peer (Epoch 0)) (node_start demo_world stats_init [])"
    by (rule node_inv_start [OF demo_ks_inv [OF demo_epoch_0]])
  then show ?thesis by (simp add: node_inv_def demo_node_def placed_def pending_ok_def)
qed

text \<open>Two requests a client sends.\<close>

definition demo_put :: frame where
  "demo_put = \<lparr>command = str ''SEND'', headers = [], body = str ''PUT 1 x''\<rparr>"

definition demo_get :: frame where
  "demo_get = \<lparr>command = str ''SEND'', headers = [(str ''receipt'', str ''r'')], body = str ''get 2''\<rparr>"

lemmas demo_text = to_ascii_uppercase_def ascii_upper_def eq_ignore_ascii_case_def trim_def trim_start_def
  trim_end_matches_def is_whitespace_def op_parse_def Let_def request_key_def parse_u64_def parse_unsigned_def
  to_digit_def MAX_PUT_BYTES_def str_len_def as_bytes_def utf8_char_def frame_header_def

lemma demo_put_parsed:
  "to_ascii_uppercase (command demo_put) = str ''SEND''" "\<not> eq_ignore_ascii_case (trim (body demo_put)) (str ''SIZE'')"
  "op_parse p (body demo_put) = Ok (Put 1 (str ''x''))"
  by (simp_all add: demo_put_def str_simps demo_text)

lemma demo_get_parsed:
  "to_ascii_uppercase (command demo_get) = str ''SEND''" "\<not> eq_ignore_ascii_case (trim (body demo_get)) (str ''SIZE'')"
  "op_parse p (body demo_get) = Ok (Get 2)" "frame_header demo_get (str ''receipt'') = Some (str ''r'')"
  by (simp_all add: demo_get_def str_simps demo_text)

lemma demo_started_at:
  assumes "c_id cfg = me" "c_peer_id cfg = peer" "c_key cfg = demo_key"
  shows "run_setup demo_host demo_sodium cfg stats_init fresh_world =
    (Ok (demo_store me peer (Epoch 0), Epoch 0, node_start demo_world stats_init (banner cfg)), demo_world)"
proof -
  have i: "sodium_init demo_sodium w = (Ok (if lib_ready w then AlreadyInitialised else Fresh), w\<lparr>lib_ready := True\<rparr>)" for w
    by (simp add: sodium_init_def demo_fields Let_def)
  have aes: "require_aes_gcm demo_sodium = Ok ()"
    by (simp add: require_aes_gcm_def aes_gcm_available_def demo_sodium_def)
  have "keystore_new demo_sodium me (fresh_world\<lparr>lib_ready := True\<rparr>) =
      (Ok \<lparr>ks_local_id = me, entries = []\<rparr>, fresh_world\<lparr>lib_ready := True\<rparr>)"
    by (simp add: keystore_new_def i)
  then show ?thesis
    using assms by (simp add: run_setup_def i aes epoch_new_def EPOCH_def demo_host_def demo_installed)
qed

lemma demo_started:
  "run_setup demo_host demo_sodium (demo_config 1 2) stats_init fresh_world =
    (Ok (demo_store 1 2 (Epoch 0), Epoch 0, node_start demo_world stats_init (banner (demo_config 1 2))), demo_world)"
  by (rule demo_started_at) (simp_all add: demo_config_def)

lemma str_inject: "str s = str t \<longleftrightarrow> s = t"
  by (simp add: str_def inj_map_eq_map inj_def)

lemma demo_args:
  "parse_args demo_host (map str [''--id'', ''1'', ''--stomp'', ''a'', ''--paxe'', ''b'', ''--peer-id'', ''2'', ''--peer'', ''c'', ''--key''] @
      [hex_text demo_key]) =
    Some (Proceed \<lparr>c_id = 1, c_stomp = str ''a'', c_paxe = str ''b'', c_peer_id = 2, c_peer_addr = str ''c'', c_key = demo_key\<rparr>)"
proof -
  have u: "parse_u16 demo_host (str ''1'') f = Ok 1" "parse_u16 demo_host (str ''2'') f = Ok 2" for f
    by (simp_all add: parse_u16_def parse_unsigned_def to_digit_def str_simps)
  have "parse_addr demo_host a f = Ok a" for a f by (simp add: parse_addr_def demo_host_def)
  moreover have "parse_key (hex_text demo_key) = Some (Ok demo_key)"
    by (rule parse_key_hex_text) (simp add: demo_key_length KEYBYTES_def)
  ultimately show ?thesis
    by (simp add: parse_args_def no_flags_def finish_args_def required_def u str_inject)
qed

lemma demo_owner: "owner 1 1 2 = 1" "owner 2 1 2 = 2" "owner 2 2 1 = 2" "owner 1 2 1 = 1"
  by (simp_all add: owner_def word_le_nat_alt)

lemma demo_sendable: "sendable (peer_encode (Request (0 + 1) (Get 2)))" "sendable (peer_encode (Response (0 + 1) ReplyNil))"
  by (simp_all add: sendable_def peer_encode.simps str_simps show_u64_def str_len_def as_bytes_def
      utf8_char_def is_scalar_def MAX_PAYLOAD_def MAX_UDP_DATAGRAM_def OVERHEAD_def show_nat.simps
      PREFIX_LEN_def NPUBBYTES_def ABYTES_def)

lemma demo_put_step:
  assumes "n_kv n = kv_default"
  shows "\<exists>n'. node_step demo_host L (demo_config 1 2) store e (t, ClientFrame 1 demo_put) n = Some n' \<and>
    kv_map (n_kv n') = [1 \<mapsto> str ''x''] \<and> n_pending n' = n_pending n"
  using assms demo_put_parsed
  by (simp add: send_command handle_send_def demo_owner demo_config_def kv_default_def bt_contains_key_def
      bt_get_def bt_insert_def MAX_KEYS_def kv_map_def fun_eq_iff)

section \<open>Properties\<close>

text \<open>C13. Only its home ever stores a key. A node that has come up stays so under any sequence of events
  (client frames, connections, datagrams of any content, ticks): every key in its store is one
  that the placement rule gives it, the store stays within its cap, the forwarded requests on
  record have distinct correlation ids, none above the last one minted, the keystore is intact, and
  the 32 bytes it holds for the peer under the epoch of the link are still the key the node was
  started with.\<close>

theorem stores_only_its_own_keys:
  assumes "sodium_contract L" "heap w = []" "length (c_key cfg) = KEYBYTES"
    and "run_setup H L cfg st w = (Ok (store, e, n0), w')" "core_loop H L cfg store e events n0 = Some n"
  shows "(\<forall>k. kv_map (n_kv n) k \<noteq> None \<longrightarrow> owner k (c_id cfg) (c_peer_id cfg) = c_id cfg) \<and>
    kv_len (n_kv n) \<le> MAX_KEYS \<and> distinct (map fst (n_pending n)) \<and>
    (\<forall>c \<in> fst ` set (n_pending n). c \<le> n_next_corr n) \<and> ks_inv (n_world n) store \<and>
    lookup (n_world n) store (c_peer_id cfg) e = Some (c_key cfg)"
proof -
  note l = run_setup_linked [OF assms(1-4)]
  have "heap (n_world n) = heap (n_world n0)" using core_loop_heap [OF assms(1) _ assms(5)] l by (simp add: linked_def)
  from linked_heap [OF this] l have "linked cfg store e (c_key cfg) n" by blast
  then have "lookup (n_world n) store (c_peer_id cfg) e = Some (c_key cfg)" by (simp add: linked_def)
  moreover
  have "reachable (node_call H L cfg store e) n0 n"
    using core_loop_reachable [OF assms(5)] reachable_start by metis
  from core.reachable_inv [OF this] assms(1) l have "node_inv cfg store n" by simp
  ultimately show ?thesis by (simp add: node_inv_def placed_def pending_ok_def kv_inv_def)
qed

theorem stores_only_its_own_keys_witness:
  "\<exists>store e n0 w' n. run_setup demo_host demo_sodium (demo_config 1 2) stats_init fresh_world = (Ok (store, e, n0), w') \<and>
    core_loop demo_host demo_sodium (demo_config 1 2) store e
      [(0, ClientUp 1), (1, ClientFrame 1 demo_put), (2, Tick)] n0 = Some n \<and>
    kv_map (n_kv n) 1 = Some (str ''x'') \<and> (\<forall>k. kv_map (n_kv n) k \<noteq> None \<longrightarrow> owner k 1 2 = 1)"
proof -
  let ?n0 = "node_start demo_world stats_init (banner (demo_config 1 2))"
  obtain n1 where s: "node_step demo_host demo_sodium (demo_config 1 2) (demo_store 1 2 (Epoch 0)) (Epoch 0)
      (1, ClientFrame 1 demo_put) (?n0\<lparr>n_clients := {1}\<rparr>) = Some n1" "kv_map (n_kv n1) = [1 \<mapsto> str ''x'']" "n_pending n1 = []"
    using demo_put_step [of "?n0\<lparr>n_clients := {1}\<rparr>" demo_sodium "demo_store 1 2 (Epoch 0)" "Epoch 0" 1]
    by (auto simp: node_start_def)
  have c: "core_loop demo_host demo_sodium (demo_config 1 2) (demo_store 1 2 (Epoch 0)) (Epoch 0)
      [(0, ClientUp 1), (1, ClientFrame 1 demo_put), (2, Tick)] ?n0 = Some n1"
    using s(1,3) by (simp add: node_start_def handle_tick_def demo_host_def)
  from stores_only_its_own_keys [OF demo_contract fresh_fields(1) _ demo_started c] s(2) c demo_started show ?thesis
    by (auto simp: demo_config_def demo_key_length KEYBYTES_def)
qed



text \<open>A pair is one map. Reading each key at its home, the two stores form one partial map, the same
  whichever node is named first; an event at a node leaves that map alone or applies to it exactly
  one operation, on a key of that node, which a client of the node sent or which came in an
  authentic frame of the peer on the peer channel.\<close>

lemma pair_is_one_map:
  assumes "sodium_contract L" "paired ca cb" "node_inv ca sa na" "node_step H L ca sa e (now, ev) na = Some na'"
  shows "pair_map ca na' nb = pair_map cb nb na' \<and>
    (pair_map ca na' nb = pair_map ca na nb \<or>
     (\<exists>x. (asked_by_client H ev x \<or> asked_by_peer H L ca sa (n_world na) ev x) \<and>
       owner (op_key x) (c_id ca) (c_peer_id ca) = c_id ca \<and> pair_map ca na' nb = map_effect x (pair_map ca na nb)))"
proof -
  have inv: "kv_inv (n_kv na)" "ks_inv (n_world na) sa" using assms(3) by (simp_all add: node_inv_def)
  have sym: "pair_map ca na' nb = pair_map cb nb na'"
    using owner_other [OF assms(2)] by (auto simp: pair_map_def fun_eq_iff)
  note k = node_step_kv [OF assms(1) inv(2) assms(4)]
  show ?thesis
  proof (cases "n_kv na' = n_kv na")
    case True
    have "pair_map ca na' nb = pair_map ca na nb" by (rule ext) (simp add: pair_map_def True)
    with sym show ?thesis by blast
  next
    case False
    with k obtain x r where x: "asked_by_client H ev x \<or> asked_by_peer H L ca sa (n_world na) ev x"
      "owner (op_key x) (c_id ca) (c_peer_id ca) = c_id ca" "kv_execute x (n_kv na) = (r, n_kv na')" by blast
    have "kv_map (n_kv na') = map_effect x (kv_map (n_kv na))"
      using kv_refines [OF inv(1) x(3)] False by (auto split: if_splits)
    then have "pair_map ca na' nb = map_effect x (pair_map ca na nb)"
      using x(2) by (cases x) (auto simp: pair_map_def fun_eq_iff)
    with x sym show ?thesis by blast
  qed
qed

text \<open>C12. A forwarded request is answered with what the peer's store says. When a client of one node sends
  an operation on a key of the other and both datagrams arrive, the peer executes exactly that
  operation, and the client is written exactly one frame, the reply of that execution with the
  client's receipt; the request is then off the record.\<close>

theorem forwarded_request_answered:
  assumes "sodium_contract L" "paired ca cb" "linked ca sa e key na" "linked cb sb e key nb" "pending_ok na"
    and "to_ascii_uppercase (command fr) = str ''SEND''" "\<not> eq_ignore_ascii_case (trim (body fr)) (str ''SIZE'')"
    and "op_parse (h_plain Ha) (body fr) = Ok x" "owner (op_key x) (c_id ca) (c_peer_id ca) = c_id cb"
    and "kv_execute x (n_kv nb) = (r, st)" "n_next_corr na \<noteq> 0xFFFFFFFFFFFFFFFF" "conn \<in> n_clients na"
    and "sendable (peer_encode (Request (n_next_corr na + 1) x))" "sendable (peer_encode (Response (n_next_corr na + 1) r))"
    and "h_send Ha (length (n_sent na)) = None" "h_send Hb (length (n_sent nb)) = None"
  shows "\<exists>na1 d1 nb1 d2 na2 ok.
    node_step Ha L ca sa e (t1, ClientFrame conn fr) na = Some na1 \<and> n_sent na1 = n_sent na @ [(d1, True)] \<and>
    node_step Hb L cb sb e (t2, Datagram d1) nb = Some nb1 \<and> n_kv nb1 = st \<and> n_sent nb1 = n_sent nb @ [(d2, True)] \<and>
    node_step Ha L ca sa e (t3, Datagram d2) na1 = Some na2 \<and>
    n_written na2 = n_written na @ [(conn, message_bytes (frame_header fr (str ''receipt'')) r, ok)] \<and>
    n_pending na2 = n_pending na \<and> n_kv na2 = n_kv na"
proof -
  let ?corr = "n_next_corr na + 1" and ?rc = "frame_header fr (str ''receipt'')"
  have ids: "c_peer_id ca = c_id cb" "c_peer_id cb = c_id ca" "c_id ca \<noteq> c_id cb" using assms(2) by (simp_all add: paired_def)
  have own: "owner (op_key x) (c_id ca) (c_peer_id ca) \<noteq> c_id ca" using assms(9) ids by simp
  then have own': "owner (op_key x) (c_id cb) (c_peer_id cb) = c_id cb" using owner_other [OF assms(2)] by blast
  obtain nonce w where f: "length nonce = NPUBBYTES" "heap w = heap (n_world na)"
    "forward Ha L ca sa e t1 conn ?rc x na = Some (na\<lparr>n_next_corr := ?corr, n_world := w,
      n_sent := n_sent na @ [(std_frame L key (c_id ca) (c_peer_id ca) PEER_CHANNEL e nonce
        (as_bytes (peer_encode (Request ?corr x))), True)],
      n_pending := (?corr, \<lparr>p_conn = conn, p_receipt = ?rc, p_deadline = t1 + FORWARD_TIMEOUT\<rparr>) # n_pending na\<rparr>)"
    using forward_sends [OF assms(1,3,5,11,13,15)] by blast
  define d1 where "d1 = std_frame L key (c_id ca) (c_peer_id ca) PEER_CHANNEL e nonce (as_bytes (peer_encode (Request ?corr x)))"
  define na1 where "na1 = na\<lparr>n_next_corr := ?corr, n_world := w, n_sent := n_sent na @ [(d1, True)],
      n_pending := (?corr, \<lparr>p_conn = conn, p_receipt = ?rc, p_deadline = t1 + FORWARD_TIMEOUT\<rparr>) # n_pending na\<rparr>"
  have s1: "node_step Ha L ca sa e (t1, ClientFrame conn fr) na = Some na1"
    using assms(7,8) own f(3) by (simp add: send_command [OF assms(6)] handle_send_def na1_def d1_def)
  obtain nonce2 w2 where g: "length nonce2 = NPUBBYTES"
    "handle_datagram Hb L cb sb e d1 nb = Some (nb\<lparr>n_kv := st, n_world := w2, n_sent := n_sent nb @
      [(std_frame L key (c_id cb) (c_peer_id cb) PEER_CHANNEL e nonce2 (as_bytes (peer_encode (Response ?corr r))), True)]\<rparr>)"
    using peer_answers [OF assms(1,4) f(1) own' assms(10,13,14,16)] ids by (auto simp: d1_def)
  define d2 where "d2 = std_frame L key (c_id cb) (c_peer_id cb) PEER_CHANNEL e nonce2 (as_bytes (peer_encode (Response ?corr r)))"
  have "linked ca sa e key na1" using linked_heap [of na1 na] f(2) assms(3) by (simp add: na1_def)
  from response_delivered [OF assms(1) this g(1) assms(14), of "\<lparr>p_conn = conn, p_receipt = ?rc, p_deadline = t1 + FORWARD_TIMEOUT\<rparr>" Ha]
  obtain na2 ok where s3: "handle_datagram Ha L ca sa e d2 na1 = Some na2"
    "n_written na2 = n_written na @ [(conn, message_bytes ?rc r, ok)]"
    "n_pending na2 = hm_remove ?corr (n_pending na1)" "n_kv na2 = n_kv na"
    using assms(12) ids by (auto simp: na1_def d2_def)
  have fresh: "?corr \<notin> fst ` set (n_pending na)"
    using corr_fresh [OF assms(11)] assms(5) by (force simp: pending_ok_def)
  have "n_pending na2 = n_pending na"
    using hm_remove_fresh [OF fresh] s3(3) by (simp add: na1_def hm_remove_def)
  then show ?thesis using s1 g(2) s3
    by (intro exI [of _ na1] exI [of _ d1] exI [of _ "nb\<lparr>n_kv := st, n_world := w2, n_sent := n_sent nb @ [(d2, True)]\<rparr>"]
        exI [of _ d2] exI [of _ na2] exI [of _ ok]) (simp add: d2_def na1_def)
qed

theorem forwarded_request_answered_witness:
  "\<exists>na1 d1 nb1 d2 na2 ok. let a = demo_config 1 2; b = demo_config 2 1; sa = demo_store 1 2 (Epoch 0); sb = demo_store 2 1 (Epoch 0) in
    node_step demo_host demo_sodium a sa (Epoch 0) (0, ClientFrame 1 demo_get) demo_node = Some na1 \<and>
    n_sent na1 = [(d1, True)] \<and>
    node_step demo_host demo_sodium b sb (Epoch 0) (1, Datagram d1) demo_node = Some nb1 \<and> n_sent nb1 = [(d2, True)] \<and>
    node_step demo_host demo_sodium a sa (Epoch 0) (2, Datagram d2) na1 = Some na2 \<and>
    n_written na2 = [(1, message_bytes (Some (str ''r'')) ReplyNil, ok)] \<and> n_pending na2 = []"
proof -
  have p: "paired (demo_config 1 2) (demo_config 2 1)" by (simp add: paired_def demo_config_def)
  have x: "kv_execute (Get 2) (n_kv demo_node) = (ReplyNil, kv_default)"
    by (simp add: demo_node_fields kv_default_def bt_get_def)
  have o: "owner (op_key (Get 2)) (c_id (demo_config 1 2)) (c_peer_id (demo_config 1 2)) = c_id (demo_config 2 1)"
    by (simp add: demo_config_def demo_owner)
  note r = demo_sendable [folded demo_node_fields(2)]
  have h: "h_send demo_host k = None" for k by (simp add: demo_host_def)
  show ?thesis
    using forwarded_request_answered [OF demo_contract p demo_linked demo_linked demo_node_fields(7) demo_get_parsed(1-3) o x
        _ _ r h h, of 1 0 1 2]
    by (simp add: demo_node_fields demo_get_parsed Let_def) blast
qed

text \<open>C24. No request waits for ever: at a tick, exactly the requests whose deadline has come leave the
  record, and each of their clients that is still connected afterwards has been written the
  time-out error with its receipt.\<close>

theorem tick_answers_overdue:
  assumes "pending_ok n" "\<forall>xs. set (h_order H xs) = set xs"
  shows "n_pending (handle_tick H cfg now n) = filter (\<lambda>(_, p). now < p_deadline p) (n_pending n) \<and>
    (\<forall>(c, p) \<in> set (n_pending n). p_deadline p \<le> now \<longrightarrow> p_conn p \<in> n_clients (handle_tick H cfg now n) \<longrightarrow>
      (\<exists>ok. (p_conn p, message_bytes (p_receipt p) (timeout_reply cfg), ok) \<in> set (n_written (handle_tick H cfg now n))))"
proof -
  let ?cs = "h_order H (map fst (filter (\<lambda>(_, p). p_deadline p \<le> now) (n_pending n)))"
  have d: "distinct (map fst (n_pending n))" using assms(1) by (simp add: pending_ok_def)
  have "\<exists>ok. (p_conn p, message_bytes (p_receipt p) (timeout_reply cfg), ok) \<in> set (n_written (handle_tick H cfg now n))"
    if "(c, p) \<in> set (n_pending n)" "p_deadline p \<le> now" "p_conn p \<in> n_clients (handle_tick H cfg now n)" for c p
    using expire_answers [OF d that(1), of ?cs H cfg] overdue_ids [OF assms that(1)] that(2,3) expire_clients [of H cfg ?cs n]
    by (auto simp: handle_tick_def)
  then show ?thesis using tick_pending [OF assms] by blast
qed

theorem tick_answers_overdue_witness:
  "let p = (7, \<lparr>p_conn = 1, p_receipt = None, p_deadline = 5000\<rparr>); q = (8, \<lparr>p_conn = 1, p_receipt = None, p_deadline = 9000\<rparr>);
     n = handle_tick demo_host (demo_config 1 2) 6000 (demo_node\<lparr>n_pending := [p, q], n_next_corr := 8\<rparr>) in
    n_pending n = [q] \<and> (\<exists>ok. (1, message_bytes None (timeout_reply (demo_config 1 2)), ok) \<in> set (n_written n))"
proof -
  let ?p = "(7, \<lparr>p_conn = 1, p_receipt = None, p_deadline = 5000\<rparr>)"
    and ?q = "(8, \<lparr>p_conn = 1, p_receipt = None, p_deadline = 9000\<rparr>)"
  let ?n = "demo_node\<lparr>n_pending := [?p, ?q], n_next_corr := 8\<rparr>"
  have ok: "pending_ok ?n" by (simp add: pending_ok_def)
  have order: "\<forall>xs. set (h_order demo_host xs) = set xs" by (simp add: demo_host_def)
  have c: "1 \<in> n_clients (handle_tick demo_host (demo_config 1 2) 6000 ?n)"
    by (simp add: handle_tick_def demo_host_def reply_to_client_def write_frame_def demo_node_fields)
  from tick_answers_overdue [OF ok order, of "demo_config 1 2" 6000] c show ?thesis
    by (simp add: Let_def)
qed

end
