(* ===== verification/Network.thy ===== *)
theory Network
  imports Pair "HOL-Library.Multiset"
begin

text \<open>
  Two nodes of the demo server and the network between them. A datagram that a node hands to its
  socket is in flight; it may be delivered to either node, be lost, be duplicated any number of
  times and overtake others, and bytes that open at neither key may be injected. The state of the
  pair is shown to be that of one map after a sequence of operations which clients asked for, each
  at most as often as it was asked for unless the network duplicates.
\<close>

section \<open>The network\<close>

datatype side = NodeA | NodeB

fun other :: "side \<Rightarrow> side" where
  "other NodeA = NodeB"
| "other NodeB = NodeA"

text \<open>What is fixed for a run: library, epoch, and for each side its host, configuration and keys.\<close>

record pair_link =
  l_lib :: sodium_lib
  l_epoch :: epoch
  l_host :: "side \<Rightarrow> host"
  l_cfg :: "side \<Rightarrow> config"
  l_store :: "side \<Rightarrow> keystore"

record net =
  nt_node :: "side \<Rightarrow> node"
  nt_flight :: "bytes list"

abbreviation link_step :: "pair_link \<Rightarrow> side \<Rightarrow> nat \<times> event \<Rightarrow> node \<Rightarrow> node option" where
  "link_step lk s \<equiv> node_step (l_host lk s) (l_lib lk) (l_cfg lk s) (l_store lk s) (l_epoch lk)"

text \<open>The datagrams that a step handed to the socket without an error.\<close>

definition fresh_sent :: "node \<Rightarrow> node \<Rightarrow> bytes list" where
  "fresh_sent n n' = map fst (filter snd (drop (length (n_sent n)) (n_sent n')))"

definition drop_at :: "nat \<Rightarrow> 'a list \<Rightarrow> 'a list" where
  "drop_at i xs = take i xs @ drop (Suc i) xs"

datatype move =
    Local side nat event
  | Deliver side nat nat
  | Inject side nat bytes
  | Duplicate nat
  | Lose nat

text \<open>Client frames come from the stream reader, which delivers valid text only.\<close>

fun local_event :: "event \<Rightarrow> bool" where
  "local_event (Datagram _) = False"
| "local_event (ClientFrame _ fr) = list_all is_scalar (body fr)"
| "local_event _ = True"

definition opens :: "pair_link \<Rightarrow> side \<Rightarrow> node \<Rightarrow> bytes \<Rightarrow> bool" where
  "opens lk s n bs \<longleftrightarrow>
     (case dek_open (l_lib lk) (l_store lk s) bs (n_world n) (n_stats n) of Some (Inr _, _) \<Rightarrow> True | _ \<Rightarrow> False)"

inductive net_step :: "pair_link \<Rightarrow> net \<Rightarrow> move \<Rightarrow> net \<Rightarrow> bool" for lk where
  net_local: "local_event ev \<Longrightarrow> link_step lk s (t, ev) (nt_node N s) = Some n' \<Longrightarrow>
    net_step lk N (Local s t ev) (N\<lparr>nt_node := (nt_node N)(s := n'), nt_flight := nt_flight N @ fresh_sent (nt_node N s) n'\<rparr>)"
| net_deliver: "i < length (nt_flight N) \<Longrightarrow> link_step lk s (t, Datagram (nt_flight N ! i)) (nt_node N s) = Some n' \<Longrightarrow>
    net_step lk N (Deliver s t i)
      (N\<lparr>nt_node := (nt_node N)(s := n'), nt_flight := drop_at i (nt_flight N) @ fresh_sent (nt_node N s) n'\<rparr>)"
| net_inject: "\<not> opens lk s (nt_node N s) bs \<Longrightarrow> link_step lk s (t, Datagram bs) (nt_node N s) = Some n' \<Longrightarrow>
    net_step lk N (Inject s t bs) (N\<lparr>nt_node := (nt_node N)(s := n'), nt_flight := nt_flight N @ fresh_sent (nt_node N s) n'\<rparr>)"
| net_duplicate: "i < length (nt_flight N) \<Longrightarrow>
    net_step lk N (Duplicate i) (N\<lparr>nt_flight := nt_flight N @ [nt_flight N ! i]\<rparr>)"
| net_lose: "i < length (nt_flight N) \<Longrightarrow> net_step lk N (Lose i) (N\<lparr>nt_flight := drop_at i (nt_flight N)\<rparr>)"

inductive_cases net_stepE: "net_step lk N mv N'"

inductive net_run :: "pair_link \<Rightarrow> net \<Rightarrow> move list \<Rightarrow> net \<Rightarrow> bool" for lk N0 where
  run_start: "net_run lk N0 [] N0"
| run_step: "net_run lk N0 tr N \<Longrightarrow> net_step lk N mv N' \<Longrightarrow> net_run lk N0 (tr @ [mv]) N'"

text \<open>The operations that clients asked for, in the order of their frames.\<close>

fun client_op :: "host \<Rightarrow> event \<Rightarrow> op option" where
  "client_op H (ClientFrame conn fr) =
     (if to_ascii_uppercase (command fr) = str ''SEND'' then
        (case op_parse (h_plain H) (body fr) of Ok x \<Rightarrow> Some x | Err _ \<Rightarrow> None)
      else None)"
| "client_op H _ = None"

fun move_ops :: "pair_link \<Rightarrow> move \<Rightarrow> op list" where
  "move_ops lk (Local s t ev) = (case client_op (l_host lk s) ev of Some x \<Rightarrow> [x] | None \<Rightarrow> [])"
| "move_ops lk _ = []"

definition client_ops :: "pair_link \<Rightarrow> move list \<Rightarrow> op list" where
  "client_ops lk tr = concat (map (move_ops lk) tr)"

section \<open>Valid text\<close>

definition op_scalar :: "op \<Rightarrow> bool" where
  "op_scalar x \<longleftrightarrow> (case x of Put _ v \<Rightarrow> list_all is_scalar v | _ \<Rightarrow> True)"

definition kv_scalar :: "kv_store \<Rightarrow> bool" where
  "kv_scalar st \<longleftrightarrow> (\<forall>k v. kv_map st k = Some v \<longrightarrow> list_all is_scalar v)"

fun reply_scalar :: "reply \<Rightarrow> bool" where
  "reply_scalar (Value v) = list_all is_scalar v"
| "reply_scalar (ReplyErr m) = list_all is_scalar m"
| "reply_scalar _ = True"

fun message_scalar :: "peer \<Rightarrow> bool" where
  "message_scalar (Request _ x) = op_scalar x"
| "message_scalar (Response _ r) = reply_scalar r"

lemma show_nat_scalar: "list_all is_scalar (show_nat n)"
  using show_nat_digits [of n] by (force simp: list_all_iff is_scalar_def)

lemma show_u64_scalar: "list_all is_scalar (show_u64 k)"
  by (simp add: show_u64_def show_nat_scalar)

lemma encode_scalar: "message_scalar m \<Longrightarrow> list_all is_scalar (peer_encode m)"
proof -
  have "is_scalar 32" by (simp add: is_scalar_def)
  then show "message_scalar m \<Longrightarrow> list_all is_scalar (peer_encode m)"
    by (cases m; rename_tac c x; case_tac x)
      (simp_all add: peer_encode.simps op_scalar_def show_u64_scalar)
qed

lemma split_once_scalar:
  assumes "split_once p s = Some (a, b)" "list_all is_scalar s"
  shows "list_all is_scalar a \<and> list_all is_scalar b"
  using split_once_Some [OF assms(1)] assms(2) by auto

lemma trim_start_scalar: "list_all is_scalar s \<Longrightarrow> list_all is_scalar (trim_start s)"
  by (auto simp: trim_start_def list_all_iff dest: set_dropWhileD)

lemma op_parse_scalar:
  assumes "op_parse p s = Ok x" "list_all is_scalar s"
  shows "op_scalar x"
proof (cases x)
  case (Put k v)
  define rest where "rest = (case split_once is_whitespace (trim_start s) of Some (_, r) \<Rightarrow> trim_start r | None \<Rightarrow> [])"
  have rest: "list_all is_scalar rest"
    using assms(2) by (auto simp: rest_def trim_start_scalar split: option.split dest!: split_once_scalar)
  have "\<exists>b. split_once is_whitespace rest = Some (b, v)"
    using assms(1) unfolding Put op_parse_def rest_def Let_def
    by (cases "split_once is_whitespace (trim_start s)") (simp_all split: if_splits option.splits sum.splits prod.splits)
  then show ?thesis using split_once_scalar [OF _ rest] by (auto simp: Put op_scalar_def)
qed (simp_all add: op_scalar_def)

lemma execute_scalar:
  assumes "kv_inv st" "kv_scalar st" "op_scalar x" "kv_execute x st = (r, st')"
  shows "kv_scalar st' \<and> reply_scalar r"
proof -
  have full: "r = ReplyErr m \<Longrightarrow> list_all is_scalar m" for m
    using assms(4) by (cases x) (auto simp: show_nat_scalar split: option.splits if_splits prod.splits)
  note ref = kv_refines [OF assms(1,4)]
  have "kv_scalar st'"
    using ref assms(2,3) by (cases x) (auto simp: kv_scalar_def op_scalar_def split: if_splits)
  moreover have "reply_scalar r"
  proof (cases "refuses x st")
    case False
    then show ?thesis using ref assms(2) by (cases x) (auto simp: kv_scalar_def split: option.splits)
  qed (use ref full in auto)
  ultimately show ?thesis by blast
qed

section \<open>What one step of a node sends and executes\<close>

text \<open>\<open>d\<close> is a sealing of the message \<open>m\<close> by the node configured as \<open>cfg\<close>.\<close>

definition carries :: "sodium_lib \<Rightarrow> epoch \<Rightarrow> bytes \<Rightarrow> config \<Rightarrow> peer \<Rightarrow> bytes \<Rightarrow> bool" where
  "carries L e key cfg m d \<longleftrightarrow> message_scalar m \<and> length (as_bytes (peer_encode m)) \<le> MAX_PAYLOAD \<and> (\<exists>nonce. length nonce = NPUBBYTES \<and>
     d = std_frame L key (c_id cfg) (c_peer_id cfg) PEER_CHANNEL e nonce (as_bytes (peer_encode m)))"

lemma fresh_sent_append: "n_sent n' = n_sent n @ y \<Longrightarrow> fresh_sent n n' = map fst (filter snd y)"
  by (simp add: fresh_sent_def)

lemma send_out:
  assumes "sodium_contract L" "linked cfg store e key n" "message_scalar m"
    and "send_to_peer H L cfg store e (peer_encode m) n = Some (r, n')"
  shows "\<exists>y. n_sent n' = n_sent n @ y \<and> (y = [] \<or> (\<exists>d ok. y = [(d, ok)] \<and> carries L e key cfg m d))"
proof -
  have l: "ks_inv (n_world n) store" "ks_local_id store = c_id cfg" "lookup (n_world n) store (c_peer_id cfg) e = Some key"
    using assms(2) by (simp_all add: linked_def)
  have len: "length (x_random L (draws (n_world n)) NPUBBYTES) = NPUBBYTES"
    using sodium_contractD(3) [OF assms(1)] by (simp add: random_contract_def)
  define d where "d = std_frame L key (c_id cfg) (c_peer_id cfg) PEER_CHANNEL e (x_random L (draws (n_world n)) NPUBBYTES)
    (as_bytes (peer_encode m))"
  have "carries L e key cfg m d" if "length (as_bytes (peer_encode m)) \<le> MAX_PAYLOAD" using that len assms(3) by (auto simp: carries_def d_def)
  moreover have "n_sent n' = n_sent n \<or> length (as_bytes (peer_encode m)) \<le> MAX_PAYLOAD \<and> (\<exists>ok. n_sent n' = n_sent n @ [(d, ok)])"
    using assms(4) l unfolding send_to_peer_def dek_seal_spec [OF assms(1) l(1)]
    by (auto simp: Let_def d_def split: if_splits option.splits)
  ultimately show ?thesis by auto
qed

lemma forward_out:
  assumes "sodium_contract L" "linked cfg store e key n" "op_scalar x" "forward H L cfg store e now conn rc x n = Some n'"
  shows "n_kv n' = n_kv n \<and> n_next_corr n' = n_next_corr n + 1 \<and> (\<exists>y. n_sent n' = n_sent n @ y \<and>
    (y = [] \<or> (\<exists>d ok. y = [(d, ok)] \<and> carries L e key cfg (Request (n_next_corr n + 1) x) d)))"
proof -
  let ?n1 = "n\<lparr>n_next_corr := n_next_corr n + 1\<rparr>"
  obtain r n2 where s: "send_to_peer H L cfg store e (peer_encode (Request (n_next_corr n + 1) x)) ?n1 = Some (r, n2)"
    and n': "n_sent n' = n_sent n2" "n_kv n' = n_kv n2" "n_next_corr n' = n_next_corr n2"
    using assms(4) by (auto simp: forward_def Let_def split: if_splits Option.bind_splits sum.splits)
  have "linked cfg store e key ?n1" using assms(2) by (simp add: linked_def)
  from send_out [OF assms(1) this _ s] send_to_peer_keeps [OF s] n' assms(3) show ?thesis by fastforce
qed

lemma expire_sent: "n_sent (expire_loop H cfg cs n) = n_sent n"
  by (induction cs arbitrary: n) (auto split: option.splits)

lemma client_outcome:
  assumes "sodium_contract L" "linked cfg store e key n" "local_event ev" "node_step H L cfg store e (t, ev) n = Some n'"
  obtains (quiet) "n_kv n' = n_kv n" "n_sent n' = n_sent n"
    | (ran) x r where "client_op H ev = Some x" "op_scalar x" "owner (op_key x) (c_id cfg) (c_peer_id cfg) = c_id cfg"
        "kv_execute x (n_kv n) = (r, n_kv n')" "n_sent n' = n_sent n"
    | (forwarded) conn fr x d ok where "ev = ClientFrame conn fr" "\<not> eq_ignore_ascii_case (trim (body fr)) (str ''SIZE'')"
        "client_op H ev = Some x" "op_scalar x" "n_kv n' = n_kv n"
        "n_next_corr n' = n_next_corr n + 1" "n_sent n' = n_sent n @ [(d, ok)]"
        "carries L e key cfg (Request (n_next_corr n + 1) x) d"
proof (cases "\<exists>conn fr x. ev = ClientFrame conn fr \<and> to_ascii_uppercase (command fr) = str ''SEND'' \<and>
    \<not> eq_ignore_ascii_case (trim (body fr)) (str ''SIZE'') \<and> op_parse (h_plain H) (body fr) = Ok x")
  case False
  have "n_kv n' = n_kv n \<and> n_sent n' = n_sent n"
  proof (cases ev)
    case (ClientFrame conn fr)
    show ?thesis
    proof (cases "to_ascii_uppercase (command fr) = str ''SEND''")
      case True
      with False ClientFrame assms(4) show ?thesis
        by (auto simp: send_command handle_send_def split: if_splits sum.splits)
    next
      case False
      with ClientFrame assms(4) show ?thesis
        by (auto simp: handle_client_frame_def Let_def split: if_splits option.splits)
    qed
  next
    case Tick
    then show ?thesis using assms(4) expire_sent by (auto simp: handle_tick_def expire_later)
  qed (use assms(3,4) in auto)
  then show thesis using quiet by blast
next
  case True
  then obtain conn fr x where f: "ev = ClientFrame conn fr" "to_ascii_uppercase (command fr) = str ''SEND''"
    "\<not> eq_ignore_ascii_case (trim (body fr)) (str ''SIZE'')" "op_parse (h_plain H) (body fr) = Ok x" by blast
  have x: "client_op H ev = Some x" "op_scalar x"
    using f op_parse_scalar [OF f(4)] assms(3) by simp_all
  show thesis
  proof (cases "owner (op_key x) (c_id cfg) (c_peer_id cfg) = c_id cfg")
    case own: True
    obtain r st where "kv_execute x (n_kv n) = (r, st)" by fastforce
    then have "kv_execute x (n_kv n) = (r, n_kv n')" "n_sent n' = n_sent n"
      using assms(4) f own by (auto simp: send_command handle_send_def)
    with ran x own show thesis by blast
  next
    case False
    then have "forward H L cfg store e t conn (frame_header fr (str ''receipt'')) x n = Some n'"
      using assms(4) f by (simp add: send_command handle_send_def)
    from forward_out [OF assms(1,2) x(2) this] quiet forwarded [OF f(1,3) x] show thesis by auto
  qed
qed

text \<open>The answer of a request that names its home, and of any other.\<close>

definition answer_of :: "config \<Rightarrow> op \<Rightarrow> node \<Rightarrow> reply \<Rightarrow> kv_store \<Rightarrow> bool" where
  "answer_of cfg x n r st \<longleftrightarrow>
     (if owner (op_key x) (c_id cfg) (c_peer_id cfg) = c_id cfg then kv_execute x (n_kv n) = (r, st)
      else (\<exists>m. r = ReplyErr m \<and> list_all is_scalar m) \<and> st = n_kv n)"

lemma request_outcome:
  assumes "sodium_contract L" "linked cfg store e key n" "kv_inv (n_kv n)" "kv_scalar (n_kv n)" "op_scalar x"
    and "handle_message H L cfg store e (Request corr x) n = Some n'"
  shows "\<exists>y r. n_sent n' = n_sent n @ y \<and> (y = [] \<or> (\<exists>d ok. y = [(d, ok)] \<and> carries L e key cfg (Response corr r) d)) \<and>
    answer_of cfg x n r (n_kv n')"
proof -
  obtain r st where ex: "(if owner (op_key x) (c_id cfg) (c_peer_id cfg) = c_id cfg then kv_execute x (n_kv n)
      else (ReplyErr (str ''key '' @ show_u64 (op_key x) @ str '' does not belong to node '' @
        show_nat (unat (c_id cfg))), n_kv n)) = (r, st)" by fastforce
  have ans: "answer_of cfg x n r st"
    using ex by (auto simp: answer_of_def show_u64_scalar show_nat_scalar split: if_splits)
  have rs: "reply_scalar r"
    using ans execute_scalar [OF assms(3-5), of r st] by (auto simp: answer_of_def split: if_splits)
  obtain res n1 where s: "send_to_peer H L cfg store e (peer_encode (Response corr r)) (n\<lparr>n_kv := st\<rparr>) = Some (res, n1)"
    and n': "n_sent n' = n_sent n1" "n_kv n' = n_kv n1"
    using assms(6) by (auto simp: handle_message_def ex split: Option.bind_splits sum.splits)
  have "linked cfg store e key (n\<lparr>n_kv := st\<rparr>)" using assms(2) by (simp add: linked_def)
  from send_out [OF assms(1) this _ s] rs n' have "\<exists>y. n_sent n' = n_sent n @ y \<and>
      (y = [] \<or> (\<exists>d ok. y = [(d, ok)] \<and> carries L e key cfg (Response corr r) d))" by fastforce
  moreover have "n_kv n' = st" using send_to_peer_keeps [OF s] n' by auto
  ultimately show ?thesis using ans by blast
qed

lemma message_outcome:
  assumes "sodium_contract L" "linked cfg store e key n" "kv_inv (n_kv n)" "kv_scalar (n_kv n)" "message_scalar m"
    and "handle_message H L cfg store e m n = Some n'"
  shows "(\<exists>y. n_sent n' = n_sent n @ y \<and> (y = [] \<or> (\<exists>d ok corr r. y = [(d, ok)] \<and> carries L e key cfg (Response corr r) d))) \<and>
    (n_kv n' = n_kv n \<or> (\<exists>corr x r. m = Request corr x \<and> owner (op_key x) (c_id cfg) (c_peer_id cfg) = c_id cfg \<and>
      kv_execute x (n_kv n) = (r, n_kv n')))"
proof (cases m)
  case (Request corr x)
  with request_outcome [OF assms(1-4), of x H corr n'] assms(5,6) show ?thesis
    by (fastforce simp: answer_of_def split: if_splits)
next
  case (Response corr r)
  with assms(6) show ?thesis by (auto simp: handle_message_def split: option.splits)
qed

text \<open>A sealed message opens at the peer only.\<close>

lemma carried_opens:
  assumes "sodium_contract L" "paired a b" "linked b store e key n" "carries L e key a m d"
  shows "handle_datagram H L b store e d n = handle_message H L b store e m n"
proof -
  have l: "ks_inv (n_world n) store" "ks_local_id store = c_id b" "lookup (n_world n) store (c_peer_id b) e = Some key"
    using assms(3) by (simp_all add: linked_def)
  obtain nonce where d: "length nonce = NPUBBYTES" "d = std_frame L key (c_peer_id b) (c_id b) PEER_CHANNEL e nonce (as_bytes (peer_encode m))"
    "message_scalar m" using assms(2,4) by (auto simp: carries_def paired_def)
  from receive_ok [OF assms(1) l d(1) encode_scalar [OF d(3)]] show ?thesis by (simp add: d(2))
qed

lemma linked_epoch: "linked cfg store e key n \<Longrightarrow> epoch_ok e"
  using ks.look_ok [of "(n_world n, store)" "c_peer_id cfg" e key] by (simp add: linked_def)

lemma carried_bounces:
  assumes "sodium_contract L" "paired a b" "linked a store e key n" "carries L e key a m d"
    and "handle_datagram H L a store e d n = Some n'"
  shows "\<exists>w st. n' = n\<lparr>n_world := w, n_stats := st\<rparr>"
proof -
  have l: "ks_inv (n_world n) store" "ks_local_id store = c_id a" using assms(3) by (simp_all add: linked_def)
  obtain nonce where d: "length nonce = NPUBBYTES" "d = std_frame L key (c_id a) (c_peer_id a) PEER_CHANNEL e nonce (as_bytes (peer_encode m))"
    using assms(4) by (auto simp: carries_def)
  have "sealed_frame L key \<lparr>from_id = c_id a, to_id = c_peer_id a, channel = PEER_CHANNEL\<rparr> (flags_new Standard e)
      (as_bytes (peer_encode m)) d"
    using d by (auto simp: sealed_frame_def flags_new_sel)
  from refuse_foreign [OF assms(1) l(1) linked_epoch [OF assms(3)] this, of "n_stats n"] l(2) assms(2)
  obtain x w st where "dek_open L store d (n_world n) (n_stats n) = Some (Err x, w, st)" by (auto simp: paired_def)
  with assms(5) show ?thesis by (auto simp: handle_datagram_def Let_def)
qed

section \<open>The invariant of the network\<close>

text \<open>
  \<open>ms\<close> names, for every datagram in flight, who sealed it and which message it carries. The
  requests among them and the operations executed so far were all asked for by clients.
\<close>

fun requested :: "peer \<Rightarrow> op list" where
  "requested (Request _ x) = [x]"
| "requested (Response _ _) = []"

definition in_flight :: "(side \<times> peer) list \<Rightarrow> op list" where
  "in_flight ms = concat (map (requested \<circ> snd) ms)"

abbreviation net_map :: "pair_link \<Rightarrow> net \<Rightarrow> u64 \<Rightarrow> ustr option" where
  "net_map lk N \<equiv> pair_map (l_cfg lk NodeA) (nt_node N NodeA) (nt_node N NodeB)"

definition net_ok :: "pair_link \<Rightarrow> bytes \<Rightarrow> net \<Rightarrow> bool" where
  "net_ok lk key N \<longleftrightarrow> (\<forall>s. linked (l_cfg lk s) (l_store lk s) (l_epoch lk) key (nt_node N s) \<and>
     node_inv (l_cfg lk s) (l_store lk s) (nt_node N s) \<and> kv_scalar (n_kv (nt_node N s)))"

definition labelled :: "pair_link \<Rightarrow> bytes \<Rightarrow> bytes list \<Rightarrow> (side \<times> peer) list \<Rightarrow> bool" where
  "labelled lk key ds ms \<longleftrightarrow>
     list_all2 (\<lambda>d (s, m). carries (l_lib lk) (l_epoch lk) key (l_cfg lk s) m d) ds ms"

definition net_at ::
  "pair_link \<Rightarrow> bytes \<Rightarrow> (u64 \<rightharpoonup> ustr) \<Rightarrow> op list \<Rightarrow> bool \<Rightarrow> (side \<times> peer) list \<Rightarrow> net \<Rightarrow> bool" where
  "net_at lk key m0 asked dup ms N \<longleftrightarrow> net_ok lk key N \<and> labelled lk key (nt_flight N) ms \<and>
     (\<exists>ops. net_map lk N = fold map_effect ops m0 \<and> set ops \<union> set (in_flight ms) \<subseteq> set asked \<and>
       (dup \<or> mset ops + mset (in_flight ms) \<subseteq># mset asked))"

definition net_inv :: "pair_link \<Rightarrow> bytes \<Rightarrow> (u64 \<rightharpoonup> ustr) \<Rightarrow> op list \<Rightarrow> bool \<Rightarrow> net \<Rightarrow> bool" where
  "net_inv lk key m0 asked dup N \<longleftrightarrow> (\<exists>ms. net_at lk key m0 asked dup ms N)"

lemma in_flight_append [simp]: "in_flight (xs @ ys) = in_flight xs @ in_flight ys"
  by (simp add: in_flight_def)

lemma labelled_append: "labelled lk key ds ms \<Longrightarrow> labelled lk key ds' ms' \<Longrightarrow> labelled lk key (ds @ ds') (ms @ ms')"
  by (simp add: labelled_def list_all2_appendI)

lemma labelled_drop_at:
  assumes "labelled lk key ds ms" "i < length ds"
  shows "labelled lk key (drop_at i ds) (drop_at i ms)" "i < length ms"
    "mset (in_flight ms) = mset (requested (snd (ms ! i))) + mset (in_flight (drop_at i ms))"
proof -
  have len: "length ms = length ds" using assms(1) by (simp add: labelled_def list_all2_lengthD)
  show "i < length ms" using assms(2) len by simp
  then have ms: "ms = take i ms @ ms ! i # drop (Suc i) ms" by (simp add: id_take_nth_drop)
  show "labelled lk key (drop_at i ds) (drop_at i ms)"
    using assms(1) by (simp add: labelled_def drop_at_def list_all2_appendI)
  have "in_flight ms = in_flight (take i ms) @ requested (snd (ms ! i)) @ in_flight (drop (Suc i) ms)"
    by (subst ms) (simp add: in_flight_def)
  then show "mset (in_flight ms) = mset (requested (snd (ms ! i))) + mset (in_flight (drop_at i ms))"
    by (simp add: drop_at_def)
qed

lemma net_inv_move:
  assumes "net_at lk key m0 asked dup ms N" "net_ok lk key N'" "labelled lk key (nt_flight N') ms'"
    and "net_map lk N' = fold map_effect zs (net_map lk N)" "mset zs + mset (in_flight ms') \<subseteq># mset (in_flight ms) + mset new"
  shows "net_inv lk key m0 (asked @ new) dup N'"
proof -
  obtain ops where old: "net_map lk N = fold map_effect ops m0" "set ops \<union> set (in_flight ms) \<subseteq> set asked"
    "dup \<or> mset ops + mset (in_flight ms) \<subseteq># mset asked"
    using assms(1) by (auto simp: net_at_def)
  have "set zs \<union> set (in_flight ms') \<subseteq> set (in_flight ms) \<union> set new" using set_mset_mono [OF assms(5)] by simp
  moreover have "mset (ops @ zs) + mset (in_flight ms') \<subseteq># mset (asked @ new)" if "mset ops + mset (in_flight ms) \<subseteq># mset asked"
  proof -
    have "mset ops + (mset zs + mset (in_flight ms')) \<subseteq># mset ops + (mset (in_flight ms) + mset new)"
      by (rule subset_mset.add_left_mono [OF assms(5)])
    also have "\<dots> \<subseteq># mset asked + mset new"
      using subset_mset.add_right_mono [OF that, of "mset new"] by (simp add: ac_simps)
    finally show ?thesis by (simp add: ac_simps)
  qed
  moreover have "net_map lk N' = fold map_effect (ops @ zs) m0" using old(1) assms(4) by simp
  ultimately show ?thesis unfolding net_inv_def net_at_def using assms(2,3) old(2,3)
    by (intro exI [of _ ms'] conjI exI [of _ "ops @ zs"]) auto
qed

lemma net_ok_step:
  assumes "sodium_contract (l_lib lk)" "net_ok lk key N" "link_step lk s (t, ev) (nt_node N s) = Some n'"
    and "n_kv n' = n_kv (nt_node N s) \<or> (\<exists>x r. op_scalar x \<and> kv_execute x (n_kv (nt_node N s)) = (r, n_kv n'))"
  shows "net_ok lk key (N\<lparr>nt_node := (nt_node N)(s := n'), nt_flight := fl\<rparr>)"
proof -
  let ?n = "nt_node N s"
  have n: "linked (l_cfg lk s) (l_store lk s) (l_epoch lk) key ?n" "node_inv (l_cfg lk s) (l_store lk s) ?n" "kv_scalar (n_kv ?n)"
    using assms(2) by (simp_all add: net_ok_def)
  then have inv: "kv_inv (n_kv ?n)" "ks_inv (n_world ?n) (l_store lk s)" by (simp_all add: node_inv_def)
  have "kv_scalar (n_kv n')" using assms(4) n(3) execute_scalar [OF inv(1) n(3)] by auto
  moreover have "linked (l_cfg lk s) (l_store lk s) (l_epoch lk) key n'"
    using node_step_kv [OF assms(1) inv(2) assms(3)] linked_heap [of n' ?n] n(1) by blast
  moreover have "node_inv (l_cfg lk s) (l_store lk s) n'" using node_step_inv [OF assms(1) n(2) assms(3)] by blast
  ultimately show ?thesis using assms(2) by (auto simp: net_ok_def)
qed

text \<open>The two sides name each other.\<close>

definition link_paired :: "pair_link \<Rightarrow> bool" where
  "link_paired lk \<longleftrightarrow> (\<forall>s. paired (l_cfg lk s) (l_cfg lk (other s)))"

lemma side_cases: "a = s \<or> a = other s"
  by (cases a; cases s) simp_all

lemma link_pairedD:
  assumes "link_paired lk"
  shows "paired (l_cfg lk s) (l_cfg lk (other s))" "paired (l_cfg lk (other s)) (l_cfg lk s)"
proof -
  show "paired (l_cfg lk s) (l_cfg lk (other s))" using assms by (simp add: link_paired_def)
  moreover have "paired a b \<Longrightarrow> paired b a" for a b by (auto simp: paired_def)
  ultimately show "paired (l_cfg lk (other s)) (l_cfg lk s)" by blast
qed

lemma net_map_quiet:
  "n_kv n' = n_kv (nt_node N s) \<Longrightarrow> net_map lk (N\<lparr>nt_node := (nt_node N)(s := n'), nt_flight := fl\<rparr>) = net_map lk N"
  by (cases s) (auto simp: pair_map_def fun_eq_iff)

lemma net_map_ran:
  assumes "link_paired lk" "kv_inv (n_kv (nt_node N s))" "owner (op_key x) (c_id (l_cfg lk s)) (c_peer_id (l_cfg lk s)) = c_id (l_cfg lk s)"
    and "kv_execute x (n_kv (nt_node N s)) = (r, n_kv n')"
  shows "\<exists>zs. mset zs \<subseteq># mset [x] \<and>
    net_map lk (N\<lparr>nt_node := (nt_node N)(s := n'), nt_flight := fl\<rparr>) = fold map_effect zs (net_map lk N)"
proof (cases "refuses x (n_kv (nt_node N s))")
  case True
  then have "n_kv n' = n_kv (nt_node N s)" using kv_refines [OF assms(2,4)] by simp
  from net_map_quiet [OF this] show ?thesis by (intro exI [of _ "[]"]) simp
next
  case False
  have a: "owner k (c_id (l_cfg lk NodeA)) (c_peer_id (l_cfg lk NodeA)) = c_id (l_cfg lk NodeA) \<longleftrightarrow>
      owner k (c_id (l_cfg lk NodeB)) (c_peer_id (l_cfg lk NodeB)) \<noteq> c_id (l_cfg lk NodeB)" for k
    using owner_other [of "l_cfg lk NodeA" "l_cfg lk NodeB" k] assms(1) unfolding link_paired_def by (metis other.simps(1))
  have "kv_map (n_kv n') = map_effect x (kv_map (n_kv (nt_node N s)))" using kv_refines [OF assms(2,4)] False by simp
  then have "net_map lk (N\<lparr>nt_node := (nt_node N)(s := n'), nt_flight := fl\<rparr>) = map_effect x (net_map lk N)"
    using assms(3) a by (cases s; cases x) (auto simp: pair_map_def fun_eq_iff)
  then show ?thesis by (intro exI [of _ "[x]"]) simp
qed


lemma net_inv_node_step:
  assumes at: "net_at lk key m0 asked dup ms N" and L: "sodium_contract (l_lib lk)" "link_paired lk"
    and step: "link_step lk s (t, ev) (nt_node N s) = Some n'" and fl: "labelled lk key fl ms1"
    and out: "n_sent n' = n_sent (nt_node N s) @ y" "list_all (\<lambda>(d, _). carries (l_lib lk) (l_epoch lk) key (l_cfg lk s) m d) y" "length y \<le> 1"
    and count: "mset xs + mset (in_flight ms1) + mset (if y = [] then [] else requested m) \<subseteq># mset (in_flight ms) + mset new"
    and kv: "xs = [] \<and> n_kv n' = n_kv (nt_node N s) \<or> (\<exists>x r. xs = [x] \<and> op_scalar x \<and>
      owner (op_key x) (c_id (l_cfg lk s)) (c_peer_id (l_cfg lk s)) = c_id (l_cfg lk s) \<and>
      kv_execute x (n_kv (nt_node N s)) = (r, n_kv n'))"
  shows "net_inv lk key m0 (asked @ new) dup (N\<lparr>nt_node := (nt_node N)(s := n'), nt_flight := fl @ fresh_sent (nt_node N s) n'\<rparr>)"
    (is "net_inv _ _ _ _ _ ?N'")
proof -
  let ?ms = "ms1 @ map (\<lambda>_. (s, m)) (filter snd y)"
  have ok: "net_ok lk key N" using at by (simp add: net_at_def)
  then have inv: "kv_inv (n_kv (nt_node N s))" by (simp add: net_ok_def node_inv_def)
  have ok': "net_ok lk key ?N'" by (rule net_ok_step [OF L(1) ok step]) (use kv in auto)
  obtain zs where zs: "mset zs \<subseteq># mset xs" "net_map lk ?N' = fold map_effect zs (net_map lk N)"
    using kv net_map_quiet [of n' N s lk] net_map_ran [OF L(2) inv] by (metis fold_simps(1) subset_mset.order_refl)
  have "labelled lk key (fresh_sent (nt_node N s) n') (map (\<lambda>_. (s, m)) (filter snd y))"
    using out(2) unfolding fresh_sent_append [OF out(1)] by (induction y) (auto simp: labelled_def)
  note lab = labelled_append [OF fl this]
  have "mset (in_flight (map (\<lambda>_. (s, m)) (filter snd y))) \<subseteq># mset (if y = [] then [] else requested m)"
    using out(3) by (cases y) (auto simp: in_flight_def)
  from subset_mset.add_mono [OF zs(1) subset_mset.add_mono [OF subset_mset.order_refl this]]
  have "mset zs + mset (in_flight ?ms) \<subseteq># mset xs + mset (in_flight ms1) + mset (if y = [] then [] else requested m)"
    by (simp add: ac_simps)
  then have "mset zs + mset (in_flight ?ms) \<subseteq># mset (in_flight ms) + mset new" using count by (rule subset_mset.order_trans)
  with net_inv_move [OF at ok' _ zs(2)] lab show ?thesis by simp
qed

lemma local_inv:
  assumes at: "net_at lk key m0 asked dup ms N" and L: "sodium_contract (l_lib lk)" "link_paired lk"
    and ev: "local_event ev" "link_step lk s (t, ev) (nt_node N s) = Some n'"
  shows "net_inv lk key m0 (asked @ move_ops lk (Local s t ev)) dup
    (N\<lparr>nt_node := (nt_node N)(s := n'), nt_flight := nt_flight N @ fresh_sent (nt_node N s) n'\<rparr>)"
proof -
  have l: "linked (l_cfg lk s) (l_store lk s) (l_epoch lk) key (nt_node N s)" and ms: "labelled lk key (nt_flight N) ms"
    using at by (simp_all add: net_at_def net_ok_def)
  note step = net_inv_node_step [OF at L ev(2) ms, where new = "move_ops lk (Local s t ev)"]
  show ?thesis
  proof (rule client_outcome [OF L(1) l ev])
    assume "n_kv n' = n_kv (nt_node N s)" "n_sent n' = n_sent (nt_node N s)"
    then show ?thesis by (intro step [of "[]" _ "[]"]) auto
  next
    fix x r assume "client_op (l_host lk s) ev = Some x" "op_scalar x" "n_sent n' = n_sent (nt_node N s)"
      "owner (op_key x) (c_id (l_cfg lk s)) (c_peer_id (l_cfg lk s)) = c_id (l_cfg lk s)"
      "kv_execute x (n_kv (nt_node N s)) = (r, n_kv n')"
    then show ?thesis by (intro step [of "[]" _ "[x]"]) auto
  next
    fix x d ok assume "client_op (l_host lk s) ev = Some x" "op_scalar x" "n_kv n' = n_kv (nt_node N s)"
      "n_sent n' = n_sent (nt_node N s) @ [(d, ok)]"
      "carries (l_lib lk) (l_epoch lk) key (l_cfg lk s) (Request (n_next_corr (nt_node N s) + 1) x) d"
    then show ?thesis by (intro step [of "[(d, ok)]" "Request (n_next_corr (nt_node N s) + 1) x" "[]"]) auto
  qed
qed

lemma deliver_inv:
  assumes at: "net_at lk key m0 asked dup ms N" and L: "sodium_contract (l_lib lk)" "link_paired lk"
    and i: "i < length (nt_flight N)" and step: "link_step lk s (t, Datagram (nt_flight N ! i)) (nt_node N s) = Some n'"
  shows "net_inv lk key m0 asked dup
    (N\<lparr>nt_node := (nt_node N)(s := n'), nt_flight := drop_at i (nt_flight N) @ fresh_sent (nt_node N s) n'\<rparr>)"
proof -
  let ?n = "nt_node N s" and ?d = "nt_flight N ! i" and ?c = "l_cfg lk s"
  have n: "linked ?c (l_store lk s) (l_epoch lk) key ?n" "kv_inv (n_kv ?n)" "kv_scalar (n_kv ?n)" and ms: "labelled lk key (nt_flight N) ms"
    using at by (simp_all add: net_at_def net_ok_def node_inv_def)
  note drop = labelled_drop_at [OF ms i]
  obtain a m where m: "ms ! i = (a, m)" by fastforce
  have d: "carries (l_lib lk) (l_epoch lk) key (l_cfg lk a) m ?d"
    using ms i m by (auto simp: labelled_def list_all2_conv_all_nth)
  have c: "paired ?c (l_cfg lk (other s))" "paired (l_cfg lk (other s)) ?c" "a = s \<or> a = other s"
    using L(2) link_pairedD by (auto simp: side_cases [of a s])
  note node_step = net_inv_node_step [OF at L step drop(1), where new = "[]", unfolded append_Nil2]
  show ?thesis
  proof (cases "a = s")
    case True
    then have "n_kv n' = n_kv ?n \<and> n_sent n' = n_sent ?n" using carried_bounces [OF L(1) c(1) n(1)] d step by force
    then show ?thesis by (intro node_step [of "[]" _ "[]"]) (auto simp: drop(3))
  next
    case False
    then have h: "handle_message (l_host lk s) (l_lib lk) ?c (l_store lk s) (l_epoch lk) m ?n = Some n'"
      using carried_opens [OF L(1) c(2) n(1)] d c(3) step by simp
    have sc: "message_scalar m" using d by (simp add: carries_def)
    from message_outcome [OF L(1) n sc h] obtain y corr r where y: "n_sent n' = n_sent ?n @ y" "length y \<le> 1"
      "list_all (\<lambda>(d, _). carries (l_lib lk) (l_epoch lk) key ?c (Response corr r) d) y" by auto
    from message_outcome [OF L(1) n sc h, THEN conjunct2] show ?thesis
    proof (elim conjE disjE exE)
      assume "n_kv n' = n_kv ?n"
      then show ?thesis by (intro node_step [OF y(1,3,2), of "[]"]) (auto simp: drop(3))
    next
      fix corr x r assume "m = Request corr x" "owner (op_key x) (c_id ?c) (c_peer_id ?c) = c_id ?c" "kv_execute x (n_kv ?n) = (r, n_kv n')"
      then show ?thesis using sc by (intro node_step [OF y(1,3,2), of "[x]"]) (auto simp: drop(3) m)
    qed
  qed
qed

lemma injected:
  assumes "\<not> opens lk s n bs" "link_step lk s (t, Datagram bs) n = Some n'"
  shows "\<exists>w st. n' = n\<lparr>n_world := w, n_stats := st\<rparr>"
proof -
  obtain x w st where "dek_open (l_lib lk) (l_store lk s) bs (n_world n) (n_stats n) = Some (Err x, w, st)"
    using assms by (auto simp: opens_def handle_datagram_def split: Option.bind_splits sum.splits)
  then have "n' = n\<lparr>n_world := w, n_stats := st\<rparr>" using assms(2) by (simp add: handle_datagram_def)
  then show ?thesis by blast
qed

lemma inject_inv:
  assumes at: "net_at lk key m0 asked dup ms N" and L: "sodium_contract (l_lib lk)" "link_paired lk"
    and bs: "\<not> opens lk s (nt_node N s) bs" and step: "link_step lk s (t, Datagram bs) (nt_node N s) = Some n'"
  shows "net_inv lk key m0 asked dup (N\<lparr>nt_node := (nt_node N)(s := n'), nt_flight := nt_flight N @ fresh_sent (nt_node N s) n'\<rparr>)"
proof -
  have "n_kv n' = n_kv (nt_node N s) \<and> n_sent n' = n_sent (nt_node N s)"
    using injected [OF bs step] by auto
  moreover have "labelled lk key (nt_flight N) ms" using at by (simp add: net_at_def)
  ultimately show ?thesis using net_inv_node_step [OF at L step, where new = "[]", of "nt_flight N" ms "[]" _ "[]"] by simp
qed

lemma duplicate_inv:
  assumes at: "net_at lk key m0 asked dup ms N" and i: "i < length (nt_flight N)"
  shows "net_inv lk key m0 asked True (N\<lparr>nt_flight := nt_flight N @ [nt_flight N ! i]\<rparr>)"
proof -
  have ms: "labelled lk key (nt_flight N) ms" using at by (simp add: net_at_def)
  then have "labelled lk key [nt_flight N ! i] [ms ! i]" using i by (simp add: labelled_def list_all2_conv_all_nth)
  note lab = labelled_append [OF ms this]
  have "set (in_flight [ms ! i]) \<subseteq> set (in_flight ms)"
    using labelled_drop_at(2) [OF ms i] nth_mem by (fastforce simp: in_flight_def)
  moreover obtain ops where "net_map lk N = fold map_effect ops m0" "set ops \<union> set (in_flight ms) \<subseteq> set asked"
    using at by (auto simp: net_at_def)
  ultimately show ?thesis using at lab unfolding net_inv_def net_at_def net_ok_def
    by (intro exI [of _ "ms @ [ms ! i]"] conjI exI [of _ ops]) auto
qed

lemma lose_inv:
  assumes at: "net_at lk key m0 asked dup ms N" and i: "i < length (nt_flight N)"
  shows "net_inv lk key m0 asked dup (N\<lparr>nt_flight := drop_at i (nt_flight N)\<rparr>)"
proof -
  have ms: "labelled lk key (nt_flight N) ms" using at by (simp add: net_at_def)
  have "net_ok lk key (N\<lparr>nt_flight := drop_at i (nt_flight N)\<rparr>)" using at by (simp add: net_at_def net_ok_def)
  from net_inv_move [OF at this, of "drop_at i ms" "[]" "[]"] labelled_drop_at [OF ms i] show ?thesis by simp
qed

fun duplicates :: "move \<Rightarrow> bool" where
  "duplicates (Duplicate _) = True"
| "duplicates _ = False"

lemma net_step_inv:
  assumes "net_step lk N mv N'" "sodium_contract (l_lib lk)" "link_paired lk" "net_inv lk key m0 asked dup N"
  shows "net_inv lk key m0 (asked @ move_ops lk mv) (dup \<or> duplicates mv) N'"
proof -
  obtain ms where at: "net_at lk key m0 asked dup ms N" using assms(4) by (auto simp: net_inv_def)
  from assms(1) show ?thesis
    by cases (use at assms(2,3) in \<open>simp_all add: local_inv deliver_inv inject_inv duplicate_inv lose_inv del: move_ops.simps(1)\<close>)
qed

lemma net_run_inv:
  assumes "net_run lk N0 tr N" "sodium_contract (l_lib lk)" "link_paired lk" "net_inv lk key m0 [] False N0"
  shows "net_inv lk key m0 (client_ops lk tr) (\<exists>mv \<in> set tr. duplicates mv) N"
  using assms(1)
proof induction
  case run_start
  then show ?case using assms(4) by (simp add: client_ops_def)
next
  case (run_step tr N mv N')
  from net_step_inv [OF run_step.hyps(2) assms(2,3) run_step.IH] show ?case
    by (simp add: client_ops_def disj_commute)
qed

text \<open>Both nodes have come up, with one key.\<close>

definition net_start :: "pair_link \<Rightarrow> net \<Rightarrow> bool" where
  "net_start lk N \<longleftrightarrow> link_paired lk \<and> nt_flight N = [] \<and>
     (\<forall>s. c_key (l_cfg lk s) = c_key (l_cfg lk (other s)) \<and> length (c_key (l_cfg lk s)) = KEYBYTES \<and>
       (\<exists>st w w'. heap w = [] \<and>
         run_setup (l_host lk s) (l_lib lk) (l_cfg lk s) st w = (Ok (l_store lk s, l_epoch lk, nt_node N s), w')))"

lemma net_start_inv:
  assumes "sodium_contract (l_lib lk)" "net_start lk N"
  shows "net_inv lk (c_key (l_cfg lk NodeA)) Map.empty [] False N"
proof -
  have up: "linked (l_cfg lk s) (l_store lk s) (l_epoch lk) (c_key (l_cfg lk NodeA)) (nt_node N s) \<and>
      node_inv (l_cfg lk s) (l_store lk s) (nt_node N s) \<and> n_kv (nt_node N s) = kv_default" for s
  proof -
    have same: "c_key (l_cfg lk s) = c_key (l_cfg lk NodeA)"
      using assms(2) unfolding net_start_def by (cases s) (metis other.simps(2))+
    obtain st w w' where "heap w = []" "length (c_key (l_cfg lk s)) = KEYBYTES"
      "run_setup (l_host lk s) (l_lib lk) (l_cfg lk s) st w = (Ok (l_store lk s, l_epoch lk, nt_node N s), w')"
      using assms(2) unfolding net_start_def by blast
    from run_setup_linked [OF assms(1) this] run_setup_ok [OF this(3)] same show ?thesis
      by (auto simp: node_start_def)
  qed
  have e: "kv_map kv_default k = None" for k by (simp add: kv_map_def kv_default_def bt_get_def)
  then have "net_ok lk (c_key (l_cfg lk NodeA)) N" using up by (simp add: net_ok_def kv_scalar_def)
  moreover have "net_map lk N = Map.empty" using up e by (auto simp: pair_map_def fun_eq_iff)
  moreover have "nt_flight N = []" using assms(2) by (simp add: net_start_def)
  ultimately show ?thesis unfolding net_inv_def net_at_def labelled_def
    by (intro exI [of _ "[]"]) (auto simp: in_flight_def)
qed

text \<open>The map of the pair is the result of operations that clients asked for.\<close>

lemma net_run_ops:
  assumes "sodium_contract (l_lib lk)" "net_start lk N0" "net_run lk N0 tr N"
  shows "\<exists>ops. net_map lk N = fold map_effect ops Map.empty \<and> set ops \<subseteq> set (client_ops lk tr) \<and>
    ((\<forall>i. Duplicate i \<notin> set tr) \<longrightarrow> mset ops \<subseteq># mset (client_ops lk tr))"
proof -
  have "link_paired lk" using assms(2) by (simp add: net_start_def)
  from net_run_inv [OF assms(3,1) this net_start_inv [OF assms(1,2)]]
  obtain ops ms where o: "net_map lk N = fold map_effect ops Map.empty" "set ops \<subseteq> set (client_ops lk tr)"
    "(\<exists>mv \<in> set tr. duplicates mv) \<or> mset ops + mset (in_flight ms) \<subseteq># mset (client_ops lk tr)"
    by (auto simp: net_inv_def net_at_def)
  have "duplicates mv \<Longrightarrow> \<exists>i. mv = Duplicate i" for mv by (cases mv) simp_all
  with o(3) have "(\<forall>i. Duplicate i \<notin> set tr) \<longrightarrow> mset ops \<subseteq># mset (client_ops lk tr)"
    by (metis subset_mset.le_add_same_cancel1 subset_mset.order_trans subset_mset.zero_le)
  with o(1,2) show ?thesis by blast
qed

section \<open>Properties\<close>

text \<open>C11. Nothing but what clients asked for happens to a pair. Start two nodes with one key, let clients
  come and go, and let the network deliver datagrams to either node in any order, lose some, repeat
  some and add bytes that do not open: the map of the pair is what a sequence of operations makes of the
  empty map, each of them asked for by a client; and while the network repeats nothing, none
  is applied more often than it was asked for.\<close>

theorem network_applies_client_operations:
  assumes "sodium_contract (l_lib lk)" "net_start lk N0" "net_run lk N0 tr N"
  shows "\<exists>ops. net_map lk N = fold map_effect ops Map.empty \<and> set ops \<subseteq> set (client_ops lk tr) \<and>
    ((\<forall>i. Duplicate i \<notin> set tr) \<longrightarrow> mset ops \<subseteq># mset (client_ops lk tr))"
  by (rule net_run_ops [OF assms])

text \<open>Both nodes of the pair 1, 2 on the concrete library; a client of node 2 puts key 1.\<close>

definition demo_link :: pair_link where
  "demo_link = \<lparr>l_lib = demo_sodium, l_epoch = Epoch 0, l_host = \<lambda>_. demo_host,
     l_cfg = \<lambda>s. case s of NodeA \<Rightarrow> demo_config 1 2 | NodeB \<Rightarrow> demo_config 2 1,
     l_store = \<lambda>s. case s of NodeA \<Rightarrow> demo_store 1 2 (Epoch 0) | NodeB \<Rightarrow> demo_store 2 1 (Epoch 0)\<rparr>"

definition demo_net :: net where
  "demo_net = \<lparr>nt_node = \<lambda>s. node_start demo_world stats_init (banner (l_cfg demo_link s)), nt_flight = []\<rparr>"

lemma demo_net_start: "net_start demo_link demo_net"
proof -
  have key: "c_key (l_cfg demo_link s) = demo_key" for s by (simp add: demo_link_def demo_config_def split: side.split)
  have "run_setup demo_host demo_sodium (l_cfg demo_link s) stats_init fresh_world =
      (Ok (l_store demo_link s, Epoch 0, nt_node demo_net s), demo_world)" for s
    using demo_started_at [of "l_cfg demo_link s"] key [of s]
    by (cases s) (simp_all add: demo_link_def demo_net_def demo_config_def)
  moreover have "paired (l_cfg demo_link s) (l_cfg demo_link (other s))" for s
    by (cases s) (simp_all add: demo_link_def demo_config_def paired_def)
  moreover have "l_lib demo_link = demo_sodium" "l_epoch demo_link = Epoch 0" "l_host demo_link s = demo_host" "nt_flight demo_net = []" for s
    by (simp_all add: demo_link_def demo_net_def)
  ultimately show ?thesis unfolding net_start_def link_paired_def
    using key fresh_fields(1) by (auto simp: demo_key_length KEYBYTES_def)
qed

lemma demo_hop:
  "\<exists>N. net_run demo_link demo_net [Local NodeB 0 (ClientFrame 1 demo_put), Deliver NodeA 1 0] N \<and>
    net_map demo_link N 1 = Some (str ''x'')"
proof -
  let ?na = "nt_node demo_net NodeA" and ?nb = "nt_node demo_net NodeB" and ?x = "Put 1 (str ''x'')"
  let ?a = "demo_config 1 2" and ?b = "demo_config 2 1" and ?sa = "demo_store 1 2 (Epoch 0)" and ?sb = "demo_store 2 1 (Epoch 0)"
  have l: "linked ?a ?sa (Epoch 0) demo_key ?na" "linked ?b ?sb (Epoch 0) demo_key ?nb"
    using linked_heap [of ?na demo_node] linked_heap [of ?nb demo_node] demo_linked
    by (simp_all add: demo_net_def node_start_def demo_node_fields)
  have r: "sendable (peer_encode (Request 1 ?x))" "sendable (peer_encode (Response 1 ReplyOk))"
    by (simp_all add: sendable_def demo_node_fields peer_encode.simps str_simps show_u64_def str_len_def as_bytes_def
        utf8_char_def is_scalar_def MAX_PAYLOAD_def MAX_UDP_DATAGRAM_def OVERHEAD_def show_nat.simps
        PREFIX_LEN_def NPUBBYTES_def ABYTES_def)
  have f: "n_next_corr ?nb = 0" "n_sent ?nb = []" "pending_ok ?nb" "n_sent ?na = []" "n_kv ?na = kv_default" "h_send demo_host k = None" for k
    by (simp_all add: demo_net_def node_start_def pending_ok_def demo_host_def)
  obtain n1 d1 nonce where b: "node_step demo_host demo_sodium ?b ?sb (Epoch 0) (0, ClientFrame 1 demo_put) ?nb = Some n1"
    "n_sent n1 = [(d1, True)]" "length nonce = NPUBBYTES"
    "d1 = std_frame demo_sodium demo_key 2 1 PEER_CHANNEL (Epoch 0) nonce (as_bytes (peer_encode (Request 1 ?x)))"
    using forward_sends [OF demo_contract l(2) f(3), of ?x demo_host 0 1 "frame_header demo_put (str ''receipt'')"] r f demo_put_parsed
    by (auto simp: send_command handle_send_def demo_config_def demo_owner)
  obtain st where st: "kv_execute ?x (n_kv ?na) = (ReplyOk, st)" "kv_map st 1 = Some (str ''x'')"
    by (simp add: f kv_default_def bt_contains_key_def bt_get_def bt_insert_def MAX_KEYS_def kv_map_def)
  obtain n2 where a: "node_step demo_host demo_sodium ?a ?sa (Epoch 0) (1, Datagram d1) ?na = Some n2" "n_kv n2 = st"
    using peer_answers [OF demo_contract l(1) b(3) _ st(1) r, of demo_host] f by (auto simp: demo_config_def demo_owner b(4))
  have lk: "link_step demo_link NodeB = node_step demo_host demo_sodium ?b ?sb (Epoch 0)"
    "link_step demo_link NodeA = node_step demo_host demo_sodium ?a ?sa (Epoch 0)" by (simp_all add: demo_link_def)
  have ev: "local_event (ClientFrame 1 demo_put)" by (simp add: demo_put_def str_simps is_scalar_def)
  let ?N1 = "demo_net\<lparr>nt_node := (nt_node demo_net)(NodeB := n1), nt_flight := nt_flight demo_net @ fresh_sent ?nb n1\<rparr>"
  have fl: "nt_flight ?N1 = [d1]" using b(2) f by (simp add: fresh_sent_def demo_net_def)
  let ?N2 = "?N1\<lparr>nt_node := (nt_node ?N1)(NodeA := n2), nt_flight := drop_at 0 (nt_flight ?N1) @ fresh_sent (nt_node ?N1 NodeA) n2\<rparr>"
  have s1: "net_step demo_link demo_net (Local NodeB 0 (ClientFrame 1 demo_put)) ?N1"
    by (rule net_local [OF ev]) (use b(1) lk in simp)
  have s2: "net_step demo_link ?N1 (Deliver NodeA 1 0) ?N2" by (rule net_deliver) (use a(1) lk fl in simp_all)
  have "net_run demo_link demo_net [Local NodeB 0 (ClientFrame 1 demo_put), Deliver NodeA 1 0] ?N2"
    using run_step [OF run_step [OF run_start s1] s2] by simp
  moreover have "net_map demo_link ?N2 1 = Some (str ''x'')"
    using a(2) st(2) by (simp add: pair_map_def demo_link_def demo_config_def demo_owner)
  ultimately show ?thesis by blast
qed

theorem network_applies_client_operations_witness:
  "\<exists>N ops. net_run demo_link demo_net [Local NodeB 0 (ClientFrame 1 demo_put), Deliver NodeA 1 0] N \<and>
    net_map demo_link N 1 = Some (str ''x'') \<and> net_map demo_link N = fold map_effect ops Map.empty \<and>
    mset ops \<subseteq># {#Put 1 (str ''x'')#}"
proof -
  obtain N where N: "net_run demo_link demo_net [Local NodeB 0 (ClientFrame 1 demo_put), Deliver NodeA 1 0] N"
    "net_map demo_link N 1 = Some (str ''x'')" using demo_hop by blast
  have c: "client_ops demo_link [Local NodeB 0 (ClientFrame 1 demo_put), Deliver NodeA 1 0] = [Put 1 (str ''x'')]"
    by (simp add: client_ops_def demo_put_parsed)
  have "sodium_contract (l_lib demo_link)" by (simp add: demo_link_def demo_contract)
  from network_applies_client_operations [OF this demo_net_start N(1)] N c show ?thesis by auto
qed

end
