(* ===== verification/Threads.thy ===== *)
theory Threads
  imports Pair "HOL-Library.Sublist"
begin

text \<open>
  The process of a demo node: the core thread and its producers, \<open>run\<close> and \<open>core_loop\<close> of
  \<open>src/src/bin/six-seven-server/main.rs\<close>. First, what one event can cost the core thread and that
  none makes it panic; then the UDP reader, the acceptor, the readers of the connections and the
  ticker as threads that take turns in any order and post to one queue.
\<close>

section \<open>Work of one event\<close>

text \<open>Client frames and datagrams among the events.\<close>

fun is_client_frame :: "event \<Rightarrow> bool" where
  "is_client_frame (ClientFrame _ _) = True"
| "is_client_frame _ = False"

fun is_datagram :: "event \<Rightarrow> bool" where
  "is_datagram (Datagram _) = True"
| "is_datagram _ = False"

definition client_frames :: "(nat \<times> event) list \<Rightarrow> nat" where
  "client_frames xs = length (filter (is_client_frame \<circ> snd) xs)"

definition datagrams :: "(nat \<times> event) list \<Rightarrow> nat" where
  "datagrams xs = length (filter (is_datagram \<circ> snd) xs)"

text \<open>Frames written to clients and answers still owed to them.\<close>

definition answers :: "node \<Rightarrow> nat" where
  "answers n = length (n_written n) + length (n_pending n)"

lemma send_to_peer_total:
  assumes "sodium_contract L" "ks_inv (n_world n) store"
  shows "\<exists>r n'. send_to_peer H L cfg store e m n = Some (r, n') \<and> length (n_sent n') \<le> Suc (length (n_sent n))"
  by (simp add: send_to_peer_def dek_seal_spec [OF assms] Let_def split: option.splits)

lemma write_frame_answers:
  "length (n_written (write_frame H c bs n)) \<le> Suc (length (n_written n))"
  by (simp add: write_frame_def Let_def)

lemma reply_answers: "length (n_written (reply_to_client H c rc r n)) \<le> Suc (length (n_written n))"
  by (simp add: reply_to_client_def write_frame_answers)

lemma hm_remove_shorter: "map_of m k = Some v \<Longrightarrow> length (hm_remove k m) < length m"
  unfolding hm_remove_def by (rule length_filter_less [of "(k, v)"]) (auto dest: map_of_SomeD)

text \<open>Answering a request that is on record costs nothing: the debt becomes a frame.\<close>

lemma answer_owed:
  assumes "map_of (n_pending n) corr = Some p"
  shows "answers (reply_to_client H c rc r (n\<lparr>n_pending := hm_remove corr (n_pending n)\<rparr>)) \<le> answers n"
  using hm_remove_shorter [OF assms] reply_answers [of H c rc r "n\<lparr>n_pending := hm_remove corr (n_pending n)\<rparr>"]
  by (simp add: answers_def)

lemma expire_answers_le: "answers (expire_loop H cfg cs n) \<le> answers n"
proof (induction cs arbitrary: n)
  case (Cons c cs)
  show ?case
  proof (cases "map_of (n_pending n) c")
    case (Some p)
    from answer_owed [OF this] show ?thesis using Cons.IH le_trans Some by fastforce
  qed (use Cons.IH in simp)
qed simp

lemma forward_work:
  assumes "sodium_contract L" "ks_inv (n_world n) store" "n_next_corr n \<noteq> 0xFFFFFFFFFFFFFFFF"
  shows "\<exists>n'. forward H L cfg store e now conn rc x n = Some n' \<and> unat (n_next_corr n') \<le> Suc (unat (n_next_corr n)) \<and>
    answers n' \<le> Suc (answers n) \<and> length (n_sent n') \<le> Suc (length (n_sent n))"
proof -
  let ?corr = "n_next_corr n + 1" and ?n1 = "n\<lparr>n_next_corr := n_next_corr n + 1\<rparr>"
  obtain r n2 where s: "send_to_peer H L cfg store e (peer_encode (Request ?corr x)) ?n1 = Some (r, n2)"
    "length (n_sent n2) \<le> Suc (length (n_sent n))"
    using send_to_peer_total [OF assms(1), of ?n1] assms(2) by force
  have k: "n_next_corr n2 = ?corr" "n_written n2 = n_written n" "n_pending n2 = n_pending n"
    using send_to_peer_keeps [OF s(1)] by auto
  have c: "unat ?corr \<le> Suc (unat (n_next_corr n))" by (simp add: unat_word_ariths)
  have "length (hm_insert ?corr v (n_pending n)) \<le> Suc (length (n_pending n))" for v
    by (simp add: hm_insert_def hm_remove_def)
  then show ?thesis using s k c assms(3) reply_answers [of H conn rc _ n2]
    by (cases r) (auto simp: forward_def answers_def)
qed

text \<open>What an event may add: one answer for a client frame, one datagram for a client frame or a datagram.\<close>

abbreviation worked :: "event \<Rightarrow> node \<Rightarrow> node \<Rightarrow> bool" where
  "worked ev n n' \<equiv> unat (n_next_corr n') \<le> unat (n_next_corr n) + of_bool (is_client_frame ev) \<and>
     answers n' \<le> answers n + of_bool (is_client_frame ev) \<and>
     length (n_sent n') \<le> length (n_sent n) + of_bool (is_client_frame ev \<or> is_datagram ev)"

lemma client_frame_work:
  assumes "sodium_contract L" "ks_inv (n_world n) store" "n_next_corr n \<noteq> 0xFFFFFFFFFFFFFFFF"
  shows "\<exists>n'. handle_client_frame H L cfg store e now conn fr n = Some n' \<and> worked (ClientFrame conn fr) n n'"
proof (cases "\<exists>x. to_ascii_uppercase (command fr) = str ''SEND'' \<and> \<not> eq_ignore_ascii_case (trim (body fr)) (str ''SIZE'') \<and>
    op_parse (h_plain H) (body fr) = Ok x \<and> owner (op_key x) (c_id cfg) (c_peer_id cfg) \<noteq> c_id cfg")
  case True
  then obtain x where "handle_client_frame H L cfg store e now conn fr n =
      forward H L cfg store e now conn (frame_header fr (str ''receipt'')) x n"
    by (auto simp: send_command handle_send_def)
  then show ?thesis using forward_work [OF assms] by force
next
  case False
  have w: "answers (write_frame H conn bs n) \<le> Suc (answers n)" "answers (reply_to_client H conn rc r n) \<le> Suc (answers n)"
    "answers (reply_to_client H conn rc r (n\<lparr>n_kv := st\<rparr>)) \<le> Suc (answers n)" for bs rc r st
    using write_frame_answers [of H conn bs n] reply_answers [of H conn rc r n] reply_answers [of H conn rc r "n\<lparr>n_kv := st\<rparr>"]
    by (simp_all add: answers_def)
  have drop: "answers (m\<lparr>n_clients := cs\<rparr>) = answers m" for m cs by (simp add: answers_def)
  show ?thesis
  proof (cases "to_ascii_uppercase (command fr) = str ''SEND''")
    case True
    with False w show ?thesis by (auto simp: send_command handle_send_def split: sum.splits prod.splits)
  next
    case False
    then show ?thesis using w drop by (auto simp: handle_client_frame_def Let_def answers_def split: option.splits)
  qed
qed

lemma message_work:
  assumes "sodium_contract L" "ks_inv (n_world n) store"
  shows "\<exists>n'. handle_message H L cfg store e m n = Some n' \<and> n_next_corr n' = n_next_corr n \<and> answers n' \<le> answers n \<and>
    length (n_sent n') \<le> Suc (length (n_sent n))"
proof (cases m)
  case (Request corr x)
  obtain r st where ex: "(if owner (op_key x) (c_id cfg) (c_peer_id cfg) = c_id cfg then kv_execute x (n_kv n)
      else (ReplyErr (str ''key '' @ show_u64 (op_key x) @ str '' does not belong to node '' @
        show_nat (unat (c_id cfg))), n_kv n)) = (r, st)" by fastforce
  obtain res n1 where s: "send_to_peer H L cfg store e (peer_encode (Response corr r)) (n\<lparr>n_kv := st\<rparr>) = Some (res, n1)"
    "length (n_sent n1) \<le> Suc (length (n_sent n))"
    using send_to_peer_total [OF assms(1), of "n\<lparr>n_kv := st\<rparr>"] assms(2) by force
  then show ?thesis using send_to_peer_keeps [OF s(1)]
    by (cases res) (auto simp: handle_message_def Request ex answers_def)
next
  case (Response corr r)
  then show ?thesis using answer_owed [of n corr] by (auto simp: handle_message_def split: option.split)
qed

lemma datagram_work:
  assumes "sodium_contract L" "ks_inv (n_world n) store"
  shows "\<exists>n'. handle_datagram H L cfg store e bs n = Some n' \<and> worked (Datagram bs) n n'"
proof -
  obtain r w st where d: "dek_open L store bs (n_world n) (n_stats n) = Some (r, w, st)"
    using dek_open_no_panic [of L store bs "n_world n" "n_stats n"] by fastforce
  have "heap w = heap (n_world n)"
    using dek_open_accounts [OF sodium_contractD(1,2) [OF assms(1)] assms(2) d] by (auto simp: wipe_dek_def)
  then have "ks_inv (n_world (n\<lparr>n_world := w, n_stats := st\<rparr>)) store" using assms(2) by (simp add: ks_inv_heap [of w "n_world n"])
  note m = message_work [OF assms(1) this, of H cfg e]
  have same: "answers (n\<lparr>n_world := w, n_stats := st\<rparr>) = answers n" "answers (n\<lparr>n_world := w, n_stats := st, n_log := l\<rparr>) = answers n" for l
    by (simp_all add: answers_def)
  show ?thesis
  proof (cases "\<exists>msg. handle_datagram H L cfg store e bs n = handle_message H L cfg store e msg (n\<lparr>n_world := w, n_stats := st\<rparr>)")
    case True
    then show ?thesis using m same by force
  next
    case False
    then show ?thesis using d same
      by (auto simp: handle_datagram_def Let_def split: sum.splits option.splits if_splits prod.splits)
  qed
qed

lemma node_step_work:
  assumes "sodium_contract L" "ks_inv (n_world n) store" "n_next_corr n \<noteq> 0xFFFFFFFFFFFFFFFF"
  shows "\<exists>n'. node_step H L cfg store e (t, ev) n = Some n' \<and> worked ev n n'"
proof (cases ev)
  case (ClientFrame conn fr)
  then show ?thesis using client_frame_work [OF assms] by simp
next
  case (Datagram bs)
  then show ?thesis using datagram_work [OF assms(1,2)] by simp
next
  case (ClientDown conn)
  then show ?thesis by (simp add: answers_def)
next
  case Tick
  have "n_next_corr (expire_loop H cfg cs n) = n_next_corr n \<and> n_sent (expire_loop H cfg cs n) = n_sent n" for cs
    by (induction cs arbitrary: n) (auto split: option.splits)
  then show ?thesis using Tick expire_answers_le by (simp add: handle_tick_def)
qed (simp add: answers_def)

text \<open>Any number of events: no panic before the correlation ids run out.\<close>

lemma core_loop_work:
  assumes "sodium_contract L" "node_inv cfg store n" "unat (n_next_corr n) + client_frames xs < 0xFFFFFFFFFFFFFFFF"
  shows "\<exists>n'. core_loop H L cfg store e xs n = Some n' \<and> answers n' \<le> answers n + client_frames xs \<and>
    length (n_sent n') \<le> length (n_sent n) + client_frames xs + datagrams xs"
  using assms(2,3)
proof (induction xs arbitrary: n)
  case (Cons x xs)
  obtain t ev where x: "x = (t, ev)" by fastforce
  have c: "client_frames (x # xs) = of_bool (is_client_frame ev) + client_frames xs"
    "datagrams (x # xs) = of_bool (is_datagram ev) + datagrams xs"
    by (simp_all add: client_frames_def datagrams_def x)
  have "n_next_corr n \<noteq> 0xFFFFFFFFFFFFFFFF" using Cons.prems(2) by auto
  then obtain n1 where n1: "node_step H L cfg store e x n = Some n1" "worked ev n n1"
    using node_step_work [OF assms(1)] Cons.prems(1) by (force simp: node_inv_def x)
  have "node_inv cfg store n1" using node_step_inv [OF assms(1) Cons.prems(1)] n1(1) by (auto simp: x)
  moreover have "unat (n_next_corr n1) + client_frames xs < 0xFFFFFFFFFFFFFFFF" using n1(2) Cons.prems(2) c(1) by simp
  ultimately obtain n' where "core_loop H L cfg store e xs n1 = Some n'" "answers n' \<le> answers n1 + client_frames xs"
    "length (n_sent n') \<le> length (n_sent n1) + client_frames xs + datagrams xs"
    using Cons.IH by blast
  with n1 c show ?case by (intro exI [of _ n']) (cases ev; simp)
qed simp

section \<open>Threads\<close>

text \<open>What the threads print on standard error.\<close>

datatype thread_line = UdpRecvLine ustr | AcceptLine ustr | CloneLine ustr | ClientLine u64 frame_error

text \<open>
  The process: the core thread (\<open>None\<close> when it has panicked), the events it has received with their
  times, the channel, and each producer with what its socket will deliver. The reader of a
  connection has an entry while it runs; \<open>None\<close> for the UDP reader or the acceptor is a thread
  that has ended.
\<close>

record process =
  pr_core :: "node option"
  pr_taken :: "(nat \<times> event) list"
  pr_queue :: "event list"
  pr_udp :: "recv_result list option"
  pr_next_id :: u64
  pr_accept :: "accept_result list option"
  pr_readers :: "(u64 \<times> reader) list"
  pr_lines :: "thread_line list"

definition post :: "event \<Rightarrow> process \<Rightarrow> process" where
  "post ev p = p\<lparr>pr_queue := pr_queue p @ [ev]\<rparr>"

definition print_line :: "thread_line \<Rightarrow> process \<Rightarrow> process" where
  "print_line l p = p\<lparr>pr_lines := pr_lines p @ [l]\<rparr>"

text \<open>One turn of each thread; \<open>None\<close> when it has ended or waits.\<close>

definition udp_turn :: "process \<Rightarrow> process option" where
  "udp_turn p =
     (case pr_udp p of
        None \<Rightarrow> None
      | Some [] \<Rightarrow> None
      | Some (Received bs # rest) \<Rightarrow> Some (post (Datagram (take MAX_DATAGRAM bs)) (p\<lparr>pr_udp := Some rest\<rparr>))
      | Some (RecvFailed e # rest) \<Rightarrow> Some (print_line (UdpRecvLine e) (p\<lparr>pr_udp := None\<rparr>)))"

definition accept_turn :: "process \<Rightarrow> process option" where
  "accept_turn p =
     (case pr_accept p of
        None \<Rightarrow> None
      | Some [] \<Rightarrow> None
      | Some (AcceptFailed e # rest) \<Rightarrow> Some (print_line (AcceptLine e) (p\<lparr>pr_accept := Some rest\<rparr>))
      | Some (incoming # rest) \<Rightarrow>
          if pr_next_id p = 0xFFFFFFFFFFFFFFFF then Some (p\<lparr>pr_accept := None\<rparr>)
          else let conn = pr_next_id p + 1; p1 = p\<lparr>pr_accept := Some rest, pr_next_id := conn\<rparr> in
            (case incoming of
               Accepted stream \<Rightarrow> Some ((post (ClientUp conn) p1)\<lparr>pr_readers := (conn, stream) # pr_readers p1\<rparr>)
             | CloneFailed e \<Rightarrow> Some (print_line (CloneLine e) p1)
             | AcceptFailed e \<Rightarrow> Some p1))"

definition reader_turn :: "u64 \<Rightarrow> process \<Rightarrow> process option" where
  "reader_turn conn p =
     (case map_of (pr_readers p) conn of
        None \<Rightarrow> None
      | Some r \<Rightarrow>
          (case read_frame r of
             (Ok (Some frame), r1) \<Rightarrow>
               Some (post (ClientFrame conn frame) (p\<lparr>pr_readers := hm_insert conn r1 (pr_readers p)\<rparr>))
           | (Ok None, _) \<Rightarrow> Some (post (ClientDown conn) (p\<lparr>pr_readers := hm_remove conn (pr_readers p)\<rparr>))
           | (Err e, _) \<Rightarrow>
               Some (post (ClientDown conn) (print_line (ClientLine conn e)
                 (p\<lparr>pr_readers := hm_remove conn (pr_readers p)\<rparr>)))))"

text \<open>The ticker sleeps for 250 ms before it posts; how long that takes is left to the schedule, so a tick
  may come at any time.\<close>

definition ticker_turn :: "process \<Rightarrow> process option" where
  "ticker_turn p = Some (post Tick p)"

definition core_turn ::
  "host \<Rightarrow> sodium_lib \<Rightarrow> config \<Rightarrow> keystore \<Rightarrow> epoch \<Rightarrow> nat \<Rightarrow> process \<Rightarrow> process option" where
  "core_turn H L cfg store e now p =
     (case (pr_core p, pr_queue p) of
        (Some n, ev # rest) \<Rightarrow>
          Some (p\<lparr>pr_core := node_step H L cfg store e (now, ev) n, pr_taken := pr_taken p @ [(now, ev)], pr_queue := rest\<rparr>)
      | _ \<Rightarrow> None)"

text \<open>A schedule names, turn by turn, the thread that runs; the process ends with the core thread.\<close>

datatype turn = UdpTurn | AcceptTurn | ReaderTurn u64 | TickerTurn | CoreTurn nat

fun thread_turn ::
  "host \<Rightarrow> sodium_lib \<Rightarrow> config \<Rightarrow> keystore \<Rightarrow> epoch \<Rightarrow> turn \<Rightarrow> process \<Rightarrow> process option" where
  "thread_turn H L cfg store e UdpTurn p = udp_turn p"
| "thread_turn H L cfg store e AcceptTurn p = accept_turn p"
| "thread_turn H L cfg store e (ReaderTurn conn) p = reader_turn conn p"
| "thread_turn H L cfg store e TickerTurn p = ticker_turn p"
| "thread_turn H L cfg store e (CoreTurn now) p = core_turn H L cfg store e now p"

definition process_turn ::
  "host \<Rightarrow> sodium_lib \<Rightarrow> config \<Rightarrow> keystore \<Rightarrow> epoch \<Rightarrow> turn \<Rightarrow> process \<Rightarrow> (unit \<times> process) option" where
  "process_turn H L cfg store e t p =
     (if pr_core p = None then None else map_option (Pair ()) (thread_turn H L cfg store e t p))"

definition process_start :: "node \<Rightarrow> recv_result list \<Rightarrow> accept_result list \<Rightarrow> process" where
  "process_start n recvs accepts =
     \<lparr>pr_core = Some n, pr_taken = [], pr_queue = [], pr_udp = Some recvs, pr_next_id = 0, pr_accept = Some accepts,
      pr_readers = [], pr_lines = []\<rparr>"

section \<open>Every schedule is an interleaving\<close>

fun of_conn :: "u64 \<Rightarrow> event \<Rightarrow> bool" where
  "of_conn c (ClientUp d) = (c = d)"
| "of_conn c (ClientFrame d _) = (c = d)"
| "of_conn c (ClientDown d) = (c = d)"
| "of_conn c _ = False"

text \<open>The events posted so far, and what each producer has still to post.\<close>

definition posted :: "process \<Rightarrow> event list" where
  "posted p = map snd (pr_taken p) @ pr_queue p"

definition udp_left :: "process \<Rightarrow> event list" where
  "udp_left p = (case pr_udp p of None \<Rightarrow> [] | Some rs \<Rightarrow> udp_reader rs)"

definition accept_left :: "process \<Rightarrow> (u64 \<times> reader) list" where
  "accept_left p = (case pr_accept p of None \<Rightarrow> [] | Some xs \<Rightarrow> acceptor (pr_next_id p) xs)"

definition reader_left :: "process \<Rightarrow> u64 \<Rightarrow> event list" where
  "reader_left p c = (case map_of (pr_readers p) c of None \<Rightarrow> [] | Some r \<Rightarrow> client_thread c r)"

definition events_of :: "(u64 \<times> reader) list \<Rightarrow> u64 \<Rightarrow> event list" where
  "events_of cs c = (case map_of cs c of None \<Rightarrow> [] | Some r \<Rightarrow> connection_events (c, r))"

definition accepted_so_far :: "accept_result list \<Rightarrow> (u64 \<times> reader) list \<Rightarrow> process \<Rightarrow> bool" where
  "accepted_so_far accepts cs p \<longleftrightarrow> cs @ accept_left p = acceptor 0 accepts \<and> distinct (map fst cs) \<and>
     (\<forall>c \<in> fst ` set cs. c \<le> pr_next_id p) \<and> fst ` set (pr_readers p) \<subseteq> fst ` set cs \<and>
     (\<forall>c. filter (of_conn c) (posted p) @ reader_left p c = events_of cs c)"

definition process_inv ::
  "host \<Rightarrow> sodium_lib \<Rightarrow> config \<Rightarrow> keystore \<Rightarrow> epoch \<Rightarrow> node \<Rightarrow> recv_result list \<Rightarrow> accept_result list \<Rightarrow> process \<Rightarrow> bool"
  where
  "process_inv H L cfg store e n0 recvs accepts p \<longleftrightarrow>
     pr_core p = core_loop H L cfg store e (pr_taken p) n0 \<and>
     filter is_datagram (posted p) @ udp_left p = udp_reader recvs \<and> (\<exists>cs. accepted_so_far accepts cs p)"

lemma core_loop_append:
  "core_loop H L cfg store e (xs @ ys) n = Option.bind (core_loop H L cfg store e xs n) (core_loop H L cfg store e ys)"
  by (induction xs arbitrary: n) (auto split: Option.bind_splits)

text \<open>A turn posts \<open>evs\<close> and announces the connections \<open>new\<close>: what it posts is taken from what its
  thread had left.\<close>

lemma process_inv_turn:
  assumes inv: "process_inv H L cfg store e n0 recvs accepts p"
    and core: "pr_core p' = core_loop H L cfg store e (pr_taken p') n0" and post: "posted p' = posted p @ evs"
    and udp: "udp_left p = filter is_datagram evs @ udp_left p'" and acc: "accept_left p = new @ accept_left p'"
    and ids: "pr_next_id p \<le> pr_next_id p'" "\<And>c r. (c, r) \<in> set new \<Longrightarrow> pr_next_id p < c \<and> c \<le> pr_next_id p'" "distinct (map fst new)"
    and rd: "fst ` set (pr_readers p') \<subseteq> fst ` set (pr_readers p) \<union> fst ` set new"
      "\<And>c. c \<notin> fst ` set new \<Longrightarrow> reader_left p c = filter (of_conn c) evs @ reader_left p' c"
      "\<And>c r. (c, r) \<in> set new \<Longrightarrow> filter (of_conn c) evs @ reader_left p' c = connection_events (c, r)"
  shows "process_inv H L cfg store e n0 recvs accepts p'"
proof -
  obtain cs where cs: "cs @ accept_left p = acceptor 0 accepts" "distinct (map fst cs)" "\<forall>c \<in> fst ` set cs. c \<le> pr_next_id p"
    "fst ` set (pr_readers p) \<subseteq> fst ` set cs" "\<forall>c. filter (of_conn c) (posted p) @ reader_left p c = events_of cs c"
    using inv unfolding process_inv_def accepted_so_far_def by blast
  have fresh: "c \<notin> fst ` set cs" if "(c, r) \<in> set new" for c r using ids(2) [OF that] cs(3) by force
  then have apart: "fst ` set cs \<inter> fst ` set new = {}" by force
  have "filter (of_conn c) (posted p') @ reader_left p' c = events_of (cs @ new) c" for c
  proof (cases "c \<in> fst ` set new")
    case True
    then obtain r where r: "(c, r) \<in> set new" by force
    have none: "map_of cs c = None" using fresh [OF r] by (simp add: map_of_eq_None_iff)
    then have "filter (of_conn c) (posted p) = []" using cs(5) [rule_format, of c] by (simp add: events_of_def)
    then show ?thesis using rd(3) [OF r] none map_of_is_SomeI [OF ids(3) r] by (simp add: post events_of_def map_add_def)
  next
    case False
    then have "map_of new c = None" by (simp add: map_of_eq_None_iff)
    then have "events_of (cs @ new) c = events_of cs c" by (simp add: events_of_def map_add_def split: option.split)
    then show ?thesis using cs(5) [rule_format, of c] rd(2) [OF False] by (simp add: post)
  qed
  moreover have "\<forall>c \<in> fst ` set (cs @ new). c \<le> pr_next_id p'" using cs(3) ids(1,2) by fastforce
  moreover have "fst ` set (pr_readers p') \<subseteq> fst ` set (cs @ new)" using rd(1) cs(4) unfolding set_append image_Un by blast
  ultimately have "accepted_so_far accepts (cs @ new) p'"
    unfolding accepted_so_far_def using cs(1,2) acc apart ids(3) by simp
  then show ?thesis using inv core post udp by (auto simp: process_inv_def)
qed

lemmas turn_defs = posted_def udp_left_def accept_left_def reader_left_def post_def print_line_def

lemma udp_turn_inv:
  assumes "process_inv H L cfg store e n0 recvs accepts p" "udp_turn p = Some p'"
  shows "process_inv H L cfg store e n0 recvs accepts p'"
proof -
  obtain evs where "posted p' = posted p @ evs" "udp_left p = filter is_datagram evs @ udp_left p'"
    "\<And>c. filter (of_conn c) evs = []" "pr_core p' = pr_core p" "pr_taken p' = pr_taken p" "pr_next_id p' = pr_next_id p"
    "pr_accept p' = pr_accept p" "pr_readers p' = pr_readers p"
    using assms(2) by (fastforce simp: udp_turn_def turn_defs split: option.splits list.splits recv_result.splits)
  with assms(1) show ?thesis
    by (intro process_inv_turn [OF assms(1), of _ evs "[]"]) (simp_all add: process_inv_def accept_left_def reader_left_def split: option.split)
qed

lemma ticker_turn_inv:
  assumes "process_inv H L cfg store e n0 recvs accepts p" "ticker_turn p = Some p'"
  shows "process_inv H L cfg store e n0 recvs accepts p'"
  using assms
  by (intro process_inv_turn [OF assms(1), of _ "[Tick]" "[]"]) (auto simp: process_inv_def ticker_turn_def turn_defs split: option.split)

lemma core_turn_inv:
  assumes "process_inv H L cfg store e n0 recvs accepts p" "core_turn H L cfg store e now p = Some p'"
  shows "process_inv H L cfg store e n0 recvs accepts p'"
proof -
  obtain n ev rest where q: "pr_core p = Some n" "pr_queue p = ev # rest"
    "p' = p\<lparr>pr_core := node_step H L cfg store e (now, ev) n, pr_taken := pr_taken p @ [(now, ev)], pr_queue := rest\<rparr>"
    using assms(2) by (auto simp: core_turn_def split: option.splits list.splits)
  have "core_loop H L cfg store e (pr_taken p) n0 = Some n" using assms(1) q by (simp add: process_inv_def)
  then have "core_loop H L cfg store e (pr_taken p') n0 = pr_core p'"
    by (cases "node_step H L cfg store e (now, ev) n") (simp_all add: q core_loop_append)
  then show ?thesis
    by (intro process_inv_turn [OF assms(1), of _ "[]" "[]"]) (auto simp: q turn_defs split: option.split)
qed

lemma accept_turn_inv:
  assumes "process_inv H L cfg store e n0 recvs accepts p" "accept_turn p = Some p'"
  shows "process_inv H L cfg store e n0 recvs accepts p'"
proof (cases "\<exists>r rest. pr_accept p = Some (Accepted r # rest) \<and> pr_next_id p \<noteq> 0xFFFFFFFFFFFFFFFF")
  case True
  then obtain r rest where q: "pr_accept p = Some (Accepted r # rest)" "pr_next_id p \<noteq> 0xFFFFFFFFFFFFFFFF" by blast
  let ?conn = "pr_next_id p + 1"
  have p': "p' = (post (ClientUp ?conn) (p\<lparr>pr_accept := Some rest, pr_next_id := ?conn\<rparr>))\<lparr>pr_readers := (?conn, r) # pr_readers p\<rparr>"
    using assms(2) q by (simp add: accept_turn_def Let_def)
  show ?thesis using u64_succ_less [OF q(2)] assms(1) q
    by (intro process_inv_turn [OF assms(1), of _ "[ClientUp ?conn]" "[(?conn, r)]"])
      (auto simp: p' process_inv_def turn_defs connection_events_def split: option.split)
next
  case False
  then have "pr_accept p' = None \<and> accept_left p = [] \<or> accept_left p' = accept_left p" "pr_next_id p \<le> pr_next_id p'"
      "posted p' = posted p" "pr_core p' = pr_core p" "pr_taken p' = pr_taken p" "udp_left p' = udp_left p" "pr_readers p' = pr_readers p"
    using assms(2) u64_succ_less [of "pr_next_id p"]
    by (auto simp: accept_turn_def turn_defs Let_def split: option.splits list.splits accept_result.splits if_splits)
  then show ?thesis using assms(1)
    by (intro process_inv_turn [OF assms(1), of _ "[]" "[]"]) (auto simp: process_inv_def reader_left_def accept_left_def)
qed

lemma map_of_hm_insert: "map_of (hm_insert k v m) c = (if c = k then Some v else map_of m c)"
  by (induction m) (auto simp: hm_insert_def hm_remove_def)

lemma map_of_hm_remove: "map_of (hm_remove k m) c = (if c = k then None else map_of m c)"
  by (induction m) (auto simp: hm_remove_def)

lemma hm_keys: "fst ` set (hm_remove k m) \<subseteq> fst ` set m" "k \<in> fst ` set m \<Longrightarrow> fst ` set (hm_insert k v m) \<subseteq> fst ` set m"
  by (auto simp: hm_insert_def hm_remove_def)

lemma reader_turn_inv:
  assumes "process_inv H L cfg store e n0 recvs accepts p" "reader_turn conn p = Some p'"
  shows "process_inv H L cfg store e n0 recvs accepts p'"
proof -
  obtain r where r: "map_of (pr_readers p) conn = Some r" using assms(2) by (auto simp: reader_turn_def split: option.splits)
  then have mem: "conn \<in> fst ` set (pr_readers p)" by (force dest: map_of_SomeD)
  obtain ev where ev: "posted p' = posted p @ [ev]" "\<not> is_datagram ev" "\<And>c. of_conn c ev \<longleftrightarrow> c = conn"
    "client_thread conn r = ev # reader_left p' conn" "\<And>c. c \<noteq> conn \<Longrightarrow> map_of (pr_readers p') c = map_of (pr_readers p) c"
    using assms(2) r client_thread.simps [of conn r]
    by (auto simp: reader_turn_def turn_defs map_of_hm_insert map_of_hm_remove split: prod.splits sum.splits option.splits)
  have "pr_readers p' = hm_remove conn (pr_readers p) \<or> (\<exists>r1. pr_readers p' = hm_insert conn r1 (pr_readers p))"
    using assms(2) r by (auto simp: reader_turn_def turn_defs split: prod.splits sum.splits option.splits)
  then have "fst ` set (pr_readers p') \<subseteq> fst ` set (pr_readers p)" using hm_keys(1) hm_keys(2) [OF mem] by metis
  note ev = ev this
  have rest: "pr_core p' = pr_core p" "pr_taken p' = pr_taken p" "pr_next_id p' = pr_next_id p" "pr_accept p' = pr_accept p" "pr_udp p' = pr_udp p"
    using assms(2) r by (auto simp: reader_turn_def turn_defs split: prod.splits sum.splits option.splits)
  have "reader_left p c = filter (of_conn c) [ev] @ reader_left p' c" for c
    using ev(3-5) r by (cases "c = conn") (simp_all add: reader_left_def)
  then show ?thesis using assms(1) ev rest
    by (intro process_inv_turn [OF assms(1), of _ "[ev]" "[]"]) (auto simp: process_inv_def udp_left_def accept_left_def split: option.split)
qed

lemma process_inv_start: "process_inv H L cfg store e n recvs accepts (process_start n recvs accepts)"
  by (auto simp: process_inv_def accepted_so_far_def process_start_def turn_defs events_of_def intro: exI [of _ "[]"])

interpretation threads: safe_machine "process_turn H L cfg store e" "process_inv H L cfg store e n0 recvs accepts"
  "\<lambda>p p'. prefix (pr_taken p) (pr_taken p')"
  for H L cfg store e n0 recvs accepts
proof unfold_locales
  fix p t r p'
  assume inv: "process_inv H L cfg store e n0 recvs accepts p" and "process_turn H L cfg store e t p = Some (r, p')"
  then have t: "thread_turn H L cfg store e t p = Some p'" by (auto simp: process_turn_def split: if_splits)
  then have "process_inv H L cfg store e n0 recvs accepts p'"
    using udp_turn_inv [OF inv] accept_turn_inv [OF inv] reader_turn_inv [OF inv] ticker_turn_inv [OF inv] core_turn_inv [OF inv]
    by (cases t) simp_all
  moreover have "prefix (pr_taken p) (pr_taken p')"
    using t by (cases t) (auto simp: udp_turn_def accept_turn_def reader_turn_def ticker_turn_def core_turn_def turn_defs Let_def
        split: option.splits list.splits recv_result.splits accept_result.splits prod.splits sum.splits if_splits)
  ultimately show "process_inv H L cfg store e n0 recvs accepts p' \<and> prefix (pr_taken p) (pr_taken p')" by blast
qed (auto intro: prefix_order.order_trans)

section \<open>Connections at the core\<close>

abbreviation waiting :: "node \<Rightarrow> u64 set" where
  "waiting n \<equiv> (p_conn \<circ> snd) ` set (n_pending n)"

lemma reply_clients: "n_clients (reply_to_client H c rc r n) \<subseteq> n_clients n"
  by (simp add: reply_to_client_def write_frame_clients)

lemma forward_conns:
  assumes "forward H L cfg store e now conn rc x n = Some n'"
  shows "n_clients n' \<subseteq> n_clients n \<and> waiting n' \<subseteq> insert conn (waiting n)"
proof -
  obtain r n2 where s: "send_to_peer H L cfg store e (peer_encode (Request (n_next_corr n + 1) x)) (n\<lparr>n_next_corr := n_next_corr n + 1\<rparr>) = Some (r, n2)"
    and n': "n' = (case r of Inl m \<Rightarrow> reply_to_client H conn rc (ReplyErr m) n2 | Inr _ \<Rightarrow>
      n2\<lparr>n_pending := hm_insert (n_next_corr n + 1) \<lparr>p_conn = conn, p_receipt = rc, p_deadline = now + FORWARD_TIMEOUT\<rparr> (n_pending n2)\<rparr>)"
    using assms by (auto simp: forward_def Let_def split: if_splits Option.bind_splits sum.splits)
  have n2: "n_clients n2 = n_clients n" "n_pending n2 = n_pending n" using send_to_peer_keeps [OF s] by auto
  then show ?thesis using n' reply_clients [of H conn rc _ n2]
    by (cases r) (auto simp: hm_insert_def hm_remove_def)
qed

lemma client_frame_conns:
  assumes "handle_client_frame H L cfg store e now conn fr n = Some n'"
  shows "n_clients n' \<subseteq> n_clients n \<and> waiting n' \<subseteq> insert conn (waiting n)"
proof (cases "\<exists>rc x. forward H L cfg store e now conn rc x n = Some n'")
  case True
  then show ?thesis using forward_conns by blast
next
  case False
  then show ?thesis using assms
    by (auto simp: handle_client_frame_def handle_send_def Let_def split: if_splits option.splits sum.splits prod.splits
        dest!: subsetD [OF write_frame_clients] subsetD [OF reply_clients])
qed

lemma message_conns:
  assumes "handle_message H L cfg store e m n = Some n'"
  shows "n_clients n' \<subseteq> n_clients n \<and> waiting n' \<subseteq> waiting n"
proof (cases m)
  case (Request corr x)
  then show ?thesis using assms
    by (auto simp: handle_message_def split: prod.splits Option.bind_splits sum.splits dest!: send_to_peer_keeps)
next
  case (Response corr r)
  then show ?thesis using assms
    by (auto simp: handle_message_def hm_remove_def split: option.splits dest!: subsetD [OF reply_clients])
qed

lemma node_step_conns:
  assumes "node_step H L cfg store e (t, ev) n = Some n'"
  shows "n_clients n' \<subseteq> n_clients n \<union> {c. ev = ClientUp c} - {c. ev = ClientDown c} \<and>
    waiting n' \<subseteq> waiting n \<union> {c. \<exists>fr. ev = ClientFrame c fr} - {c. ev = ClientDown c}"
proof (cases ev)
  case (ClientFrame conn fr)
  then show ?thesis using assms client_frame_conns [of H L cfg store e t conn fr n n'] by auto
next
  case (Datagram bs)
  with assms obtain r w st where d: "handle_datagram H L cfg store e bs n = Some n'"
    "dek_open L store bs (n_world n) (n_stats n) = Some (r, w, st)"
    by (auto simp: handle_datagram_def split: Option.bind_splits)
  show ?thesis
  proof (cases "\<exists>m. handle_message H L cfg store e m (n\<lparr>n_world := w, n_stats := st\<rparr>) = Some n'")
    case True
    then obtain m where "handle_message H L cfg store e m (n\<lparr>n_world := w, n_stats := st\<rparr>) = Some n'" by blast
    from message_conns [OF this] show ?thesis using Datagram by auto
  next
    case False
    then show ?thesis using Datagram d
      by (auto simp: handle_datagram_def Let_def split: sum.splits option.splits if_splits prod.splits)
  qed
next
  case Tick
  then show ?thesis using assms by (auto simp: handle_tick_def expire_pending dest!: subsetD [OF expire_clients])
qed (use assms in auto)

text \<open>Who is connected or waits has events on record, the last of which is not its end.\<close>

lemma core_loop_conns:
  assumes "core_loop H L cfg store e xs n0 = Some n" "n_clients n0 = {}" "n_pending n0 = []" "c \<in> n_clients n \<union> waiting n"
  shows "filter (of_conn c) (map snd xs) \<noteq> [] \<and> last (filter (of_conn c) (map snd xs)) \<noteq> ClientDown c"
  using assms(1,4)
proof (induction xs arbitrary: n rule: rev_induct)
  case Nil
  then show ?case using assms(2,3) by simp
next
  case (snoc x xs)
  obtain t ev where x: "x = (t, ev)" by fastforce
  obtain n1 where n1: "core_loop H L cfg store e xs n0 = Some n1" "node_step H L cfg store e (t, ev) n1 = Some n"
    using snoc.prems(1) by (auto simp: core_loop_append x split: Option.bind_splits)
  note k = node_step_conns [OF n1(2)]
  show ?case
  proof (cases "of_conn c ev")
    case True
    then show ?thesis using k snoc.prems(2) by (auto simp: x)
  next
    case False
    then have "c \<in> n_clients n1 \<union> waiting n1" using k snoc.prems(2) by auto
    then show ?thesis using snoc.IH [OF n1(1)] False by (simp add: x)
  qed
qed

lemma events_of_shape:
  "events_of cs c = [] \<or> (\<exists>fs. events_of cs c = ClientUp c # map (ClientFrame c) fs @ [ClientDown c])"
  using client_thread_last [of c] by (auto simp: events_of_def connection_events_def split: option.split)

text \<open>A connection of which something was posted, and whose last event so far is not its end.\<close>

lemma unended:
  assumes "prefix xs (events_of cs c)" "xs \<noteq> []" "last xs \<noteq> ClientDown c"
  shows "ClientUp c \<in> set xs \<and> ClientDown c \<notin> set xs \<and> xs \<noteq> events_of cs c"
proof -
  obtain fs where e: "events_of cs c = ClientUp c # map (ClientFrame c) fs @ [ClientDown c]"
    using events_of_shape [of cs c] assms(1,2) by auto
  have ne: "xs \<noteq> events_of cs c" using assms(3) e by auto
  then have "prefix xs (ClientUp c # map (ClientFrame c) fs)"
    using assms(1) unfolding e by (metis append_Cons prefix_snoc)
  then show ?thesis using assms(2) ne by (cases xs) (fastforce dest: set_mono_prefix)+
qed

section \<open>A concrete process\<close>

fun run_turns ::
  "host \<Rightarrow> sodium_lib \<Rightarrow> config \<Rightarrow> keystore \<Rightarrow> epoch \<Rightarrow> turn list \<Rightarrow> process \<Rightarrow> process option" where
  "run_turns H L cfg store e [] p = Some p"
| "run_turns H L cfg store e (t # ts) p =
     do { (_, p1) \<leftarrow> process_turn H L cfg store e t p; run_turns H L cfg store e ts p1 }"

lemma run_turns_reachable:
  "run_turns H L cfg store e ts p = Some p' \<Longrightarrow> reachable (process_turn H L cfg store e) p0 p \<Longrightarrow>
    reachable (process_turn H L cfg store e) p0 p'"
proof (induction ts arbitrary: p)
  case (Cons t ts)
  then obtain p1 where "process_turn H L cfg store e t p = Some ((), p1)" "run_turns H L cfg store e ts p1 = Some p'"
    by (auto split: Option.bind_splits)
  then show ?case using Cons.IH reachable_call [OF Cons.prems(2)] by metis
qed simp

text \<open>A client that sends the frame \<open>A\<close> and leaves, with a tick between.\<close>

definition demo_stream :: reader where
  "demo_stream = \<lparr>buffered = [], source = [ReadData [65, 10, 10, 0]]\<rparr>"

abbreviation demo_frame :: frame where
  "demo_frame \<equiv> \<lparr>command = [65], headers = [], body = []\<rparr>"

lemma demo_frame_read:
  "\<exists>r'. read_frame demo_stream = (Ok (Some demo_frame), r') \<and> (\<exists>r''. read_frame r' = (Ok None, r''))"
proof -
  have f: "frame_ok demo_frame" "str_len (frame_text [65] [] []) \<le> MAX_FRAME_BYTES" "steady demo_stream"
    "stream_bytes demo_stream = frame_bytes demo_frame"
    by (simp_all add: demo_stream_def steady_def stream_bytes_def frame_bytes_def frame_encode_def frame_text_def frame_ok_def
        is_scalar_def str_len_def utf8_char_def mk_byte_def MAX_FRAME_BYTES_def)
  then obtain r' where r': "read_frame demo_stream = (Ok (Some demo_frame), r')" "steady r'" "stream_bytes r' = []"
    using read_frame_complete [where r = demo_stream and f = demo_frame and rest = "[]"] by (auto simp: frame_bytes_def)
  then obtain r'' where "read_raw [] r' = (Ok None, r'')" using read_raw_end by blast
  then show ?thesis using r'(1) by (simp add: read_frame.simps [of r'])
qed

definition demo_schedule :: "turn list" where
  "demo_schedule = [AcceptTurn, ReaderTurn 1, TickerTurn, CoreTurn 0, CoreTurn 1, ReaderTurn 1, CoreTurn 2, CoreTurn 3]"

lemma demo_process:
  assumes "n_pending n = []"
  shows "\<exists>p. run_turns demo_host L cfg store e demo_schedule (process_start n [] [Accepted demo_stream]) = Some p \<and>
    pr_accept p = Some [] \<and> pr_readers p = [] \<and> pr_queue p = [] \<and> (\<exists>m. pr_core p = Some m)"
proof -
  obtain r' r'' where r: "read_frame demo_stream = (Ok (Some demo_frame), r')" "read_frame r' = (Ok None, r'')"
    using demo_frame_read by blast
  have w: "write_frame demo_host c bs m = m\<lparr>n_written := n_written m @ [(c, bs, True)]\<rparr>" if "c \<in> n_clients m" for c bs m
    using that by (simp add: write_frame_def demo_host_def)
  have ord: "h_order demo_host xs = xs" for xs by (simp add: demo_host_def)
  have cmd: "to_ascii_uppercase [65] = [65]" by (simp add: to_ascii_uppercase_def ascii_upper_def)
  show ?thesis
    by (simp add: demo_schedule_def process_start_def process_turn_def accept_turn_def reader_turn_def ticker_turn_def core_turn_def
        post_def r hm_insert_def hm_remove_def handle_client_frame_def cmd str_simps w handle_tick_def assms ord)
qed

section \<open>Properties\<close>

text \<open>C14. Whatever the scheduler does, the core thread sees an interleaving of its producers. In every
  reachable state of the process its state is that of the core loop on the events received; the
  datagrams posted are those of the socket, in order, from the first, and all of them once the socket
  is drained; and each connection has posted the beginning of its announcement, frames and end, in this
  order. For each connection that was announced, by itself: as long as its reader runs, what it has
  posted and what the reader has still to post make up all of its events, and once its reader has ended it
  has posted all of them, whatever the other connections and the acceptor do. No event is lost, invented or
  reordered within its source.\<close>

theorem threads_interleave:
  assumes "reachable (process_turn H L cfg store e) (process_start n0 recvs accepts) p"
  shows "pr_core p = core_loop H L cfg store e (pr_taken p) n0 \<and>
    prefix (filter is_datagram (posted p)) (udp_reader recvs) \<and>
    (\<forall>c. prefix (filter (of_conn c) (posted p)) (events_of (acceptor 0 accepts) c)) \<and>
    (pr_udp p = Some [] \<or> pr_udp p = None \<longrightarrow> filter is_datagram (posted p) = udp_reader recvs) \<and>
    (\<forall>c. ClientUp c \<in> set (posted p) \<longrightarrow>
      (case map_of (pr_readers p) c of
         Some r \<Rightarrow> filter (of_conn c) (posted p) @ client_thread c r = events_of (acceptor 0 accepts) c
       | None \<Rightarrow> filter (of_conn c) (posted p) = events_of (acceptor 0 accepts) c)) \<and>
    ((pr_accept p = Some [] \<or> pr_accept p = None) \<and> pr_readers p = [] \<longrightarrow>
      (\<forall>c. filter (of_conn c) (posted p) = events_of (acceptor 0 accepts) c))"
proof -
  have inv: "process_inv H L cfg store e n0 recvs accepts p"
    using threads.reachable_inv [OF assms] process_inv_start by blast
  then obtain cs where cs: "cs @ accept_left p = acceptor 0 accepts"
    "\<forall>c. filter (of_conn c) (posted p) @ reader_left p c = events_of cs c"
    unfolding process_inv_def accepted_so_far_def by blast
  have "prefix (events_of cs c) (events_of (cs @ accept_left p) c)" for c
    by (auto simp: events_of_def map_add_def split: option.split)
  then have "prefix (filter (of_conn c) (posted p)) (events_of (acceptor 0 accepts) c)" for c
    using cs by (metis prefixI prefix_order.order_trans)
  moreover have "filter (of_conn c) (posted p) @ reader_left p c = events_of (acceptor 0 accepts) c"
    if "ClientUp c \<in> set (posted p)" for c
  proof -
    from that have "filter (of_conn c) (posted p) \<noteq> []" by (force simp: filter_empty_conv)
    with cs(2) have "events_of cs c \<noteq> []" by (metis append_is_Nil_conv)
    then have "events_of (cs @ accept_left p) c = events_of cs c"
      by (auto simp: events_of_def map_add_def split: option.splits)
    with cs show ?thesis by simp
  qed
  then have "case map_of (pr_readers p) c of
         Some r \<Rightarrow> filter (of_conn c) (posted p) @ client_thread c r = events_of (acceptor 0 accepts) c
       | None \<Rightarrow> filter (of_conn c) (posted p) = events_of (acceptor 0 accepts) c" if "ClientUp c \<in> set (posted p)" for c
    using that by (fastforce simp: reader_left_def split: option.splits)
  moreover have "filter (of_conn c) (posted p) = events_of (acceptor 0 accepts) c"
    if "pr_accept p = Some [] \<or> pr_accept p = None" "pr_readers p = []" for c
    using that cs(1) cs(2) [rule_format, of c] by (auto simp: accept_left_def reader_left_def)
  moreover have "pr_core p = core_loop H L cfg store e (pr_taken p) n0"
    "filter is_datagram (posted p) @ udp_left p = udp_reader recvs" using inv by (simp_all add: process_inv_def)
  ultimately show ?thesis by (auto simp: udp_left_def intro: prefixI [OF sym])
qed

theorem threads_interleave_witness:
  "\<exists>p. run_turns demo_host demo_sodium (demo_config 1 2) (demo_store 1 2 (Epoch 0)) (Epoch 0) demo_schedule
      (process_start demo_node [] [Accepted demo_stream]) = Some p \<and>
    filter (of_conn 1) (posted p) = connection_events (1, demo_stream)"
proof -
  obtain p where p: "run_turns demo_host demo_sodium (demo_config 1 2) (demo_store 1 2 (Epoch 0)) (Epoch 0) demo_schedule
      (process_start demo_node [] [Accepted demo_stream]) = Some p" "pr_accept p = Some []" "pr_readers p = []"
    using demo_process [OF demo_node_fields(1)] by blast
  from threads_interleave [OF run_turns_reachable [OF p(1) reachable_start]] p(2,3)
  have "filter (of_conn 1) (posted p) = events_of (acceptor 0 [Accepted demo_stream]) 1" by simp
  then show ?thesis using p(1) by (simp add: events_of_def)
qed

text \<open>C25. A connection that has ended leaves nothing behind. Under every schedule, whoever is in the client
  table or has a request on record was announced to the core and has not been reported gone; so once
  no reader runs and the queue is drained, both tables are empty.\<close>

theorem ended_connection_leaves_nothing:
  assumes "run_setup H L cfg st w = (Ok (store, e, n0), w')"
    and "reachable (process_turn H L cfg store e) (process_start n0 recvs accepts) p" "pr_core p = Some n"
  shows "(\<forall>c \<in> n_clients n \<union> (p_conn \<circ> snd) ` set (n_pending n).
      ClientUp c \<in> snd ` set (pr_taken p) \<and> ClientDown c \<notin> snd ` set (pr_taken p)) \<and>
    (pr_readers p = [] \<and> pr_queue p = [] \<longrightarrow> n_clients n = {} \<and> n_pending n = [])"
proof -
  have n0: "n_clients n0 = {}" "n_pending n0 = []" using run_setup_ok [OF assms(1)] by (auto simp: node_start_def)
  have inv: "process_inv H L cfg store e n0 recvs accepts p"
    using threads.reachable_inv [OF assms(2)] process_inv_start by blast
  then obtain cs where cs: "\<forall>c. filter (of_conn c) (posted p) @ reader_left p c = events_of cs c"
    unfolding process_inv_def accepted_so_far_def by blast
  let ?t = "\<lambda>c. filter (of_conn c) (map snd (pr_taken p))"
  have open_conn: "ClientUp c \<in> set (?t c) \<and> ClientDown c \<notin> set (?t c) \<and> ?t c \<noteq> events_of cs c"
    if "c \<in> n_clients n \<union> (p_conn \<circ> snd) ` set (n_pending n)" for c
  proof (rule unended)
    show "prefix (?t c) (events_of cs c)" using cs [rule_format, of c] by (auto simp: posted_def intro: prefixI [OF sym])
    show "?t c \<noteq> []" "last (?t c) \<noteq> ClientDown c"
      using core_loop_conns [OF _ n0 that] inv assms(3) by (simp_all add: process_inv_def)
  qed
  have "c \<notin> n_clients n \<union> (p_conn \<circ> snd) ` set (n_pending n)" if "pr_readers p = []" "pr_queue p = []" for c
    using cs [rule_format, of c] open_conn [of c] that by (auto simp: posted_def reader_left_def)
  then have "n_clients n \<union> (p_conn \<circ> snd) ` set (n_pending n) = {}" if "pr_readers p = []" "pr_queue p = []"
    using that by (intro equals0I) blast
  with open_conn show ?thesis by auto
qed

theorem ended_connection_leaves_nothing_witness:
  "\<exists>p n. run_turns demo_host demo_sodium (demo_config 1 2) (demo_store 1 2 (Epoch 0)) (Epoch 0) demo_schedule
      (process_start (node_start demo_world stats_init (banner (demo_config 1 2))) [] [Accepted demo_stream]) = Some p \<and>
    pr_core p = Some n \<and> n_clients n = {} \<and> n_pending n = []"
proof -
  let ?n0 = "node_start demo_world stats_init (banner (demo_config 1 2))"
  have "n_pending ?n0 = []" by (simp add: node_start_def)
  from demo_process [OF this] obtain p n where p: "run_turns demo_host demo_sodium (demo_config 1 2) (demo_store 1 2 (Epoch 0)) (Epoch 0)
      demo_schedule (process_start ?n0 [] [Accepted demo_stream]) = Some p" "pr_core p = Some n"
    "pr_readers p = []" "pr_queue p = []" by blast
  from ended_connection_leaves_nothing [OF demo_started run_turns_reachable [OF p(1) reachable_start] p(2)] p show ?thesis by blast
qed

text \<open>C15. The core thread does not panic and does not amplify. A node that has come up handles any
  sequence of events (fewer than 2^64 - 1 client frames, whatever their content and whatever
  datagrams arrive) to its end; it writes and owes at most one frame for each client frame, and
  sends at most one datagram for each client frame or datagram received.\<close>

theorem core_handles_every_event:
  assumes "sodium_contract L" "heap w = []" "length (c_key cfg) = KEYBYTES"
    and "run_setup H L cfg st w = (Ok (store, e, n0), w')" "client_frames events < 0xFFFFFFFFFFFFFFFF"
  shows "\<exists>n. core_loop H L cfg store e events n0 = Some n \<and>
    length (n_written n) + length (n_pending n) \<le> client_frames events \<and>
    length (n_sent n) \<le> client_frames events + datagrams events"
proof -
  note l = run_setup_linked [OF assms(1-4)]
  have n0: "n_next_corr n0 = 0" "n_written n0 = []" "n_pending n0 = []" "n_sent n0 = []"
    using run_setup_ok [OF assms(4)] by (auto simp: node_start_def)
  from core_loop_work [OF assms(1), of cfg store n0 events H e] l assms(5) n0 show ?thesis by (simp add: answers_def)
qed

theorem core_handles_every_event_witness:
  "\<exists>n. core_loop demo_host demo_sodium (demo_config 1 2) (demo_store 1 2 (Epoch 0)) (Epoch 0)
      [(0, ClientUp 1), (1, ClientFrame 1 demo_put), (2, Datagram [1, 2, 3])] (node_start demo_world stats_init (banner (demo_config 1 2))) = Some n \<and>
    length (n_written n) + length (n_pending n) \<le> 1 \<and> length (n_sent n) \<le> 2"
proof -
  have k: "length (c_key (demo_config 1 2)) = KEYBYTES" by (simp add: demo_config_def demo_key_length KEYBYTES_def)
  from core_handles_every_event [OF demo_contract fresh_fields(1) k demo_started,
      of "[(0, ClientUp 1), (1, ClientFrame 1 demo_put), (2, Datagram [1, 2, 3])]"]
  show ?thesis by (simp add: client_frames_def datagrams_def numeral_2_eq_2)
qed

end
