(* ===== verification/Settlement.thy ===== *)
theory Settlement
  imports Threads "HOL-Library.Multiset"
begin

text \<open>
  The accounts of a connection of the demo server: what a client has sent, what it has been
  written and what it is still owed. Every frame other than SEND is answered at once, a SEND is
  answered exactly once or is on record, and a late enough tick leaves nothing on record.
\<close>

section \<open>Accounts\<close>

definition is_send :: "frame \<Rightarrow> bool" where
  "is_send fr \<longleftrightarrow> to_ascii_uppercase (command fr) = str ''SEND''"

abbreviation receipt_of :: "frame \<Rightarrow> ustr option" where
  "receipt_of fr \<equiv> frame_header fr (str ''receipt'')"

text \<open>What is due to a frame that is no SEND.\<close>

definition prompt :: "frame \<Rightarrow> bytes list" where
  "prompt fr =
     (let cmd = to_ascii_uppercase (command fr) in
      if cmd = str ''CONNECT'' \<or> cmd = str ''STOMP'' then
        [frame_encode (str ''CONNECTED'') [(str ''version'', str ''1.2''), (str ''server'', str ''six-seven-server/0.1'')] []]
      else if cmd = str ''SUBSCRIBE'' \<or> cmd = str ''UNSUBSCRIBE'' \<or> cmd = str ''DISCONNECT'' then
        (case receipt_of fr of None \<Rightarrow> [] | Some r \<Rightarrow> [receipt_frame r])
      else [frame_encode (str ''ERROR'') [(str ''message'', str ''unsupported command'')]
        (str ''six-seven-server does not implement '' @ cmd @ [10])])"

text \<open>A frame with the reply it has had: \<open>None\<close> while it is owed one.\<close>

type_synonym entry = "frame \<times> reply option"

fun entry_bytes :: "entry \<Rightarrow> bytes list" where
  "entry_bytes (fr, r) =
     (if is_send fr then (case r of None \<Rightarrow> [] | Some x \<Rightarrow> [message_bytes (receipt_of fr) x]) else prompt fr)"

definition is_open :: "entry \<Rightarrow> bool" where
  "is_open z \<longleftrightarrow> is_send (fst z) \<and> snd z = None"

definition open_receipts :: "entry list \<Rightarrow> ustr option list" where
  "open_receipts zs = map (\<lambda>z. receipt_of (fst z)) (filter is_open zs)"

definition written_to :: "u64 \<Rightarrow> node \<Rightarrow> bytes list" where
  "written_to c n = map (fst \<circ> snd) (filter (\<lambda>x. fst x = c) (n_written n))"

definition owed_to :: "u64 \<Rightarrow> node \<Rightarrow> ustr option list" where
  "owed_to c n = map (p_receipt \<circ> snd) (filter (\<lambda>x. p_conn (snd x) = c) (n_pending n))"

definition settled :: "u64 \<Rightarrow> entry list \<Rightarrow> node \<Rightarrow> bool" where
  "settled c zs n \<longleftrightarrow> mset (written_to c n) = mset (concat (map entry_bytes zs)) \<and>
     mset (owed_to c n) = mset (open_receipts zs)"

fun frame_from :: "u64 \<Rightarrow> event \<Rightarrow> frame option" where
  "frame_from c (ClientFrame d fr) = (if c = d then Some fr else None)"
| "frame_from c _ = None"

definition frames_from :: "u64 \<Rightarrow> event list \<Rightarrow> frame list" where
  "frames_from c evs = List.map_filter (frame_from c) evs"

lemma frames_from_events:
  assumes "filter (of_conn c) evs = ClientUp c # map (ClientFrame c) fs"
  shows "frames_from c evs = fs"
proof -
  have "frames_from c (filter (of_conn c) evs) = frames_from c evs" for evs
    by (induction evs) (auto simp: frames_from_def elim!: frame_from.elims split: option.split if_splits)
  moreover have "frames_from c (ClientUp c # map (ClientFrame c) fs) = fs"
    by (induction fs) (simp_all add: frames_from_def)
  ultimately show ?thesis using assms by metis
qed

lemma accounts_cong:
  "n_written n' = n_written n \<Longrightarrow> written_to c n' = written_to c n"
  "n_pending n' = n_pending n \<Longrightarrow> owed_to c n' = owed_to c n"
  by (simp_all add: written_to_def owed_to_def)

section \<open>Paying what is owed\<close>

text \<open>From \<open>n\<close> to \<open>n'\<close> replies were written to \<open>c\<close> for requests on record, which are now off it.\<close>

definition pays :: "u64 \<Rightarrow> node \<Rightarrow> node \<Rightarrow> bool" where
  "pays c n n' \<longleftrightarrow> (c \<in> n_clients n' \<longrightarrow> c \<in> n_clients n) \<and> (c \<notin> n_clients n \<longrightarrow> written_to c n' = written_to c n) \<and>
     (c \<in> n_clients n' \<longrightarrow> (\<exists>as. written_to c n' = written_to c n @ map (\<lambda>(rc, r). message_bytes rc r) as \<and>
        mset (owed_to c n) = mset (owed_to c n') + mset (map fst as)))"

lemma pays_quiet:
  assumes "n_clients n' = n_clients n" "n_written n' = n_written n" "n_pending n' = n_pending n"
  shows "pays c n n'"
proof -
  have "written_to c n' = written_to c n" "owed_to c n' = owed_to c n" using assms by (auto intro: accounts_cong)
  then show ?thesis using assms(1) by (auto simp: pays_def intro: exI [of _ "[]"])
qed

lemma pays_trans:
  assumes "pays c n n1" "pays c n1 n2"
  shows "pays c n n2"
proof -
  have "\<exists>as. written_to c n2 = written_to c n @ map (\<lambda>(rc, r). message_bytes rc r) as \<and>
      mset (owed_to c n) = mset (owed_to c n2) + mset (map fst as)" if c: "c \<in> n_clients n2"
  proof -
    have "c \<in> n_clients n1" using assms(2) c by (auto simp: pays_def)
    then obtain as bs where
      "written_to c n1 = written_to c n @ map (\<lambda>(rc, r). message_bytes rc r) as" "mset (owed_to c n) = mset (owed_to c n1) + mset (map fst as)"
      "written_to c n2 = written_to c n1 @ map (\<lambda>(rc, r). message_bytes rc r) bs" "mset (owed_to c n1) = mset (owed_to c n2) + mset (map fst bs)"
      using assms c unfolding pays_def by blast
    then show ?thesis by (intro exI [of _ "as @ bs"]) simp
  qed
  then show ?thesis using assms by (auto simp: pays_def)
qed

lemma written_to_write:
  "written_to c (write_frame H d bs n) = written_to c n @ (if c = d \<and> d \<in> n_clients n then [bs] else [])"
  by (auto simp: write_frame_def written_to_def Let_def)

lemma written_to_reply:
  "written_to c (reply_to_client H d rc r n) = written_to c n @ (if c = d \<and> d \<in> n_clients n then [message_bytes rc r] else [])"
  by (simp add: reply_to_client_def written_to_write)

lemma hm_remove_split:
  assumes "distinct (map fst m)" "map_of m k = Some v"
  shows "\<exists>xs ys. m = xs @ (k, v) # ys \<and> hm_remove k m = xs @ ys"
proof -
  obtain xs ys where m: "m = xs @ (k, v) # ys" using split_list [OF map_of_SomeD [OF assms(2)]] by blast
  then have "hm_remove k xs = xs" "hm_remove k ys = ys" using assms(1) by (force intro!: hm_remove_fresh)+
  then have "hm_remove k m = xs @ ys" by (simp add: m hm_remove_def)
  with m show ?thesis by blast
qed

text \<open>Taking a request off the record and answering it.\<close>

lemma pays_reply:
  assumes "distinct (map fst (n_pending n))" "map_of (n_pending n) corr = Some p"
  shows "pays c n (reply_to_client H (p_conn p) (p_receipt p) r (n\<lparr>n_pending := hm_remove corr (n_pending n)\<rparr>))"
    (is "pays c n (reply_to_client _ _ _ _ ?m)")
proof -
  obtain xs ys where s: "n_pending n = xs @ (corr, p) # ys" "n_pending ?m = xs @ ys"
    using hm_remove_split [OF assms] by auto
  then have owed: "mset (owed_to c n) = mset (owed_to c ?m) + (if p_conn p = c then {#p_receipt p#} else {#})"
    by (simp add: owed_to_def)
  have "written_to c ?m = written_to c n" "owed_to c (reply_to_client H (p_conn p) (p_receipt p) r ?m) = owed_to c ?m"
    by (auto intro: accounts_cong)
  then show ?thesis unfolding pays_def written_to_reply using owed reply_clients [of H "p_conn p" "p_receipt p" r ?m]
    by (cases "p_conn p = c") (auto intro: exI [of _ "[]"] exI [of _ "[(p_receipt p, r)]"])
qed

lemma pays_expire:
  assumes "distinct (map fst (n_pending n))"
  shows "pays c n (expire_loop H cfg cs n)"
  using assms
proof (induction cs arbitrary: n)
  case (Cons k cs)
  show ?case
  proof (cases "map_of (n_pending n) k")
    case (Some p)
    have "distinct (map fst (hm_remove k (n_pending n)))" using Cons.prems by (simp add: hm_remove_def distinct_map_filter)
    then show ?thesis using pays_trans [OF pays_reply [OF Cons.prems Some] Cons.IH] Some by simp
  qed (use Cons in simp)
qed (simp add: pays_quiet)

lemma pays_message:
  assumes "distinct (map fst (n_pending n))" "handle_message H L cfg store e m n = Some n'"
  shows "pays c n n'"
proof (cases m)
  case (Request corr x)
  then show ?thesis using assms(2)
    by (auto simp: handle_message_def split: prod.splits Option.bind_splits sum.splits dest!: send_to_peer_keeps intro!: pays_quiet)
next
  case (Response corr r)
  then show ?thesis using assms(2) pays_reply [OF assms(1)]
    by (auto simp: handle_message_def pays_quiet split: option.splits)
qed

lemma pays_datagram:
  assumes "distinct (map fst (n_pending n))" "handle_datagram H L cfg store e bs n = Some n'"
  shows "pays c n n'"
proof -
  obtain r w st where d: "dek_open L store bs (n_world n) (n_stats n) = Some (r, w, st)"
    using assms(2) by (auto simp: handle_datagram_def split: Option.bind_splits)
  let ?n1 = "n\<lparr>n_world := w, n_stats := st\<rparr>"
  show ?thesis
  proof (cases "\<exists>m. handle_message H L cfg store e m ?n1 = Some n'")
    case True
    then obtain m where "handle_message H L cfg store e m ?n1 = Some n'" by blast
    from pays_message [OF _ this] assms(1) have "pays c ?n1 n'" by simp
    then show ?thesis by (rule pays_trans [rotated]) (simp add: pays_quiet)
  next
    case False
    then show ?thesis using assms(2) d
      by (auto simp: handle_datagram_def Let_def split: sum.splits option.splits if_splits prod.splits intro!: pays_quiet)
  qed
qed

text \<open>What is paid closes entries that were open.\<close>

lemma pay_one:
  assumes "mset (open_receipts zs) = add_mset rc R"
  shows "\<exists>zs'. map fst zs' = map fst zs \<and> mset (concat (map entry_bytes zs')) = add_mset (message_bytes rc r) (mset (concat (map entry_bytes zs))) \<and>
    mset (open_receipts zs') = R"
proof -
  have "rc \<in> set (open_receipts zs)" unfolding set_mset_mset [symmetric] assms by simp
  then obtain z where z: "z \<in> set zs" "is_open z" "receipt_of (fst z) = rc" by (auto simp: open_receipts_def)
  then obtain fr where fr: "z = (fr, None)" "is_send fr" unfolding is_open_def by (metis prod.collapse)
  obtain us vs where zs: "zs = us @ z # vs" using split_list [OF z(1)] by blast
  let ?zs' = "us @ (fr, Some r) # vs"
  have "mset (open_receipts ?zs') = R" using assms z(2,3) fr by (simp add: zs open_receipts_def is_open_def)
  moreover have "mset (concat (map entry_bytes ?zs')) = add_mset (message_bytes rc r) (mset (concat (map entry_bytes zs)))"
    using z(3) fr by (simp add: zs)
  ultimately show ?thesis using fr(1) by (intro exI [of _ ?zs']) (simp add: zs)
qed

lemma pay_all:
  assumes "mset (open_receipts zs) = R + mset (map fst as)"
  shows "\<exists>zs'. map fst zs' = map fst zs \<and>
    mset (concat (map entry_bytes zs')) = mset (concat (map entry_bytes zs)) + mset (map (\<lambda>(rc, r). message_bytes rc r) as) \<and>
    mset (open_receipts zs') = R"
  using assms
proof (induction as arbitrary: zs)
  case (Cons a as)
  obtain rc r where a: "a = (rc, r)" by fastforce
  have "mset (open_receipts zs) = add_mset rc (R + mset (map fst as))" using Cons.prems by (simp add: a)
  from pay_one [OF this, of r] obtain zs1 where z1: "map fst zs1 = map fst zs"
    "mset (concat (map entry_bytes zs1)) = add_mset (message_bytes rc r) (mset (concat (map entry_bytes zs)))"
    "mset (open_receipts zs1) = R + mset (map fst as)" by blast
  from Cons.IH [OF z1(3)] z1(1,2) show ?case by (auto simp: a)
qed auto

lemma settled_pays:
  assumes "settled c zs n" "pays c n n'" "c \<in> n_clients n'"
  shows "\<exists>zs'. map fst zs' = map fst zs \<and> settled c zs' n'"
proof -
  obtain as where as: "written_to c n' = written_to c n @ map (\<lambda>(rc, r). message_bytes rc r) as"
    "mset (owed_to c n) = mset (owed_to c n') + mset (map fst as)" using assms(2,3) by (auto simp: pays_def)
  have "mset (open_receipts zs) = mset (owed_to c n') + mset (map fst as)"
    using assms(1) as(2) by (simp add: settled_def)
  from pay_all [OF this] as(1) assms(1) show ?thesis by (force simp: settled_def)
qed

section \<open>The frames of a connection\<close>

text \<open>A frame is answered or goes on record; the accounts of the other connections stay as they are.\<close>

definition entered :: "u64 \<Rightarrow> u64 \<Rightarrow> frame \<Rightarrow> node \<Rightarrow> node \<Rightarrow> bool" where
  "entered c conn fr n n' \<longleftrightarrow>
     (c \<noteq> conn \<or> c \<notin> n_clients n \<longrightarrow> written_to c n' = written_to c n) \<and> (c \<noteq> conn \<longrightarrow> owed_to c n' = owed_to c n) \<and>
     (c = conn \<and> c \<in> n_clients n \<longrightarrow> (\<exists>r. written_to c n' = written_to c n @ entry_bytes (fr, r) \<and>
        mset (owed_to c n') = mset (owed_to c n) + (if is_open (fr, r) then {#receipt_of fr#} else {#})))"

lemma entered_reply:
  assumes "is_send fr" "n_written m = n_written n" "n_pending m = n_pending n" "n_clients m = n_clients n"
  shows "entered c conn fr n (reply_to_client H conn (receipt_of fr) r m)"
proof -
  have "written_to c m = written_to c n" "owed_to c (reply_to_client H conn (receipt_of fr) r m) = owed_to c n"
    using assms by (auto intro: accounts_cong)
  then show ?thesis using assms(1,4)
    by (auto simp: entered_def written_to_reply is_open_def intro!: exI [of _ "Some r"])
qed

lemma entered_forward:
  assumes "is_send fr" "pending_ok n" "forward H L cfg store e now conn (receipt_of fr) x n = Some n'"
  shows "entered c conn fr n n'"
proof -
  let ?corr = "n_next_corr n + 1" and ?p = "\<lparr>p_conn = conn, p_receipt = receipt_of fr, p_deadline = now + FORWARD_TIMEOUT\<rparr>"
  have ne: "n_next_corr n \<noteq> 0xFFFFFFFFFFFFFFFF" using assms(3) by (auto simp: forward_def split: if_splits)
  obtain r n2 where s: "send_to_peer H L cfg store e (peer_encode (Request ?corr x)) (n\<lparr>n_next_corr := ?corr\<rparr>) = Some (r, n2)"
    and n': "n' = (case r of Inl m \<Rightarrow> reply_to_client H conn (receipt_of fr) (ReplyErr m) n2 | Inr _ \<Rightarrow>
      n2\<lparr>n_pending := hm_insert ?corr ?p (n_pending n2)\<rparr>)"
    using assms(3) by (auto simp: forward_def Let_def split: if_splits Option.bind_splits sum.splits)
  have n2: "n_written n2 = n_written n" "n_pending n2 = n_pending n" "n_clients n2 = n_clients n" using send_to_peer_keeps [OF s] by auto
  show ?thesis
  proof (cases r)
    case (Inl m)
    then show ?thesis using n' entered_reply [OF assms(1) n2] by simp
  next
    case (Inr u)
    have "?corr \<notin> fst ` set (n_pending n)" using assms(2) corr_fresh [OF ne] by (force simp: pending_ok_def)
    then have "n_pending n' = (?corr, ?p) # n_pending n" using n' Inr n2(2) by (simp add: hm_insert_def hm_remove_fresh)
    moreover have "written_to c n' = written_to c n" using n' Inr n2(1) by (auto intro: accounts_cong)
    ultimately show ?thesis using assms(1) by (auto simp: entered_def owed_to_def is_open_def intro!: exI [of _ None])
  qed
qed

lemma entered_frame:
  assumes "pending_ok n" "handle_client_frame H L cfg store e now conn fr n = Some n'"
  shows "entered c conn fr n n'"
proof (cases "is_send fr")
  case True
  then show ?thesis using assms(2) entered_forward [OF True assms(1)]
    by (auto simp: is_send_def [symmetric] send_command handle_send_def intro!: entered_reply split: if_splits sum.splits prod.splits)
next
  case False
  have d: "written_to c (m\<lparr>n_clients := cs\<rparr>) = written_to c m" for c m cs by (simp add: written_to_def)
  have "n_pending n' = n_pending n" using assms(2) False
    by (auto simp: handle_client_frame_def is_send_def Let_def split: if_splits option.splits)
  then have "owed_to c n' = owed_to c n" by (rule accounts_cong)
  moreover have "written_to c n' = written_to c n @ (if c = conn \<and> conn \<in> n_clients n then prompt fr else [])"
  proof -
    let ?cmd = "to_ascii_uppercase (command fr)"
    consider "?cmd = str ''CONNECT'' \<or> ?cmd = str ''STOMP''"
      | "\<not> (?cmd = str ''CONNECT'' \<or> ?cmd = str ''STOMP'')" "?cmd = str ''SUBSCRIBE'' \<or> ?cmd = str ''UNSUBSCRIBE''"
      | "\<not> (?cmd = str ''CONNECT'' \<or> ?cmd = str ''STOMP'')" "\<not> (?cmd = str ''SUBSCRIBE'' \<or> ?cmd = str ''UNSUBSCRIBE'')" "?cmd = str ''DISCONNECT''"
      | "\<not> (?cmd = str ''CONNECT'' \<or> ?cmd = str ''STOMP'')"
        "\<not> (?cmd = str ''SUBSCRIBE'' \<or> ?cmd = str ''UNSUBSCRIBE'' \<or> ?cmd = str ''DISCONNECT'')" by blast
    then show ?thesis using assms(2) False
      by cases (auto simp add: handle_client_frame_def prompt_def is_send_def Let_def written_to_write d split: option.splits)
  qed
  ultimately show ?thesis using False by (auto simp: entered_def is_open_def)
qed

section \<open>Runs of the core thread\<close>

lemma pays_same:
  assumes "c \<in> n_clients n' \<longrightarrow> c \<in> n_clients n" "written_to c n' = written_to c n" "owed_to c n' = owed_to c n"
  shows "pays c n n'"
  using assms by (auto simp: pays_def intro: exI [of _ "[]"])

lemma pays_step:
  assumes "pending_ok n" "node_step H L cfg store e (t, ev) n = Some n'" "\<not> of_conn c ev"
  shows "pays c n n'"
proof -
  have d: "distinct (map fst (n_pending n))" using assms(1) by (simp add: pending_ok_def)
  show ?thesis
  proof (cases ev)
    case (ClientFrame conn fr)
    then have "entered c conn fr n n'" "c \<noteq> conn" using entered_frame [OF assms(1)] assms(2,3) by auto
    moreover have "n_clients n' \<subseteq> n_clients n" using client_frame_conns assms(2) ClientFrame by auto
    ultimately show ?thesis by (intro pays_same) (auto simp: entered_def)
  next
    case (ClientDown conn)
    then have "c \<noteq> conn" using assms(3) by auto
    then have "owed_to c (n\<lparr>n_pending := filter (\<lambda>(_, p). p_conn p \<noteq> conn) (n_pending n)\<rparr>) = owed_to c n"
      unfolding owed_to_def by (auto intro!: arg_cong [where f = "map _"] filter_cong)
    then show ?thesis using assms(2,3) ClientDown by (intro pays_same) (auto simp: written_to_def owed_to_def)
  next
    case (ClientUp conn)
    then show ?thesis using assms(2,3) by (intro pays_same) (auto simp: written_to_def owed_to_def)
  qed (use assms(2) pays_datagram [OF d] pays_expire [OF d] in \<open>auto simp: handle_tick_def\<close>)
qed

text \<open>A node that has come up, after any events.\<close>

lemma core_loop_inv:
  assumes "sodium_contract L" "node_inv cfg store n0" "core_loop H L cfg store e xs n0 = Some n"
  shows "node_inv cfg store n"
  using core.reachable_inv [OF core_loop_reachable [OF assms(3) reachable_start]] assms(1,2) by simp

abbreviation conn_events :: "u64 \<Rightarrow> (nat \<times> event) list \<Rightarrow> event list" where
  "conn_events c xs \<equiv> filter (of_conn c) (map snd xs)"

definition node_up :: "config \<Rightarrow> keystore \<Rightarrow> node \<Rightarrow> bool" where
  "node_up cfg store n \<longleftrightarrow> node_inv cfg store n \<and> n_clients n = {} \<and> n_pending n = [] \<and> n_written n = []"

lemma snoc_run:
  assumes "sodium_contract L" "node_up cfg store n0" "core_loop H L cfg store e (xs @ [(t, ev)]) n0 = Some n"
  obtains n1 where "core_loop H L cfg store e xs n0 = Some n1" "node_step H L cfg store e (t, ev) n1 = Some n" "pending_ok n1"
proof -
  obtain n1 where n1: "core_loop H L cfg store e xs n0 = Some n1" "node_step H L cfg store e (t, ev) n1 = Some n"
    using assms(3) by (auto simp: core_loop_append split: Option.bind_splits)
  have "node_inv cfg store n0" using assms(2) by (simp add: node_up_def)
  from core_loop_inv [OF assms(1) this n1(1)] n1 show ?thesis by (intro that) (auto simp: node_inv_def)
qed

text \<open>Before its first event a connection has no account.\<close>

lemma no_account:
  assumes "sodium_contract L" "node_up cfg store n0" "core_loop H L cfg store e xs n0 = Some n" "conn_events c xs = []"
  shows "c \<notin> n_clients n \<and> written_to c n = [] \<and> owed_to c n = []"
  using assms(3,4)
proof (induction xs arbitrary: n rule: rev_induct)
  case Nil
  then show ?case using assms(2) by (auto simp: node_up_def written_to_def owed_to_def)
next
  case (snoc x xs)
  obtain t ev where x: "x = (t, ev)" by fastforce
  obtain n1 where n1: "core_loop H L cfg store e xs n0 = Some n1" "node_step H L cfg store e (t, ev) n1 = Some n" "pending_ok n1"
    using snoc_run [OF assms(1,2)] snoc.prems(1) x by blast
  have p: "pays c n1 n" using pays_step [OF n1(3,2)] snoc.prems(2) by (auto simp: x split: if_splits)
  have w: "c \<notin> n_clients n1" "written_to c n1 = []" using snoc.IH [OF n1(1)] snoc.prems(2) by (auto simp: x split: if_splits)
  have "c \<notin> n_clients n \<union> waiting n"
    using core_loop_conns [OF snoc.prems(1), of c] snoc.prems(2) assms(2) by (auto simp: node_up_def)
  then show ?case using p w by (auto simp: pays_def owed_to_def filter_empty_conv)
qed

text \<open>A connection that is still open balances.\<close>

lemma run_settled:
  assumes "sodium_contract L" "node_up cfg store n0" "core_loop H L cfg store e xs n0 = Some n"
    and "conn_events c xs = ClientUp c # map (ClientFrame c) fs" "c \<in> n_clients n"
  shows "\<exists>zs. map fst zs = fs \<and> settled c zs n"
  using assms(3-5)
proof (induction xs arbitrary: n fs rule: rev_induct)
  case (snoc x xs)
  obtain t ev where x: "x = (t, ev)" by fastforce
  obtain n1 where n1: "core_loop H L cfg store e xs n0 = Some n1" "node_step H L cfg store e (t, ev) n1 = Some n" "pending_ok n1"
    using snoc_run [OF assms(1,2)] snoc.prems(1) x by blast
  show ?case
  proof (cases "of_conn c ev")
    case False
    then have "pays c n1 n" using pays_step [OF n1(3,2)] by blast
    moreover have "c \<in> n_clients n1" using calculation snoc.prems(3) by (auto simp: pays_def)
    ultimately show ?thesis using snoc.IH [OF n1(1)] snoc.prems(2,3) False settled_pays by (fastforce simp: x)
  next
    case True
    then have evs: "conn_events c xs @ [ev] = ClientUp c # map (ClientFrame c) fs" using snoc.prems(2) by (simp add: x)
    show ?thesis
    proof (cases fs rule: rev_cases)
      case Nil
      then have e: "ev = ClientUp c" "conn_events c xs = []" using evs by auto
      from no_account [OF assms(1,2) n1(1) e(2)] have "written_to c n = []" "owed_to c n = []"
        using n1(2) e(1) by (auto simp: written_to_def owed_to_def)
      then show ?thesis using Nil by (auto simp: settled_def open_receipts_def)
    next
      case (snoc fs' fr)
      then have e: "ev = ClientFrame c fr" "conn_events c xs = ClientUp c # map (ClientFrame c) fs'"
        using evs unfolding snoc map_append append_Cons [symmetric] by auto
      have up: "c \<in> n_clients n1" using node_step_conns [OF n1(2)] snoc.prems(3) e(1) by auto
      obtain zs where zs: "map fst zs = fs'" "settled c zs n1" using snoc.IH [OF n1(1) e(2) up] by blast
      obtain r where "written_to c n = written_to c n1 @ entry_bytes (fr, r)"
        "mset (owed_to c n) = mset (owed_to c n1) + (if is_open (fr, r) then {#receipt_of fr#} else {#})"
        using entered_frame [OF n1(3), of H L cfg store e t c fr n c] n1(2) e(1) up by (auto simp: entered_def)
      with zs snoc show ?thesis by (intro exI [of _ "zs @ [(fr, r)]"]) (auto simp: settled_def open_receipts_def)
    qed
  qed
qed simp

section \<open>Deadlines\<close>

lemma forward_deadline:
  assumes "forward H L cfg store e now conn rc x n = Some n'"
  shows "\<forall>(c, p) \<in> set (n_pending n'). (c, p) \<in> set (n_pending n) \<or> p_deadline p = now + FORWARD_TIMEOUT"
  using assms by (auto simp: forward_def Let_def hm_insert_def hm_remove_def split: if_splits Option.bind_splits sum.splits dest!: send_to_peer_keeps)

lemma step_deadline:
  assumes "node_step H L cfg store e (t, ev) n = Some n'" "(c, p) \<in> set (n_pending n')"
  shows "(c, p) \<in> set (n_pending n) \<or> p_deadline p = t + FORWARD_TIMEOUT"
proof (cases ev)
  case (ClientFrame conn fr)
  show ?thesis
  proof (cases "\<exists>rc x. forward H L cfg store e t conn rc x n = Some n'")
    case True
    then show ?thesis using forward_deadline assms(2) by blast
  next
    case False
    then show ?thesis using assms ClientFrame
      by (auto simp: handle_client_frame_def handle_send_def Let_def split: if_splits option.splits sum.splits prod.splits)
  qed
next
  case (Datagram bs)
  have m: "set (n_pending n2) \<subseteq> set (n_pending n1)" if "handle_message H L cfg store e m n1 = Some n2" for m n1 n2
    using that by (cases m) (auto simp: handle_message_def hm_remove_def split: prod.splits Option.bind_splits sum.splits option.splits
        dest!: send_to_peer_keeps)
  show ?thesis using assms Datagram m
    by (fastforce simp: handle_datagram_def Let_def split: Option.bind_splits sum.splits option.splits if_splits prod.splits)
qed (use assms in \<open>auto simp: handle_tick_def expire_pending\<close>)

lemma run_deadline:
  assumes "core_loop H L cfg store e xs n0 = Some n" "n_pending n0 = []" "(c, p) \<in> set (n_pending n)"
  shows "\<exists>t ev. (t, ev) \<in> set xs \<and> p_deadline p = t + FORWARD_TIMEOUT"
  using assms(1,3)
proof (induction xs arbitrary: n rule: rev_induct)
  case (snoc x xs)
  obtain t ev n1 where n1: "x = (t, ev)" "core_loop H L cfg store e xs n0 = Some n1" "node_step H L cfg store e (t, ev) n1 = Some n"
    using snoc.prems(1) by (cases x) (auto simp: core_loop_append split: Option.bind_splits)
  from step_deadline [OF n1(3) snoc.prems(2)] snoc.IH [OF n1(2)] show ?case by (auto simp: n1(1))
qed (use assms(2) in simp)

text \<open>A tick that comes late enough leaves nothing on record.\<close>

lemma late_tick:
  assumes "sodium_contract L" "node_up cfg store n0" "core_loop H L cfg store e (xs @ [(t, Tick)]) n0 = Some n"
    and "\<forall>ks. set (h_order H ks) = set ks" "\<forall>(t', ev) \<in> set xs. t' + FORWARD_TIMEOUT \<le> t"
  shows "n_pending n = []"
proof -
  obtain n1 where n1: "core_loop H L cfg store e xs n0 = Some n1" "n = handle_tick H cfg t n1" "pending_ok n1"
    using snoc_run [OF assms(1-3)] by (metis node_step.simps(5) option.inject)
  have "p_deadline p \<le> t" if "(c, p) \<in> set (n_pending n1)" for c p
    using run_deadline [OF n1(1) _ that] assms(2,5) by (fastforce simp: node_up_def)
  then show ?thesis unfolding n1(2) tick_pending [OF n1(3) assms(4)] by (fastforce simp: filter_empty_conv)
qed

text \<open>What was taken from a connection that has not ended.\<close>

lemma open_shape:
  assumes "prefix xs (events_of cs c)" "xs \<noteq> []" "last xs \<noteq> ClientDown c"
  shows "\<exists>fs. xs = ClientUp c # map (ClientFrame c) fs"
proof -
  obtain fs where e: "events_of cs c = ClientUp c # map (ClientFrame c) fs @ [ClientDown c]"
    using events_of_shape [of cs c] assms(1,2) by auto
  then have "prefix xs (ClientUp c # map (ClientFrame c) fs)"
    using assms(1,3) unfolding e by (metis append_Cons last_snoc prefix_snoc)
  then obtain ys where "prefix ys (map (ClientFrame c) fs)" "xs = ClientUp c # ys" using assms(2) by (cases xs) auto
  then show ?thesis by (auto simp: prefix_def map_eq_append_conv)
qed

lemma process_conn:
  assumes "reachable (process_turn H L cfg store e) (process_start n0 recvs accepts) p" "pr_core p = Some n"
    and "n_clients n0 = {}" "n_pending n0 = []" "c \<in> n_clients n"
  shows "core_loop H L cfg store e (pr_taken p) n0 = Some n \<and> (\<exists>fs. conn_events c (pr_taken p) = ClientUp c # map (ClientFrame c) fs)"
proof -
  have inv: "process_inv H L cfg store e n0 recvs accepts p"
    using threads.reachable_inv [OF assms(1)] process_inv_start by blast
  then obtain cs where "filter (of_conn c) (posted p) @ reader_left p c = events_of cs c"
    unfolding process_inv_def accepted_so_far_def by blast
  then have "prefix (conn_events c (pr_taken p)) (events_of cs c)" by (auto simp: posted_def intro: prefixI [OF sym])
  moreover have run: "core_loop H L cfg store e (pr_taken p) n0 = Some n" using inv assms(2) by (simp add: process_inv_def)
  ultimately show ?thesis using open_shape core_loop_conns [OF run assms(3,4)] assms(5) by blast
qed

section \<open>A request that times out\<close>

definition demo_get_stream :: reader where
  "demo_get_stream = \<lparr>buffered = [], source = [ReadData (frame_bytes demo_get)]\<rparr>"

lemma demo_get_read: "\<exists>r'. read_frame demo_get_stream = (Ok (Some demo_get), r')"
proof -
  have "frame_ok demo_get" "str_len (text_of demo_get) \<le> MAX_FRAME_BYTES" "steady demo_get_stream"
    "stream_bytes demo_get_stream = frame_bytes demo_get"
    by (simp_all add: demo_get_stream_def demo_get_def steady_def stream_bytes_def str_simps frame_ok_def frame_bytes_def frame_encode_def
        is_scalar_def str_len_def as_bytes_def utf8_char_def MAX_FRAME_BYTES_def frame_text_def)
  then show ?thesis
    using read_frame_complete [where r = demo_get_stream and f = demo_get and rest = "[]"] by (auto simp: frame_bytes_def)
qed

definition demo_get_schedule :: "turn list" where
  "demo_get_schedule = [AcceptTurn, ReaderTurn 1, CoreTurn 0, CoreTurn 0, TickerTurn, CoreTurn 5000]"

lemma demo_get_process:
  "\<exists>p n. run_turns demo_host demo_sodium (demo_config 1 2) (demo_store 1 2 (Epoch 0)) (Epoch 0) demo_get_schedule
      (process_start (node_start demo_world stats_init (banner (demo_config 1 2))) [] [Accepted demo_get_stream]) = Some p \<and>
    pr_core p = Some n \<and> 1 \<in> n_clients n \<and> pr_taken p = [(0, ClientUp 1), (0, ClientFrame 1 demo_get)] @ [(5000, Tick)] \<and>
    n_written n = [(1, message_bytes (Some (str ''r'')) (timeout_reply (demo_config 1 2)), True)]"
proof -
  let ?n0 = "node_start demo_world stats_init (banner (demo_config 1 2))"
  let ?n = "?n0\<lparr>n_clients := {1}\<rparr>"
  obtain r' where r: "read_frame demo_get_stream = (Ok (Some demo_get), r')" using demo_get_read by blast
  have k: "length (c_key (demo_config 1 2)) = KEYBYTES" by (simp add: demo_config_def demo_key_length KEYBYTES_def)
  have "linked (demo_config 1 2) (demo_store 1 2 (Epoch 0)) (Epoch 0) (c_key (demo_config 1 2)) ?n"
    using run_setup_linked [OF demo_contract fresh_fields(1) k demo_started] by (simp add: linked_def)
  moreover have h: "h_send demo_host k = None" for k by (simp add: demo_host_def)
  moreover have "pending_ok ?n" "n_next_corr ?n = 0" "n_pending ?n = []" by (simp_all add: node_start_def pending_ok_def)
  ultimately obtain w y where f: "forward demo_host demo_sodium (demo_config 1 2) (demo_store 1 2 (Epoch 0)) (Epoch 0) 0 1 (Some (str ''r'')) (Get 2) ?n =
      Some (?n\<lparr>n_next_corr := 1, n_world := w, n_sent := y,
        n_pending := [(1, \<lparr>p_conn = 1, p_receipt = Some (str ''r''), p_deadline = 0 + FORWARD_TIMEOUT\<rparr>)]\<rparr>)"
    using forward_sends [OF demo_contract, of "demo_config 1 2" "demo_store 1 2 (Epoch 0)" "Epoch 0" "c_key (demo_config 1 2)" ?n "Get 2" demo_host 0 1 "Some (str ''r'')"]
      demo_sendable(1) h by fastforce
  have "node_step demo_host demo_sodium (demo_config 1 2) (demo_store 1 2 (Epoch 0)) (Epoch 0) (0, ClientFrame 1 demo_get) ?n =
      Some (?n\<lparr>n_next_corr := 1, n_world := w, n_sent := y,
        n_pending := [(1, \<lparr>p_conn = 1, p_receipt = Some (str ''r''), p_deadline = 0 + FORWARD_TIMEOUT\<rparr>)]\<rparr>)"
    using f by (simp add: send_command handle_send_def demo_get_parsed demo_config_def demo_owner)
  then show ?thesis
    by (simp add: demo_get_schedule_def process_start_def process_turn_def accept_turn_def reader_turn_def ticker_turn_def core_turn_def
        post_def r hm_insert_def hm_remove_def handle_tick_def FORWARD_TIMEOUT_def demo_host_def reply_to_client_def write_frame_def node_start_def)
qed

section \<open>Properties\<close>

text \<open>C9. Every frame is answered once. Under every schedule of the threads, the accounts of a connection that
  is still open balance: each frame taken from it has its own entry; a SEND has been written one
  MESSAGE under its receipt or is on record under that receipt, any other frame has been written
  what is due to it, and nothing else was written to the connection. When the last event is
  a tick at least five seconds after all others, every SEND has been answered.\<close>

theorem every_frame_answered_once:
  assumes "sodium_contract L" "heap w = []" "length (c_key cfg) = KEYBYTES" "run_setup H L cfg st w = (Ok (store, e, n0), w')"
    and "reachable (process_turn H L cfg store e) (process_start n0 recvs accepts) p" "pr_core p = Some n" "c \<in> n_clients n"
  shows "\<exists>zs. map fst zs = frames_from c (map snd (pr_taken p)) \<and>
    mset (written_to c n) = mset (concat (map entry_bytes zs)) \<and> mset (owed_to c n) = mset (open_receipts zs) \<and>
    (\<forall>xs t. pr_taken p = xs @ [(t, Tick)] \<and> (\<forall>(t', ev) \<in> set xs. t' + FORWARD_TIMEOUT \<le> t) \<and> (\<forall>ks. set (h_order H ks) = set ks)
      \<longrightarrow> (\<forall>(fr, r) \<in> set zs. is_send fr \<longrightarrow> r \<noteq> None))"
proof -
  have n0: "n_clients n0 = {}" "n_pending n0 = []" "n_written n0 = []"
    using run_setup_ok [OF assms(4)] by (auto simp: node_start_def)
  have up: "node_up cfg store n0" using run_setup_linked [OF assms(1-4)] n0 by (simp add: node_up_def)
  obtain fs where fs: "core_loop H L cfg store e (pr_taken p) n0 = Some n" "conn_events c (pr_taken p) = ClientUp c # map (ClientFrame c) fs"
    using process_conn [OF assms(5,6) n0(1,2) assms(7)] by blast
  obtain zs where zs: "map fst zs = fs" "settled c zs n" using run_settled [OF assms(1) up fs assms(7)] by blast
  have "r \<noteq> None" if "pr_taken p = xs @ [(t, Tick)]" "\<forall>(t', ev) \<in> set xs. t' + FORWARD_TIMEOUT \<le> t" "\<forall>ks. set (h_order H ks) = set ks"
    "(fr, r) \<in> set zs" "is_send fr" for xs t fr r
  proof -
    have "n_pending n = []" using late_tick [OF assms(1) up _ that(3,2)] fs(1) that(1) by metis
    then have "open_receipts zs = []" using zs(2) by (simp add: settled_def owed_to_def)
    then show ?thesis using that(4,5) by (auto simp: open_receipts_def filter_empty_conv is_open_def)
  qed
  then show ?thesis using zs frames_from_events [OF fs(2)] by (intro exI [of _ zs]) (auto simp: settled_def)
qed

theorem every_frame_answered_once_witness:
  "\<exists>p n r. run_turns demo_host demo_sodium (demo_config 1 2) (demo_store 1 2 (Epoch 0)) (Epoch 0) demo_get_schedule
      (process_start (node_start demo_world stats_init (banner (demo_config 1 2))) [] [Accepted demo_get_stream]) = Some p \<and>
    pr_core p = Some n \<and> mset (written_to 1 n) = {#message_bytes (Some (str ''r'')) r#}"
proof -
  obtain p n where p: "run_turns demo_host demo_sodium (demo_config 1 2) (demo_store 1 2 (Epoch 0)) (Epoch 0) demo_get_schedule
      (process_start (node_start demo_world stats_init (banner (demo_config 1 2))) [] [Accepted demo_get_stream]) = Some p"
    "pr_core p = Some n" "1 \<in> n_clients n" "pr_taken p = [(0, ClientUp 1), (0, ClientFrame 1 demo_get)] @ [(5000, Tick)]"
    using demo_get_process by blast
  have k: "length (c_key (demo_config 1 2)) = KEYBYTES" by (simp add: demo_config_def demo_key_length KEYBYTES_def)
  have o: "\<forall>ks. set (h_order demo_host ks) = set ks" by (simp add: demo_host_def)
  have send: "is_send demo_get" by (simp add: is_send_def demo_get_parsed)
  obtain zs where zs: "map fst zs = frames_from 1 (map snd (pr_taken p))" "mset (written_to 1 n) = mset (concat (map entry_bytes zs))"
    "\<forall>xs t. pr_taken p = xs @ [(t, Tick)] \<and> (\<forall>(t', ev) \<in> set xs. t' + FORWARD_TIMEOUT \<le> t) \<and> (\<forall>ks. set (h_order demo_host ks) = set ks)
      \<longrightarrow> (\<forall>(fr, r) \<in> set zs. is_send fr \<longrightarrow> r \<noteq> None)"
    using every_frame_answered_once [OF demo_contract fresh_fields(1) k demo_started run_turns_reachable [OF p(1) reachable_start] p(2,3)] by blast
  have "\<forall>(fr, r) \<in> set zs. is_send fr \<longrightarrow> r \<noteq> None"
    using p(4) o by (intro zs(3) [THEN spec, THEN spec, THEN mp, of "[(0, ClientUp 1), (0, ClientFrame 1 demo_get)]" 5000]) (simp add: FORWARD_TIMEOUT_def)
  moreover have "map fst zs = [demo_get]" using zs(1) p(4) by (simp add: frames_from_def)
  ultimately obtain r where "zs = [(demo_get, Some r)]" using send by (cases zs) auto
  then show ?thesis using p zs(2) send by (auto simp: demo_get_parsed)
qed

end
