(* ===== verification/Answers.thy ===== *)
theory Answers
  imports Network Settlement
begin

text \<open>
  What clients of a pair are told. Over every behaviour of the network, a frame written to a
  connection answers a frame that this connection sent, with its receipt; and a value that a
  client reads was put under that key by a client. The invariant names, for every correlation id a
  node has minted, the connection and the frame it was minted for.
\<close>

section \<open>Answers to a frame\<close>

text \<open>What may be answered to an operation, given the operations asked for so far.\<close>

fun plausible :: "op list \<Rightarrow> op \<Rightarrow> reply \<Rightarrow> bool" where
  "plausible asked (Get k) r \<longleftrightarrow> r = ReplyNil \<or> (\<exists>v. r = Value v \<and> Put k v \<in> set asked)"
| "plausible asked (Rm k) r \<longleftrightarrow> r = ReplyOk \<or> r = ReplyNil"
| "plausible asked (Put k v) r \<longleftrightarrow> r = ReplyOk"

definition is_size :: "frame \<Rightarrow> bool" where
  "is_size fr \<longleftrightarrow> eq_ignore_ascii_case (trim (body fr)) (str ''SIZE'')"

text \<open>The operation of a SEND frame.\<close>

definition frame_op :: "host \<Rightarrow> frame \<Rightarrow> op option" where
  "frame_op H fr =
     (if is_send fr \<and> \<not> is_size fr
      then (case op_parse (h_plain H) (body fr) of Ok x \<Rightarrow> Some x | Err _ \<Rightarrow> None) else None)"

definition size_answer :: "u16 \<Rightarrow> nat \<Rightarrow> reply" where
  "size_answer me j =
     Value (show_nat j @ str '' of '' @ show_nat MAX_KEYS @ str '' keys on node '' @ show_nat (unat me))"

definition sent_reply :: "host \<Rightarrow> u16 \<Rightarrow> op list \<Rightarrow> frame \<Rightarrow> reply \<Rightarrow> bool" where
  "sent_reply H me asked fr r \<longleftrightarrow>
     (\<exists>m. r = ReplyErr m) \<or> (is_size fr \<and> (\<exists>j \<le> MAX_KEYS. r = size_answer me j)) \<or>
     (\<exists>x. frame_op H fr = Some x \<and> plausible asked x r)"

definition answers_frame :: "host \<Rightarrow> u16 \<Rightarrow> op list \<Rightarrow> frame \<Rightarrow> bytes \<Rightarrow> bool" where
  "answers_frame H me asked fr bs \<longleftrightarrow>
     (if is_send fr then \<exists>r. bs = message_bytes (receipt_of fr) r \<and> sent_reply H me asked fr r else bs \<in> set (prompt fr))"

lemma answers_frame_mono: "answers_frame H me asked fr bs \<Longrightarrow> set asked \<subseteq> set asked' \<Longrightarrow> answers_frame H me asked' fr bs"
proof -
  have "plausible asked x r \<Longrightarrow> set asked \<subseteq> set asked' \<Longrightarrow> plausible asked' x r" for x r by (cases x) auto
  then show "answers_frame H me asked fr bs \<Longrightarrow> set asked \<subseteq> set asked' \<Longrightarrow> answers_frame H me asked' fr bs"
    unfolding answers_frame_def sent_reply_def by (auto split: if_splits)
qed

text \<open>Every value in a store was asked for.\<close>

definition stored_asked :: "op list \<Rightarrow> kv_store \<Rightarrow> bool" where
  "stored_asked asked st \<longleftrightarrow> (\<forall>k v. kv_map st k = Some v \<longrightarrow> Put k v \<in> set asked)"

lemma execute_plausible:
  assumes "kv_inv st" "stored_asked asked st" "x \<in> set asked" "kv_execute x st = (r, st')"
  shows "stored_asked asked st' \<and> (plausible asked x r \<or> (\<exists>m. r = ReplyErr m))"
  using kv_refines [OF assms(1,4)] assms(2,3)
  by (cases x) (auto simp: stored_asked_def split: if_splits option.splits)

section \<open>What a step writes\<close>

abbreviation writes :: "node \<Rightarrow> (u64 \<Rightarrow> bytes \<Rightarrow> bool) \<Rightarrow> node \<Rightarrow> bool" where
  "writes n Q n' \<equiv> \<forall>(c, bs, ok) \<in> set (n_written n'). (c, bs, ok) \<in> set (n_written n) \<or> Q c bs"

lemma write_frameD:
  "(c, b, fine) \<in> set (n_written (write_frame H conn bs n)) \<Longrightarrow> (c, b, fine) \<in> set (n_written n) \<or> c = conn \<and> b = bs"
  by (auto simp: write_frame_def Let_def split: if_splits)

lemma reply_writes: "writes n (\<lambda>c b. c = conn \<and> b = message_bytes rc r) (reply_to_client H conn rc r n)"
  by (auto simp: reply_to_client_def dest!: write_frameD)

text \<open>A request on record was made by its connection, under the receipt on record.\<close>

definition recorded :: "u64 \<Rightarrow> frame \<Rightarrow> pending_request \<Rightarrow> bool" where
  "recorded conn fr p \<longleftrightarrow> p_conn p = conn \<and> p_receipt p = frame_header fr (str ''receipt'')"

lemma forward_writes:
  assumes "forward H L cfg store e now conn rc x n = Some n'"
  shows "writes n (\<lambda>c bs. c = conn \<and> (\<exists>m. bs = message_bytes rc (ReplyErr m))) n' \<and>
    (\<forall>(c, p) \<in> set (n_pending n'). (c, p) \<in> set (n_pending n) \<or>
      c = n_next_corr n + 1 \<and> n_next_corr n' = n_next_corr n + 1 \<and> p_conn p = conn \<and> p_receipt p = rc)"
proof -
  obtain r n2 where s: "send_to_peer H L cfg store e (peer_encode (Request (n_next_corr n + 1) x)) (n\<lparr>n_next_corr := n_next_corr n + 1\<rparr>) = Some (r, n2)"
    and n': "n' = (case r of Inl m \<Rightarrow> reply_to_client H conn rc (ReplyErr m) n2 | Inr _ \<Rightarrow>
      n2\<lparr>n_pending := hm_insert (n_next_corr n + 1) \<lparr>p_conn = conn, p_receipt = rc, p_deadline = now + FORWARD_TIMEOUT\<rparr> (n_pending n2)\<rparr>)"
    using assms by (auto simp: forward_def Let_def split: if_splits Option.bind_splits sum.splits)
  have n2: "n_written n2 = n_written n" "n_pending n2 = n_pending n" "n_next_corr n2 = n_next_corr n + 1"
    using send_to_peer_keeps [OF s] by auto
  show ?thesis
  proof (cases r)
    case (Inl m)
    then show ?thesis using n' n2 reply_writes [where n = n2 and conn = conn and rc = rc and r = "ReplyErr m" and H = H] by auto
  next
    case (Inr u)
    then show ?thesis using n' n2 by (auto simp: hm_insert_def hm_remove_def)
  qed
qed

text \<open>The three ways in which a SEND is answered at once, and the one in which it goes on record.\<close>

lemma send_writes:
  assumes "is_send fr" "handle_send H L cfg store e now conn (receipt_of fr) (body fr) n = Some n'" "kv_inv (n_kv n)" "stored_asked asked (n_kv n)"
    and "\<forall>x. frame_op H fr = Some x \<longrightarrow> x \<in> set asked"
  shows "(\<exists>r m. n' = reply_to_client H conn (receipt_of fr) r m \<and> n_written m = n_written n \<and> n_pending m = n_pending n \<and>
      sent_reply H (c_id cfg) asked fr r) \<or>
    (\<exists>x. frame_op H fr = Some x \<and> forward H L cfg store e now conn (receipt_of fr) x n = Some n')"
proof (cases "is_size fr")
  case True
  then have "n' = reply_to_client H conn (receipt_of fr) (size_answer (c_id cfg) (kv_len (n_kv n))) n"
    using assms(2) by (simp add: handle_send_def is_size_def size_answer_def)
  moreover have "sent_reply H (c_id cfg) asked fr (size_answer (c_id cfg) (kv_len (n_kv n)))"
    using True assms(3) by (auto simp: sent_reply_def kv_inv_def)
  ultimately show ?thesis by blast
next
  case False
  note h = assms(2) [unfolded handle_send_def if_not_P [OF False [unfolded is_size_def]]]
  show ?thesis
  proof (cases "op_parse (h_plain H) (body fr)")
    case (Inl m)
    then have "n' = reply_to_client H conn (receipt_of fr) (ReplyErr m) n" using h by simp
    moreover have "sent_reply H (c_id cfg) asked fr (ReplyErr m)" by (simp add: sent_reply_def)
    ultimately show ?thesis by blast
  next
    case (Inr x)
    then have x: "frame_op H fr = Some x" using assms(1) False by (simp add: frame_op_def)
    obtain r st where ex: "kv_execute x (n_kv n) = (r, st)" by fastforce
    have "sent_reply H (c_id cfg) asked fr r" using execute_plausible [OF assms(3,4) _ ex] assms(5) x by (auto simp: sent_reply_def)
    then show ?thesis using h Inr ex x by (fastforce split: if_splits)
  qed
qed

lemma client_frame_writes:
  assumes "handle_client_frame H L cfg store e now conn fr n = Some n'" "kv_inv (n_kv n)" "stored_asked asked (n_kv n)"
    and "\<forall>x. frame_op H fr = Some x \<longrightarrow> x \<in> set asked"
  shows "writes n (\<lambda>c bs. c = conn \<and> answers_frame H (c_id cfg) asked fr bs) n' \<and>
    (\<forall>(c, p) \<in> set (n_pending n'). (c, p) \<in> set (n_pending n) \<or>
      c = n_next_corr n + 1 \<and> n_next_corr n' = n_next_corr n + 1 \<and> recorded conn fr p \<and> frame_op H fr \<noteq> None)"
proof (cases "is_send fr")
  case False
  then show ?thesis using assms(1)
    by (auto simp: handle_client_frame_def Let_def answers_frame_def prompt_def is_send_def split: if_splits option.splits dest!: write_frameD)
next
  case True
  then have "handle_send H L cfg store e now conn (receipt_of fr) (body fr) n = Some n'" using assms(1) by (simp add: send_command is_send_def)
  from send_writes [OF True this assms(2-4)] show ?thesis
  proof (elim disjE exE conjE)
    fix r m assume "n' = reply_to_client H conn (receipt_of fr) r m" "n_written m = n_written n" "n_pending m = n_pending n"
      "sent_reply H (c_id cfg) asked fr r"
    then show ?thesis using reply_writes [where n = m and conn = conn and rc = "receipt_of fr" and r = r and H = H] True
      by (auto simp: answers_frame_def)
  next
    fix x assume x: "frame_op H fr = Some x" "forward H L cfg store e now conn (receipt_of fr) x n = Some n'"
    from forward_writes [OF x(2)] x(1) True show ?thesis by (fastforce simp: recorded_def answers_frame_def sent_reply_def)
  qed
qed

lemma expire_writes:
  "writes n (\<lambda>c bs. \<exists>(k, p) \<in> set (n_pending n). c = p_conn p \<and> bs = message_bytes (p_receipt p) (timeout_reply cfg))
    (expire_loop H cfg cs n)"
proof (induction cs arbitrary: n)
  case (Cons d cs)
  show ?case
  proof (cases "map_of (n_pending n) d")
    case (Some p)
    let ?m = "n\<lparr>n_pending := hm_remove d (n_pending n)\<rparr>"
    let ?n1 = "reply_to_client H (p_conn p) (p_receipt p) (timeout_reply cfg) ?m"
    have "writes ?m (\<lambda>c b. c = p_conn p \<and> b = message_bytes (p_receipt p) (timeout_reply cfg)) ?n1" by (rule reply_writes)
    moreover have "(d, p) \<in> set (n_pending n)" "set (n_pending ?n1) \<subseteq> set (n_pending n)"
      using Some by (auto simp: hm_remove_def dest: map_of_SomeD)
    ultimately show ?thesis using Cons.IH [of ?n1] Some by fastforce
  qed (use Cons.IH in simp)
qed auto

lemma message_writes:
  assumes "handle_message H L cfg store e m n = Some n'"
  shows "writes n (\<lambda>c bs. \<exists>corr r p. m = Response corr r \<and> (corr, p) \<in> set (n_pending n) \<and> c = p_conn p \<and> bs = message_bytes (p_receipt p) r) n' \<and>
    set (n_pending n') \<subseteq> set (n_pending n) \<and> n_next_corr n' = n_next_corr n"
proof (cases m)
  case (Request corr x)
  then show ?thesis using assms
    by (auto simp: handle_message_def split: prod.splits Option.bind_splits sum.splits dest!: send_to_peer_keeps)
next
  case (Response corr r)
  show ?thesis
  proof (cases "map_of (n_pending n) corr")
    case None
    then show ?thesis using assms Response by (auto simp: handle_message_def)
  next
    case (Some p)
    have "n' = reply_to_client H (p_conn p) (p_receipt p) r (n\<lparr>n_pending := hm_remove corr (n_pending n)\<rparr>)"
      using assms Response Some by (simp add: handle_message_def)
    then show ?thesis using map_of_SomeD [OF Some] Response
      reply_writes [where n = "n\<lparr>n_pending := hm_remove corr (n_pending n)\<rparr>" and conn = "p_conn p" and rc = "p_receipt p" and r = r and H = H]
      by (auto simp: hm_remove_def)
  qed
qed

section \<open>The ledger of correlation ids\<close>

text \<open>For each side, the connection and the frame for which a correlation id was minted.\<close>

type_synonym ledger = "side \<Rightarrow> u64 \<Rightarrow> (u64 \<times> frame) option"

definition sent_by :: "move list \<Rightarrow> side \<Rightarrow> u64 \<Rightarrow> frame \<Rightarrow> bool" where
  "sent_by tr s conn fr \<longleftrightarrow> (\<exists>t. Local s t (ClientFrame conn fr) \<in> set tr)"

definition minted :: "pair_link \<Rightarrow> move list \<Rightarrow> ledger \<Rightarrow> net \<Rightarrow> bool" where
  "minted lk tr F N \<longleftrightarrow> (\<forall>s c conn fr. F s c = Some (conn, fr) \<longrightarrow>
     c \<le> n_next_corr (nt_node N s) \<and> frame_op (l_host lk s) fr \<noteq> None \<and> sent_by tr s conn fr)"

definition on_record :: "ledger \<Rightarrow> net \<Rightarrow> bool" where
  "on_record F N \<longleftrightarrow> (\<forall>s. \<forall>(c, p) \<in> set (n_pending (nt_node N s)). \<exists>conn fr. F s c = Some (conn, fr) \<and> recorded conn fr p)"

definition answered :: "pair_link \<Rightarrow> move list \<Rightarrow> net \<Rightarrow> bool" where
  "answered lk tr N \<longleftrightarrow> (\<forall>s. \<forall>(conn, bs, fine) \<in> set (n_written (nt_node N s)). \<exists>fr. sent_by tr s conn fr \<and>
     answers_frame (l_host lk s) (c_id (l_cfg lk s)) (client_ops lk tr) fr bs)"

fun told :: "pair_link \<Rightarrow> ledger \<Rightarrow> op list \<Rightarrow> side \<Rightarrow> peer \<Rightarrow> bool" where
  "told lk F asked s (Request c x) \<longleftrightarrow> (\<exists>conn fr. F s c = Some (conn, fr) \<and> frame_op (l_host lk s) fr = Some x)"
| "told lk F asked s (Response c r) \<longleftrightarrow> (\<exists>conn fr. F (other s) c = Some (conn, fr) \<and>
     sent_reply (l_host lk (other s)) (c_id (l_cfg lk (other s))) asked fr r)"

definition ans_at :: "pair_link \<Rightarrow> bytes \<Rightarrow> move list \<Rightarrow> ledger \<Rightarrow> (side \<times> peer) list \<Rightarrow> net \<Rightarrow> bool" where
  "ans_at lk key tr F ms N \<longleftrightarrow> minted lk tr F N \<and> on_record F N \<and> answered lk tr N \<and>
     (\<forall>s. stored_asked (client_ops lk tr) (n_kv (nt_node N s))) \<and> labelled lk key (nt_flight N) ms \<and>
     (\<forall>(s, m) \<in> set ms. told lk F (client_ops lk tr) s m)"

definition ans_inv :: "pair_link \<Rightarrow> bytes \<Rightarrow> move list \<Rightarrow> net \<Rightarrow> bool" where
  "ans_inv lk key tr N \<longleftrightarrow> (\<exists>F ms. ans_at lk key tr F ms N)"

lemma client_ops_snoc [simp]: "client_ops lk (tr @ [mv]) = client_ops lk tr @ move_ops lk mv"
  by (simp add: client_ops_def)

lemma sent_by_snoc: "sent_by tr s conn fr \<Longrightarrow> sent_by (tr @ [mv]) s conn fr"
  by (auto simp: sent_by_def)

lemma sent_op:
  assumes "sent_by tr s conn fr" "frame_op (l_host lk s) fr = Some x"
  shows "x \<in> set (client_ops lk tr)"
proof -
  obtain t where t: "Local s t (ClientFrame conn fr) \<in> set tr" using assms(1) by (auto simp: sent_by_def)
  have "x \<in> set (move_ops lk (Local s t (ClientFrame conn fr)))"
    using assms(2) by (auto simp: frame_op_def is_send_def split: if_splits sum.splits)
  then show ?thesis using t unfolding client_ops_def set_concat set_map by blast
qed

lemma told_mono:
  assumes "told lk F asked s m" "\<And>s c v. F s c = Some v \<Longrightarrow> F' s c = Some v"
  shows "told lk F' (asked @ new) s m"
proof -
  have "plausible asked x r \<Longrightarrow> plausible (asked @ new) x r" for x r by (cases x) auto
  then show ?thesis using assms by (cases m) (fastforce simp: sent_reply_def)+
qed

lemma minted_step:
  assumes old: "minted lk tr F N" and later: "n_next_corr (nt_node N s) \<le> n_next_corr n'"
    and new: "\<And>s' c conn fr. F' s' c = Some (conn, fr) \<Longrightarrow> F s' c = Some (conn, fr) \<or>
      s' = s \<and> c \<le> n_next_corr n' \<and> frame_op (l_host lk s) fr \<noteq> None \<and> sent_by (tr @ [mv]) s conn fr"
  shows "minted lk (tr @ [mv]) F' (N\<lparr>nt_node := (nt_node N)(s := n'), nt_flight := fl\<rparr>)" (is "minted _ ?tr _ ?N'")
  unfolding minted_def
proof (intro allI impI)
  fix s' c conn fr assume f: "F' s' c = Some (conn, fr)"
  show "c \<le> n_next_corr (nt_node ?N' s') \<and> frame_op (l_host lk s') fr \<noteq> None \<and> sent_by ?tr s' conn fr"
  proof (cases "F s' c = Some (conn, fr)")
    case True
    with old have "c \<le> n_next_corr (nt_node N s')" "frame_op (l_host lk s') fr \<noteq> None" "sent_by tr s' conn fr"
      by (auto simp: minted_def)
    then show ?thesis using later sent_by_snoc by auto
  qed (use new [OF f] in auto)
qed

lemma on_record_step:
  assumes old: "on_record F N" and F: "\<And>s c v. F s c = Some v \<Longrightarrow> F' s c = Some v"
    and pend: "\<forall>(c, p) \<in> set (n_pending n'). (c, p) \<in> set (n_pending (nt_node N s)) \<or> (\<exists>conn fr. F' s c = Some (conn, fr) \<and> recorded conn fr p)"
  shows "on_record F' (N\<lparr>nt_node := (nt_node N)(s := n'), nt_flight := fl\<rparr>)" (is "on_record _ ?N'")
  unfolding on_record_def
proof (intro allI ballI, clarify)
  fix s' c p assume p: "(c, p) \<in> set (n_pending (nt_node ?N' s'))"
  show "\<exists>conn fr. F' s' c = Some (conn, fr) \<and> recorded conn fr p"
  proof (cases "(c, p) \<in> set (n_pending (nt_node N s'))")
    case True
    with old obtain conn fr where "F s' c = Some (conn, fr)" "recorded conn fr p" by (fastforce simp: on_record_def)
    then show ?thesis using F by blast
  qed (use p pend in \<open>auto split: if_splits\<close>)
qed

lemma answered_step:
  assumes old: "answered lk tr N"
    and wr: "writes (nt_node N s) (\<lambda>conn bs. \<exists>fr. sent_by (tr @ [mv]) s conn fr \<and>
      answers_frame (l_host lk s) (c_id (l_cfg lk s)) (client_ops lk (tr @ [mv])) fr bs) n'"
  shows "answered lk (tr @ [mv]) (N\<lparr>nt_node := (nt_node N)(s := n'), nt_flight := fl\<rparr>)" (is "answered _ ?tr ?N'")
  unfolding answered_def
proof (intro allI ballI, clarify)
  fix s' conn bs fine assume w: "(conn, bs, fine) \<in> set (n_written (nt_node ?N' s'))"
  show "\<exists>fr. sent_by ?tr s' conn fr \<and> answers_frame (l_host lk s') (c_id (l_cfg lk s')) (client_ops lk ?tr) fr bs"
  proof (cases "(conn, bs, fine) \<in> set (n_written (nt_node N s'))")
    case True
    with old obtain fr where "sent_by tr s' conn fr" "answers_frame (l_host lk s') (c_id (l_cfg lk s')) (client_ops lk tr) fr bs"
      by (fastforce simp: answered_def)
    from sent_by_snoc [OF this(1)] answers_frame_mono [OF this(2), of "client_ops lk ?tr"] show ?thesis by fastforce
  qed (use w wr in \<open>auto split: if_splits\<close>)
qed

text \<open>One turn of a node, with the network taking over what it sent.\<close>

lemma ans_node_step:
  assumes at: "ans_at lk key tr F ms N" and F: "\<And>s c v. F s c = Some v \<Longrightarrow> F' s c = Some v"
    and new: "\<And>s' c conn fr. F' s' c = Some (conn, fr) \<Longrightarrow> F s' c = Some (conn, fr) \<or>
      s' = s \<and> c \<le> n_next_corr n' \<and> frame_op (l_host lk s) fr \<noteq> None \<and> sent_by (tr @ [mv]) s conn fr"
    and later: "n_next_corr (nt_node N s) \<le> n_next_corr n'"
    and pend: "\<forall>(c, p) \<in> set (n_pending n'). (c, p) \<in> set (n_pending (nt_node N s)) \<or> (\<exists>conn fr. F' s c = Some (conn, fr) \<and> recorded conn fr p)"
    and wr: "writes (nt_node N s) (\<lambda>conn bs. \<exists>fr. sent_by (tr @ [mv]) s conn fr \<and>
      answers_frame (l_host lk s) (c_id (l_cfg lk s)) (client_ops lk (tr @ [mv])) fr bs) n'"
    and kv: "stored_asked (client_ops lk (tr @ [mv])) (n_kv n')"
    and fl: "labelled lk key fl ms1" "set ms1 \<subseteq> set ms"
    and out: "n_sent n' = n_sent (nt_node N s) @ y"
      "list_all (\<lambda>(d, _). carries (l_lib lk) (l_epoch lk) key (l_cfg lk s) m d \<and> told lk F' (client_ops lk (tr @ [mv])) s m) y"
  shows "ans_inv lk key (tr @ [mv]) (N\<lparr>nt_node := (nt_node N)(s := n'), nt_flight := fl @ fresh_sent (nt_node N s) n'\<rparr>)"
    (is "ans_inv _ _ ?tr ?N'")
proof -
  let ?ms = "ms1 @ map (\<lambda>_. (s, m)) (filter snd y)"
  have old: "minted lk tr F N" "on_record F N" "answered lk tr N" "\<forall>s. stored_asked (client_ops lk tr) (n_kv (nt_node N s))"
    "\<forall>(s, m) \<in> set ms. told lk F (client_ops lk tr) s m"
    using at by (simp_all add: ans_at_def)
  note minted_step [OF old(1) later new] on_record_step [where F = F and F' = F' and N = N and s = s and n' = n', OF old(2) F pend]
    answered_step [OF old(3) wr]
  moreover have "\<forall>s. stored_asked (client_ops lk ?tr) (n_kv (nt_node ?N' s))"
    using old(4) kv by (auto simp: stored_asked_def)
  moreover have "labelled lk key (fresh_sent (nt_node N s) n') (map (\<lambda>_. (s, m)) (filter snd y))"
    using out(2) unfolding fresh_sent_append [OF out(1)] by (induction y) (auto simp: labelled_def)
  then have "labelled lk key (nt_flight ?N') ?ms" using labelled_append [OF fl(1)] by simp
  moreover have "\<forall>(s, m) \<in> set ?ms. told lk F' (client_ops lk ?tr) s m"
    using old(5) fl(2) told_mono [OF _ F] out(2) by (force simp: list_all_iff)
  ultimately show ?thesis unfolding ans_inv_def ans_at_def by blast
qed

text \<open>A turn that is no client frame mints nothing.\<close>

lemma ans_plain_step:
  assumes at: "ans_at lk key tr F ms N" and mv: "move_ops lk mv = []"
    and corr: "n_next_corr n' = n_next_corr (nt_node N s)" and pend: "set (n_pending n') \<subseteq> set (n_pending (nt_node N s))"
    and wr: "writes (nt_node N s) (\<lambda>conn bs. \<exists>fr. sent_by tr s conn fr \<and>
      answers_frame (l_host lk s) (c_id (l_cfg lk s)) (client_ops lk tr) fr bs) n'"
    and kv: "stored_asked (client_ops lk tr) (n_kv n')" and fl: "labelled lk key fl ms1" "set ms1 \<subseteq> set ms"
    and out: "n_sent n' = n_sent (nt_node N s) @ y"
      "list_all (\<lambda>(d, _). carries (l_lib lk) (l_epoch lk) key (l_cfg lk s) m d \<and> told lk F (client_ops lk tr) s m) y"
  shows "ans_inv lk key (tr @ [mv]) (N\<lparr>nt_node := (nt_node N)(s := n'), nt_flight := fl @ fresh_sent (nt_node N s) n'\<rparr>)"
proof (rule ans_node_step [OF at _ _ _ _ _ _ fl out(1)])
  show "writes (nt_node N s) (\<lambda>conn bs. \<exists>fr. sent_by (tr @ [mv]) s conn fr \<and>
      answers_frame (l_host lk s) (c_id (l_cfg lk s)) (client_ops lk (tr @ [mv])) fr bs) n'"
    using wr sent_by_snoc by (fastforce simp: mv)
qed (use pend kv out(2) in \<open>auto simp: mv corr\<close>)

lemma ans_same_step:
  assumes at: "ans_at lk key tr F ms N" and mv: "move_ops lk mv = []" and n': "n' = (nt_node N s)\<lparr>n_world := w, n_stats := st\<rparr>"
    and fl: "labelled lk key fl ms1" "set ms1 \<subseteq> set ms"
  shows "ans_inv lk key (tr @ [mv]) (N\<lparr>nt_node := (nt_node N)(s := n'), nt_flight := fl @ fresh_sent (nt_node N s) n'\<rparr>)"
proof -
  have "stored_asked (client_ops lk tr) (n_kv (nt_node N s))" using at by (simp add: ans_at_def)
  then show ?thesis by (intro ans_plain_step [OF at mv _ _ _ _ fl, where y = "[]"]) (auto simp: n')
qed

text \<open>An answer to a request on record answers the frame of its connection.\<close>

lemma record_answer:
  assumes at: "ans_at lk key tr F ms N" and p: "(c, p) \<in> set (n_pending (nt_node N s))"
    and r: "\<And>conn fr. F s c = Some (conn, fr) \<Longrightarrow> sent_reply (l_host lk s) (c_id (l_cfg lk s)) (client_ops lk tr) fr r"
  shows "\<exists>fr. sent_by tr s (p_conn p) fr \<and>
    answers_frame (l_host lk s) (c_id (l_cfg lk s)) (client_ops lk tr) fr (message_bytes (p_receipt p) r)"
proof -
  have old: "minted lk tr F N" "on_record F N" using at by (simp_all add: ans_at_def)
  obtain conn fr where f: "F s c = Some (conn, fr)" "recorded conn fr p" using old(2) p by (fastforce simp: on_record_def)
  then have m: "frame_op (l_host lk s) fr \<noteq> None" "sent_by tr s conn fr" using old(1) by (auto simp: minted_def)
  then have "is_send fr" by (auto simp: frame_op_def split: if_splits)
  then have "answers_frame (l_host lk s) (c_id (l_cfg lk s)) (client_ops lk tr) fr (message_bytes (p_receipt p) r)"
    using f(2) r [OF f(1)] by (auto simp: recorded_def answers_frame_def)
  moreover have "conn = p_conn p" using f(2) by (simp add: recorded_def)
  ultimately show ?thesis using m(2) by blast
qed

lemma other_other [simp]: "other (other s) = s"
  by (cases s) simp_all

text \<open>A response of the peer answers a request on record; a request of the peer is one of its clients'.\<close>

lemma ans_response:
  assumes at: "ans_at lk key tr F ms N" and mv: "move_ops lk mv = []" and fl: "labelled lk key fl ms1" "set ms1 \<subseteq> set ms"
    and told: "told lk F (client_ops lk tr) (other s) (Response c r)"
    and h: "handle_message (l_host lk s) (l_lib lk) (l_cfg lk s) (l_store lk s) (l_epoch lk) (Response c r) (nt_node N s) = Some n'"
  shows "ans_inv lk key (tr @ [mv]) (N\<lparr>nt_node := (nt_node N)(s := n'), nt_flight := fl @ fresh_sent (nt_node N s) n'\<rparr>)"
proof -
  have reply: "F s c = Some (conn, fr) \<Longrightarrow> sent_reply (l_host lk s) (c_id (l_cfg lk s)) (client_ops lk tr) fr r" for conn fr
    using told by auto
  have "n_kv n' = n_kv (nt_node N s)" "n_sent n' = n_sent (nt_node N s)"
    using h by (auto simp: handle_message_def split: option.splits)
  moreover have "stored_asked (client_ops lk tr) (n_kv (nt_node N s))" using at by (simp add: ans_at_def)
  ultimately show ?thesis using message_writes [OF h] record_answer [OF at _ reply]
    by (intro ans_plain_step [OF at mv _ _ _ _ fl, where y = "[]"]) fastforce+
qed

lemma ans_request:
  assumes at: "ans_at lk key tr F ms N" and L: "sodium_contract (l_lib lk)" "net_ok lk key N" "op_scalar x"
    and mv: "move_ops lk mv = []" and fl: "labelled lk key fl ms1" "set ms1 \<subseteq> set ms"
    and told: "told lk F (client_ops lk tr) (other s) (Request c x)"
    and h: "handle_message (l_host lk s) (l_lib lk) (l_cfg lk s) (l_store lk s) (l_epoch lk) (Request c x) (nt_node N s) = Some n'"
  shows "ans_inv lk key (tr @ [mv]) (N\<lparr>nt_node := (nt_node N)(s := n'), nt_flight := fl @ fresh_sent (nt_node N s) n'\<rparr>)"
proof -
  let ?n = "nt_node N s" and ?c = "l_cfg lk s" and ?asked = "client_ops lk tr"
  have n: "linked ?c (l_store lk s) (l_epoch lk) key ?n" "kv_inv (n_kv ?n)" "kv_scalar (n_kv ?n)"
    using L(2) by (simp_all add: net_ok_def node_inv_def)
  have old: "stored_asked ?asked (n_kv ?n)" "minted lk tr F N" using at by (simp_all add: ans_at_def)
  obtain conn fr where f: "F (other s) c = Some (conn, fr)" "frame_op (l_host lk (other s)) fr = Some x" using told by auto
  then have x: "x \<in> set ?asked" using old(2) sent_op by (fastforce simp: minted_def)
  from request_outcome [OF L(1) n L(3) h] obtain y r where
    y: "n_sent n' = n_sent ?n @ y" "y = [] \<or> (\<exists>d ok. y = [(d, ok)] \<and> carries (l_lib lk) (l_epoch lk) key ?c (Response c r) d)"
    and ans: "answer_of ?c x ?n r (n_kv n')" by blast
  have r: "stored_asked ?asked (n_kv n') \<and> (plausible ?asked x r \<or> (\<exists>m. r = ReplyErr m))"
    using ans execute_plausible [OF n(2) old(1) x] old(1) by (auto simp: answer_of_def split: if_splits)
  then have "told lk F ?asked s (Response c r)" using f by (auto simp: sent_reply_def)
  then show ?thesis using message_writes [OF h] y r
    by (intro ans_plain_step [OF at mv _ _ _ _ fl y(1), where m = "Response c r"]) auto
qed

lemma ans_deliver:
  assumes at: "ans_at lk key tr F ms N" and L: "sodium_contract (l_lib lk)" "link_paired lk" "net_ok lk key N"
    and i: "i < length (nt_flight N)" and step: "link_step lk s (t, Datagram (nt_flight N ! i)) (nt_node N s) = Some n'"
  shows "ans_inv lk key (tr @ [Deliver s t i])
    (N\<lparr>nt_node := (nt_node N)(s := n'), nt_flight := drop_at i (nt_flight N) @ fresh_sent (nt_node N s) n'\<rparr>)"
proof -
  let ?n = "nt_node N s" and ?d = "nt_flight N ! i" and ?c = "l_cfg lk s"
  have n: "linked ?c (l_store lk s) (l_epoch lk) key ?n" using L(3) by (simp add: net_ok_def)
  have old: "labelled lk key (nt_flight N) ms" using at by (simp add: ans_at_def)
  note drop = labelled_drop_at [OF old i]
  have sub: "set (drop_at i ms) \<subseteq> set ms" by (auto simp: drop_at_def dest: in_set_takeD in_set_dropD)
  obtain a m where m: "ms ! i = (a, m)" by fastforce
  have d: "carries (l_lib lk) (l_epoch lk) key (l_cfg lk a) m ?d" using old i m by (auto simp: labelled_def list_all2_conv_all_nth)
  have told: "told lk F (client_ops lk tr) a m" using at drop(2) m nth_mem by (fastforce simp: ans_at_def)
  show ?thesis
  proof (cases "a = s")
    case True
    then obtain w st where "n' = ?n\<lparr>n_world := w, n_stats := st\<rparr>"
      using carried_bounces [OF L(1) link_pairedD(1) [OF L(2)] n] d step by force
    then show ?thesis by (intro ans_same_step [OF at _ _ drop(1) sub]) auto
  next
    case False
    then have a: "a = other s" using side_cases by blast
    have h: "handle_message (l_host lk s) (l_lib lk) ?c (l_store lk s) (l_epoch lk) m ?n = Some n'"
      using carried_opens [OF L(1) link_pairedD(2) [OF L(2)] n] d a step by simp
    show ?thesis
    proof (cases m)
      case (Response c r)
      then show ?thesis using ans_response [OF at _ drop(1) sub] told a h by simp
    next
      case (Request c x)
      then have "op_scalar x" using d by (simp add: carries_def)
      then show ?thesis using ans_request [OF at L(1,3) _ _ drop(1) sub] told a h Request by simp
    qed
  qed
qed

lemma stored_asked_mono: "stored_asked asked st \<Longrightarrow> set asked \<subseteq> set asked' \<Longrightarrow> stored_asked asked' st"
  by (auto simp: stored_asked_def)

lemma ans_client_frame:
  assumes at: "ans_at lk key tr F ms N" and L: "sodium_contract (l_lib lk)" "net_ok lk key N"
    and ev: "local_event (ClientFrame conn fr)" "link_step lk s (t, ClientFrame conn fr) (nt_node N s) = Some n'"
  shows "ans_inv lk key (tr @ [Local s t (ClientFrame conn fr)])
    (N\<lparr>nt_node := (nt_node N)(s := n'), nt_flight := nt_flight N @ fresh_sent (nt_node N s) n'\<rparr>)"
proof -
  let ?n = "nt_node N s" and ?c = "l_cfg lk s" and ?H = "l_host lk s" and ?tr = "tr @ [Local s t (ClientFrame conn fr)]"
  let ?asked = "client_ops lk ?tr" and ?new = "frame_op ?H fr \<noteq> None \<and> n_next_corr n' = n_next_corr ?n + 1"
  have n: "linked ?c (l_store lk s) (l_epoch lk) key ?n" "kv_inv (n_kv ?n)" "node_inv ?c (l_store lk s) ?n"
    using L(2) by (simp_all add: net_ok_def node_inv_def)
  have old: "minted lk tr F N" "labelled lk key (nt_flight N) ms" and st: "stored_asked ?asked (n_kv ?n)"
    using at by (auto simp: ans_at_def intro: stored_asked_mono)
  have sent: "sent_by ?tr s conn fr" by (auto simp: sent_by_def)
  have asked: "\<forall>x. frame_op ?H fr = Some x \<longrightarrow> x \<in> set ?asked" using sent_op [OF sent] by blast
  have h: "handle_client_frame ?H (l_lib lk) ?c (l_store lk s) (l_epoch lk) t conn fr ?n = Some n'" using ev(2) by simp
  note w = client_frame_writes [OF h n(2) st asked]
  have later: "n_next_corr ?n \<le> n_next_corr n'" using node_step_inv [OF L(1) n(3) ev(2)] by (simp add: node_later_def)
  have fresh: "F s (n_next_corr ?n + 1) = None" if "n_next_corr n' = n_next_corr ?n + 1"
  proof (rule ccontr)
    assume "F s (n_next_corr ?n + 1) \<noteq> None"
    then have "n_next_corr ?n + 1 \<le> n_next_corr ?n" using old(1) by (auto simp: minted_def)
    moreover have "n_next_corr ?n \<noteq> 0xFFFFFFFFFFFFFFFF" using later that by auto
    ultimately show False using corr_fresh by fastforce
  qed
  define F' where "F' = (if ?new then F(s := (F s)(n_next_corr ?n + 1 \<mapsto> (conn, fr))) else F)"
  have ext: "\<And>s c v. F s c = Some v \<Longrightarrow> F' s c = Some v" using fresh by (auto simp: F'_def)
  have mint: "F' s' c = Some (d, f) \<Longrightarrow> F s' c = Some (d, f) \<or> s' = s \<and> c \<le> n_next_corr n' \<and> frame_op ?H f \<noteq> None \<and> sent_by ?tr s d f" for s' c d f
    using sent by (auto simp: F'_def split: if_splits)
  have pend: "\<forall>(c, p) \<in> set (n_pending n'). (c, p) \<in> set (n_pending ?n) \<or> (\<exists>d f. F' s c = Some (d, f) \<and> recorded d f p)"
    using w by (force simp: F'_def)
  have wr: "writes ?n (\<lambda>d bs. \<exists>f. sent_by ?tr s d f \<and> answers_frame ?H (c_id ?c) ?asked f bs) n'" using w sent by fastforce
  note step = ans_node_step [where F' = F' and s = s and n' = n' and mv = "Local s t (ClientFrame conn fr)",
      OF at ext mint later pend wr _ old(2) subset_refl]
  show ?thesis
  proof (rule client_outcome [OF L(1) n(1) ev])
    assume "n_kv n' = n_kv ?n" "n_sent n' = n_sent ?n"
    then show ?thesis using st by (intro step [where y = "[]"]) auto
  next
    fix x r assume x: "client_op ?H (ClientFrame conn fr) = Some x" "kv_execute x (n_kv ?n) = (r, n_kv n')" "n_sent n' = n_sent ?n"
    then have "stored_asked ?asked (n_kv n')" using execute_plausible [OF n(2) st _ x(2)] by simp
    then show ?thesis using x(3) by (intro step [where y = "[]"]) auto
  next
    fix conn' fr' x d ok assume x: "ClientFrame conn fr = ClientFrame conn' fr'" "\<not> eq_ignore_ascii_case (trim (body fr')) (str ''SIZE'')"
      "client_op ?H (ClientFrame conn fr) = Some x" "n_kv n' = n_kv ?n" "n_next_corr n' = n_next_corr ?n + 1"
      "n_sent n' = n_sent ?n @ [(d, ok)]" "carries (l_lib lk) (l_epoch lk) key ?c (Request (n_next_corr ?n + 1) x) d"
    then have "frame_op ?H fr = Some x" by (auto simp: frame_op_def is_send_def is_size_def split: if_splits sum.splits)
    then have "told lk F' ?asked s (Request (n_next_corr ?n + 1) x)" using x(5) by (simp add: F'_def)
    then show ?thesis using x(4,6,7) st
      by (intro step [where y = "[(d, ok)]" and m = "Request (n_next_corr ?n + 1) x"]) auto
  qed
qed

lemma ans_other_event:
  assumes at: "ans_at lk key tr F ms N" and ev: "local_event ev" "\<not> (\<exists>conn fr. ev = ClientFrame conn fr)"
    and step: "link_step lk s (t, ev) (nt_node N s) = Some n'"
  shows "ans_inv lk key (tr @ [Local s t ev])
    (N\<lparr>nt_node := (nt_node N)(s := n'), nt_flight := nt_flight N @ fresh_sent (nt_node N s) n'\<rparr>)"
proof -
  have old: "labelled lk key (nt_flight N) ms" "stored_asked (client_ops lk tr) (n_kv (nt_node N s))" using at by (simp_all add: ans_at_def)
  have mv: "move_ops lk (Local s t ev) = []" using ev by (cases ev) auto
  have corr: "n_next_corr (expire_loop H cfg cs n) = n_next_corr n" for H cfg cs n
    by (induction cs arbitrary: n) (auto split: option.splits)
  have same: "n_next_corr n' = n_next_corr (nt_node N s)" "set (n_pending n') \<subseteq> set (n_pending (nt_node N s))"
    "n_kv n' = n_kv (nt_node N s)" "n_sent n' = n_sent (nt_node N s)"
    using ev step expire_later [where n = "nt_node N s"] by (cases ev; force simp: handle_tick_def corr expire_pending expire_sent)+
  have "writes (nt_node N s) (\<lambda>c bs. \<exists>(k, p) \<in> set (n_pending (nt_node N s)). c = p_conn p \<and>
      bs = message_bytes (p_receipt p) (timeout_reply (l_cfg lk s))) n'"
  proof (cases "ev = Tick")
    case True
    then obtain cs where n': "n' = expire_loop (l_host lk s) (l_cfg lk s) cs (nt_node N s)" using step by (auto simp: handle_tick_def)
    show ?thesis unfolding n' by (rule expire_writes)
  qed (use ev step in \<open>cases ev; auto\<close>)
  moreover have "\<exists>fr. sent_by tr s (p_conn p) fr \<and> answers_frame (l_host lk s) (c_id (l_cfg lk s)) (client_ops lk tr) fr
      (message_bytes (p_receipt p) (timeout_reply (l_cfg lk s)))" if "(k, p) \<in> set (n_pending (nt_node N s))" for k p
    by (rule record_answer [OF at that]) (simp add: sent_reply_def timeout_reply_def)
  ultimately have "writes (nt_node N s) (\<lambda>c bs. \<exists>fr. sent_by tr s c fr \<and>
      answers_frame (l_host lk s) (c_id (l_cfg lk s)) (client_ops lk tr) fr bs) n'" by fast
  then show ?thesis using same old by (intro ans_plain_step [OF at mv _ _ _ _ old(1) subset_refl, where y = "[]"]) auto
qed

lemma ans_flight:
  assumes at: "ans_at lk key tr F ms N" and fl: "labelled lk key fl ms'" "set ms' \<subseteq> set ms" and mv: "move_ops lk mv = []"
  shows "ans_inv lk key (tr @ [mv]) (N\<lparr>nt_flight := fl\<rparr>)"
proof -
  have "minted lk (tr @ [mv]) F (N\<lparr>nt_flight := fl\<rparr>)" "on_record F (N\<lparr>nt_flight := fl\<rparr>)"
    using at by (auto simp: ans_at_def minted_def on_record_def sent_by_snoc)
  moreover have "answered lk (tr @ [mv]) (N\<lparr>nt_flight := fl\<rparr>)"
    using at sent_by_snoc by (fastforce simp: ans_at_def answered_def mv)
  ultimately have "ans_at lk key (tr @ [mv]) F ms' (N\<lparr>nt_flight := fl\<rparr>)"
    using at fl by (auto simp: ans_at_def mv)
  then show ?thesis unfolding ans_inv_def by blast
qed

lemma ans_step:
  assumes "net_step lk N mv N'" "sodium_contract (l_lib lk)" "link_paired lk" "net_ok lk key N" "ans_inv lk key tr N"
  shows "ans_inv lk key (tr @ [mv]) N'"
proof -
  obtain F ms where at: "ans_at lk key tr F ms N" using assms(5) by (auto simp: ans_inv_def)
  then have ms: "labelled lk key (nt_flight N) ms" by (simp add: ans_at_def)
  from assms(1) show ?thesis
  proof cases
    case (net_local ev s t n')
    then show ?thesis using ans_client_frame [OF at assms(2,4)] ans_other_event [OF at]
      by (cases "\<exists>conn fr. ev = ClientFrame conn fr") auto
  next
    case (net_deliver i s t n')
    then show ?thesis using ans_deliver [OF at assms(2-4)] by simp
  next
    case (net_inject s bs t n')
    with injected obtain w st where "n' = (nt_node N s)\<lparr>n_world := w, n_stats := st\<rparr>" by metis
    then show ?thesis using net_inject ans_same_step [where mv = "Inject s t bs" and n' = n' and s = s, OF at _ _ ms subset_refl] by simp
  next
    case (net_duplicate i)
    have "labelled lk key [nt_flight N ! i] [ms ! i]" using ms net_duplicate by (simp add: labelled_def list_all2_conv_all_nth)
    from labelled_append [OF ms this] labelled_drop_at(2) [OF ms net_duplicate(3)] net_duplicate show ?thesis
      by (auto intro!: ans_flight [OF at])
  next
    case (net_lose i)
    have "set (drop_at i ms) \<subseteq> set ms" by (auto simp: drop_at_def dest: in_set_takeD in_set_dropD)
    with labelled_drop_at(1) [OF ms net_lose(3)] net_lose show ?thesis by (auto intro!: ans_flight [OF at])
  qed
qed

lemma ans_run:
  assumes "net_run lk N0 tr N" "sodium_contract (l_lib lk)" "net_start lk N0"
  shows "ans_inv lk (c_key (l_cfg lk NodeA)) tr N"
  using assms(1)
proof induction
  case run_start
  have start: "n_kv (nt_node N0 s) = kv_default \<and> n_pending (nt_node N0 s) = [] \<and> n_written (nt_node N0 s) = []" for s
  proof -
    obtain st w w' where "run_setup (l_host lk s) (l_lib lk) (l_cfg lk s) st w = (Ok (l_store lk s, l_epoch lk, nt_node N0 s), w')"
      using assms(3) unfolding net_start_def by blast
    from run_setup_ok [OF this] show ?thesis by (auto simp: node_start_def)
  qed
  have "kv_map kv_default k = None" for k by (simp add: kv_map_def kv_default_def bt_get_def)
  then have "ans_at lk (c_key (l_cfg lk NodeA)) [] (\<lambda>_ _. None) [] N0" using start assms(3)
    by (simp add: ans_at_def minted_def on_record_def answered_def stored_asked_def labelled_def net_start_def)
  then show ?case unfolding ans_inv_def by blast
next
  case (run_step tr N mv N')
  have p: "link_paired lk" using assms(3) by (simp add: net_start_def)
  have "net_ok lk (c_key (l_cfg lk NodeA)) N"
    using net_run_inv [OF run_step.hyps(1) assms(2) p net_start_inv [OF assms(2,3)]] by (auto simp: net_inv_def net_at_def)
  from ans_step [OF run_step.hyps(2) assms(2) p this run_step.IH] show ?case .
qed

text \<open>Clients are told only what clients asked for: every frame a node has written to a connection answers
  a frame that this very connection sent to this node, and a value in the answer to a GET was put
  under that key by a client of the pair.\<close>

lemma written_answers:
  assumes "net_run lk N0 tr N" "sodium_contract (l_lib lk)" "net_start lk N0" "(conn, bs, fine) \<in> set (n_written (nt_node N s))"
  shows "\<exists>t fr. Local s t (ClientFrame conn fr) \<in> set tr \<and>
    answers_frame (l_host lk s) (c_id (l_cfg lk s)) (client_ops lk tr) fr bs"
  using ans_run [OF assms(1-3)] assms(4) by (fastforce simp: ans_inv_def ans_at_def answered_def sent_by_def)

end
