(* ===== verification/Whole_System.thy ===== *)
theory Whole_System
  imports Answers Settlement
begin

text \<open>
  Two processes of the demo server on one network. Each node is the process of \<open>Threads\<close>, with its
  producers, its channel and its core thread under any schedule; a datagram that arrives waits in the
  socket until the UDP reader takes it, and in the channel until the core does. Every behaviour
  of this system is one of the network of \<open>Network\<close>, so that what is shown there holds of what
  clients send over their connections and what they are written.
\<close>

section \<open>The system\<close>

record system =
  sy_proc :: "side \<Rightarrow> process"
  sy_flight :: "bytes list"

abbreviation link_turn :: "pair_link \<Rightarrow> side \<Rightarrow> turn \<Rightarrow> process \<Rightarrow> (unit \<times> process) option" where
  "link_turn lk s \<equiv> process_turn (l_host lk s) (l_lib lk) (l_cfg lk s) (l_store lk s) (l_epoch lk)"

text \<open>The datagrams that the core thread handed to its socket in a turn.\<close>

definition handed :: "process \<Rightarrow> process \<Rightarrow> bytes list" where
  "handed p p' = (case (pr_core p, pr_core p') of (Some n, Some n') \<Rightarrow> fresh_sent n n' | _ \<Rightarrow> [])"

definition arrive :: "recv_result \<Rightarrow> process \<Rightarrow> process" where
  "arrive x p = p\<lparr>pr_udp := map_option (\<lambda>rs. rs @ [x]) (pr_udp p)\<rparr>"

text \<open>
  A thread of a process runs; a datagram in flight reaches the socket of a process, or bytes do that do
  not open there, or an error; a datagram is duplicated or lost.
\<close>

datatype sys_move = Turn side turn | Arrive side nat | Forge side bytes | SockFail side ustr | Copy nat | Discard nat

inductive sys_step :: "pair_link \<Rightarrow> system \<Rightarrow> sys_move \<Rightarrow> system \<Rightarrow> bool" for lk where
  sys_turn: "link_turn lk s t (sy_proc S s) = Some (u, p') \<Longrightarrow>
    sys_step lk S (Turn s t) (S\<lparr>sy_proc := (sy_proc S)(s := p'), sy_flight := sy_flight S @ handed (sy_proc S s) p'\<rparr>)"
| sys_arrive: "i < length (sy_flight S) \<Longrightarrow>
    sys_step lk S (Arrive s i) (S\<lparr>sy_proc := (sy_proc S)(s := arrive (Received (sy_flight S ! i)) (sy_proc S s)),
      sy_flight := drop_at i (sy_flight S)\<rparr>)"
| sys_forge: "\<forall>n. pr_core (sy_proc S s) = Some n \<longrightarrow> \<not> opens lk s n (take MAX_DATAGRAM bs) \<Longrightarrow>
    sys_step lk S (Forge s bs) (S\<lparr>sy_proc := (sy_proc S)(s := arrive (Received bs) (sy_proc S s))\<rparr>)"
| sys_fail: "sys_step lk S (SockFail s m) (S\<lparr>sy_proc := (sy_proc S)(s := arrive (RecvFailed m) (sy_proc S s))\<rparr>)"
| sys_copy: "i < length (sy_flight S) \<Longrightarrow> sys_step lk S (Copy i) (S\<lparr>sy_flight := sy_flight S @ [sy_flight S ! i]\<rparr>)"
| sys_discard: "i < length (sy_flight S) \<Longrightarrow> sys_step lk S (Discard i) (S\<lparr>sy_flight := drop_at i (sy_flight S)\<rparr>)"

inductive sys_run :: "pair_link \<Rightarrow> system \<Rightarrow> sys_move list \<Rightarrow> system \<Rightarrow> bool" for lk S0 where
  sys_begin: "sys_run lk S0 [] S0"
| sys_next: "sys_run lk S0 mvs S \<Longrightarrow> sys_step lk S mv S' \<Longrightarrow> sys_run lk S0 (mvs @ [mv]) S'"

text \<open>Both processes just up, each with the connections its listener will deliver.\<close>

definition sys_start :: "net \<Rightarrow> (side \<Rightarrow> accept_result list) \<Rightarrow> system" where
  "sys_start N accepts = \<lparr>sy_proc = \<lambda>s. process_start (nt_node N s) [] (accepts s), sy_flight = nt_flight N\<rparr>"

section \<open>Bytes that do not open\<close>

text \<open>Whether bytes open depends on the keys only, which no event changes.\<close>

lemma opens_heap:
  assumes "sodium_contract (l_lib lk)" "ks_inv (n_world n) (l_store lk s)" "heap (n_world n') = heap (n_world n)" "opens lk s n' bs"
  shows "opens lk s n bs"
proof -
  note L = sodium_contractD [OF assms(1)]
  have inv': "ks_inv (n_world n') (l_store lk s)" using assms(2) ks_inv_heap [OF assms(3)] by simp
  obtain hdr fl m w st where o: "dek_open (l_lib lk) (l_store lk s) bs (n_world n') (n_stats n') = Some (Ok (hdr, fl, m), w, st)"
    using assms(4) by (auto simp: opens_def split: option.splits sum.splits)
  from dek_open_accepts [OF L(1,2) inv' o] obtain key where k: "to_id hdr = ks_local_id (l_store lk s)"
    "lookup (n_world n) (l_store lk s) (from_id hdr) (flags_epoch fl) = Some key" "sealed_frame (l_lib lk) key hdr fl m bs"
    by (auto simp: lookup_heap [OF assms(3)])
  have fl: "fl = flags_new (flags_mode fl) (flags_epoch fl)" by (simp add: flags_new_def)
  have "\<exists>w' st'. dek_open (l_lib lk) (l_store lk s) bs (n_world n) (n_stats n) = Some (Ok (hdr, fl, m), w', st')"
    using fm.accept_iff [of "l_lib lk" "(n_world n, l_store lk s)" "flags_mode fl" "n_stats n" bs hdr "flags_epoch fl" m] L assms(2) k fl
    by (auto simp: mode_accept_Some mode_sealed_def)
  then show ?thesis by (auto simp: opens_def)
qed

section \<open>Frames of the stream reader\<close>

lemma split_once_str_scalar: "split_once_str p s = Some (a, b) \<Longrightarrow> list_all is_scalar s \<Longrightarrow> list_all is_scalar b"
  by (induction p s arbitrary: a b rule: split_once_str.induct)
    (fastforce split: if_splits simp: list_all_iff dest!: in_set_dropD)+

lemma read_frame_scalar: "read_frame r = (Ok (Some fr), r') \<Longrightarrow> list_all is_scalar (body fr)"
proof (induction r rule: read_frame.induct)
  case (1 r)
  obtain raw r1 tx where t: "read_raw [] r = (Ok (Some raw), r1)" "from_utf8 raw = Some tx"
    using 1(2) by (auto simp: read_frame.simps [of r] split: prod.splits sum.splits option.splits)
  have s: "list_all is_scalar (dropWhile (\<lambda>c. c = 10 \<or> c = 13) tx)"
    using from_utf8_sound [OF t(2)] by (auto simp: list_all_iff dest: set_dropWhileD)
  show ?case
  proof (cases "dropWhile (\<lambda>c. c = 10 \<or> c = 13) tx = []")
    case True
    then have "read_frame r1 = (Ok (Some fr), r')" using 1(2) t by (simp add: read_frame.simps [of r])
    then show ?thesis by (rule 1(1) [OF t(1) [symmetric] refl refl t(2) refl True])
  next
    case False
    then have "fr = parse_frame (dropWhile (\<lambda>c. c = 10 \<or> c = 13) tx)" using 1(2) t by (auto simp: read_frame.simps [of r] Let_def split: if_splits)
    then show ?thesis using s split_once_str_scalar by (auto simp: parse_frame_def Let_def split: option.split)
  qed
qed

lemma client_thread_scalar: "ClientFrame conn fr \<in> set (client_thread conn r) \<Longrightarrow> list_all is_scalar (body fr)"
proof (induction conn r rule: client_thread.induct)
  case (1 conn r)
  show ?case
  proof (cases "\<exists>f r1. read_frame r = (Ok (Some f), r1)")
    case True
    then obtain f r1 where f: "read_frame r = (Ok (Some f), r1)" by blast
    then have "fr = f \<or> ClientFrame conn fr \<in> set (client_thread conn r1)" using 1(2) by (simp add: client_thread.simps [of conn r])
    then show ?thesis using 1(1) [OF f [symmetric] refl refl] read_frame_scalar [OF f] by blast
  next
    case False
    then have "client_thread conn r = [ClientDown conn]"
      by (cases "read_frame r") (auto simp: client_thread.simps [of conn r] split: sum.split option.split)
    then show ?thesis using 1(2) by simp
  qed
qed

section \<open>The processes of the system\<close>

lemma udp_reader_arrives:
  "udp_reader (rs @ [RecvFailed m]) = udp_reader rs"
  "udp_reader (rs @ [Received bs]) = udp_reader rs \<or> udp_reader (rs @ [Received bs]) = udp_reader rs @ [Datagram (take MAX_DATAGRAM bs)]"
proof -
  show "udp_reader (rs @ [RecvFailed m]) = udp_reader rs" by (induction rs rule: udp_reader.induct) simp_all
  show "udp_reader (rs @ [Received bs]) = udp_reader rs \<or> udp_reader (rs @ [Received bs]) = udp_reader rs @ [Datagram (take MAX_DATAGRAM bs)]"
    by (induction rs rule: udp_reader.induct) auto
qed

lemma udp_reader_more: "\<exists>rs'. udp_reader rs' = udp_reader rs @ [Datagram (take MAX_DATAGRAM bs)]"
proof (induction rs rule: udp_reader.induct)
  case (2 b rest)
  then obtain rs' where "udp_reader rs' = udp_reader rest @ [Datagram (take MAX_DATAGRAM bs)]" by blast
  then show ?case by (intro exI [of _ "Received b # rs'"]) simp
qed (auto intro: exI [of _ "[Received bs]"])

lemma arrive_fields [simp]:
  "pr_core (arrive x p) = pr_core p" "pr_taken (arrive x p) = pr_taken p" "pr_queue (arrive x p) = pr_queue p"
  "pr_accept (arrive x p) = pr_accept p" "pr_next_id (arrive x p) = pr_next_id p" "pr_readers (arrive x p) = pr_readers p"
  by (simp_all add: arrive_def)

lemma arrive_left:
  "udp_left (arrive (RecvFailed m) p) = udp_left p"
  "udp_left (arrive (Received bs) p) = udp_left p \<or> udp_left (arrive (Received bs) p) = udp_left p @ [Datagram (take MAX_DATAGRAM bs)]"
  using udp_reader_arrives by (auto simp: arrive_def udp_left_def split: option.split)

lemma arrive_inv:
  assumes "process_inv H L cfg store e n0 recvs accepts p"
  shows "\<exists>recvs'. process_inv H L cfg store e n0 recvs' accepts (arrive x p)"
proof -
  have "\<exists>recvs'. filter is_datagram (posted p) @ udp_left (arrive x p) = udp_reader recvs'"
  proof (cases x)
    case (Received bs)
    obtain rs' where "udp_reader rs' = udp_reader recvs @ [Datagram (take MAX_DATAGRAM bs)]" using udp_reader_more by blast
    then show ?thesis using assms arrive_left(2) [of bs p] Received by (metis append_assoc process_inv_def)
  next
    case (RecvFailed m)
    then show ?thesis using assms arrive_left(1) by (metis process_inv_def)
  qed
  moreover have "accepted_so_far accepts cs (arrive x p) = accepted_so_far accepts cs p" for cs
    by (simp add: accepted_so_far_def accept_left_def reader_left_def posted_def cong: option.case_cong)
  ultimately show ?thesis using assms by (auto simp: process_inv_def posted_def)
qed

text \<open>What is posted is a datagram or an event of a connection, whose frames are valid text.\<close>

lemma posted_local:
  assumes "process_inv H L cfg store e n0 recvs accepts p" "ev \<in> set (posted p)"
  shows "is_datagram ev \<or> local_event ev"
proof (cases ev)
  case (ClientFrame c fr)
  obtain cs where "filter (of_conn c) (posted p) @ reader_left p c = events_of cs c"
    using assms(1) by (auto simp: process_inv_def accepted_so_far_def)
  moreover have "ClientFrame c fr \<in> set (filter (of_conn c) (posted p))" using assms(2) ClientFrame by simp
  ultimately have "ClientFrame c fr \<in> set (events_of cs c)" by (metis in_set_conv_decomp append_assoc append_Cons)
  then show ?thesis using client_thread_scalar ClientFrame
    by (auto simp: events_of_def connection_events_def split: option.splits)
qed simp_all

definition sys_ok :: "pair_link \<Rightarrow> net \<Rightarrow> (side \<Rightarrow> accept_result list) \<Rightarrow> system \<Rightarrow> bool" where
  "sys_ok lk N0 accepts S \<longleftrightarrow> (\<forall>s. \<exists>recvs. process_inv (l_host lk s) (l_lib lk) (l_cfg lk s) (l_store lk s) (l_epoch lk)
     (nt_node N0 s) recvs (accepts s) (sy_proc S s))"

lemma sys_ok_step:
  assumes "sys_step lk S mv S'" "sys_ok lk N0 accepts S"
  shows "sys_ok lk N0 accepts S'"
  using assms(1)
proof cases
  case (sys_turn s t u p')
  then show ?thesis using assms(2) threads.step_inv unfolding sys_ok_def by fastforce
qed (use assms(2) arrive_inv in \<open>fastforce simp: sys_ok_def\<close>)+

lemma sys_ok_run: "sys_run lk (sys_start N0 accepts) mvs S \<Longrightarrow> sys_ok lk N0 accepts S"
proof (induction rule: sys_run.induct)
  case sys_begin
  then show ?case using process_inv_start by (fastforce simp: sys_ok_def sys_start_def)
qed (rule sys_ok_step)

section \<open>The system mirrors the network\<close>

text \<open>Datagrams that wait for the core thread, in the channel and in the socket.\<close>

definition backlog :: "process \<Rightarrow> event list" where
  "backlog p = filter is_datagram (pr_queue p) @ udp_left p"

fun local_of :: "side \<Rightarrow> move \<Rightarrow> (nat \<times> event) option" where
  "local_of s (Local s' t ev) = (if s = s' then Some (t, ev) else None)"
| "local_of s _ = None"

definition local_moves :: "side \<Rightarrow> move list \<Rightarrow> (nat \<times> event) list" where
  "local_moves s tr = List.map_filter (local_of s) tr"

definition local_taken :: "process \<Rightarrow> (nat \<times> event) list" where
  "local_taken p = filter (\<lambda>x. \<not> is_datagram (snd x)) (pr_taken p)"

text \<open>
  The waiting datagrams of a process are those of \<open>g\<close>, which the network still has in flight, and
  others that do not open.
\<close>

definition explained :: "pair_link \<Rightarrow> side \<Rightarrow> bytes multiset \<Rightarrow> process \<Rightarrow> bool" where
  "explained lk s g p \<longleftrightarrow> (\<forall>n. pr_core p = Some n \<longrightarrow>
     (\<exists>f. mset (backlog p) = image_mset Datagram (g + f) \<and> (\<forall>bs \<in># f. \<not> opens lk s n bs)))"

definition tracks :: "side \<Rightarrow> process \<Rightarrow> move list \<Rightarrow> net \<Rightarrow> bool" where
  "tracks s p tr N \<longleftrightarrow> prefix (local_moves s tr) (local_taken p) \<and>
     (\<forall>n. pr_core p = Some n \<longrightarrow> nt_node N s = n \<and> local_moves s tr = local_taken p)"

definition mirrors :: "pair_link \<Rightarrow> (side \<Rightarrow> bytes multiset) \<Rightarrow> system \<Rightarrow> move list \<Rightarrow> net \<Rightarrow> bool" where
  "mirrors lk g S tr N \<longleftrightarrow> (\<forall>s. tracks s (sy_proc S s) tr N \<and> explained lk s (g s) (sy_proc S s)) \<and>
     mset (sy_flight S) + g NodeA + g NodeB \<subseteq># mset (nt_flight N)"

lemma local_moves_snoc: "local_moves s (tr @ [mv]) = local_moves s tr @ (case local_of s mv of None \<Rightarrow> [] | Some x \<Rightarrow> [x])"
  by (simp add: local_moves_def map_filter_def split: option.split)

lemma side_sum: "g NodeA + g NodeB = g s + g (other s)" for g :: "side \<Rightarrow> bytes multiset"
  by (cases s) (simp_all add: add.commute)

lemma mirrors_update:
  assumes at: "mirrors lk g S tr N" and tracks: "tracks s p' tr' N'" "explained lk s gs p'"
    and other: "local_moves (other s) tr' = local_moves (other s) tr" "nt_node N' (other s) = nt_node N (other s)"
    and flight: "mset fl + gs + g (other s) \<subseteq># mset (nt_flight N')"
  shows "mirrors lk (g(s := gs)) (S\<lparr>sy_proc := (sy_proc S)(s := p'), sy_flight := fl\<rparr>) tr' N'"
proof -
  let ?g = "g(s := gs)" and ?P = "(sy_proc S)(s := p')"
  have ne: "other s \<noteq> s" by (cases s) simp_all
  have "tracks a (?P a) tr' N' \<and> explained lk a (?g a) (?P a)" for a
  proof (cases "a = s")
    case False
    then have "a = other s" using side_cases by blast
    then show ?thesis using at ne other by (simp add: mirrors_def tracks_def)
  qed (use tracks in simp)
  moreover have "mset fl + ?g NodeA + ?g NodeB \<subseteq># mset (nt_flight N')"
    using flight ne side_sum [of ?g s] by (simp add: add.assoc)
  ultimately show ?thesis by (simp add: mirrors_def)
qed

text \<open>A turn that the network does not see.\<close>

lemma mirrors_quiet:
  assumes at: "mirrors lk g S tr N" and core: "pr_core p' = pr_core (sy_proc S s)" "pr_taken p' = pr_taken (sy_proc S s)"
    and log: "mset (backlog p') = mset (backlog (sy_proc S s))"
  shows "mirrors lk g (S\<lparr>sy_proc := (sy_proc S)(s := p')\<rparr>) tr N"
proof -
  have "tracks s p' tr N" "explained lk s (g s) p'"
    using at core log by (auto simp: mirrors_def tracks_def explained_def local_taken_def)
  moreover have "mset (sy_flight S) + g s + g (other s) \<subseteq># mset (nt_flight N)"
    using at side_sum [of g s] by (simp add: mirrors_def add.assoc)
  ultimately show ?thesis using mirrors_update [OF at, of s p' tr N "g s" "sy_flight S"] by simp
qed

lemma handed_quiet: "pr_core p' = pr_core p \<Longrightarrow> handed p p' = []"
  by (simp add: handed_def fresh_sent_def split: option.split)

lemma producer_turn:
  assumes "thread_turn H L cfg store e t p = Some p'" "\<forall>now. t \<noteq> CoreTurn now"
  shows "pr_core p' = pr_core p \<and> pr_taken p' = pr_taken p \<and> mset (backlog p') = mset (backlog p)"
  using assms
  by (cases t) (auto simp: udp_turn_def accept_turn_def reader_turn_def ticker_turn_def turn_defs backlog_def Let_def
      split: option.splits list.splits recv_result.splits accept_result.splits if_splits prod.splits sum.splits)

text \<open>A turn of the core thread is a move of the network, or a panic.\<close>

definition follows :: "pair_link \<Rightarrow> bool \<Rightarrow> move list \<Rightarrow> net \<Rightarrow> move list \<Rightarrow> net \<Rightarrow> bool" where
  "follows lk dup tr N tr' N' \<longleftrightarrow> tr' = tr \<and> N' = N \<or> (\<exists>mv. tr' = tr @ [mv] \<and> net_step lk N mv N' \<and> (duplicates mv \<longrightarrow> dup))"

lemma follow_move:
  assumes "net_step lk N mv N'" "mirrors lk g S (tr @ [mv]) N'" "duplicates mv \<longrightarrow> dup"
  shows "\<exists>g' tr' N'. follows lk dup tr N tr' N' \<and> mirrors lk g' S tr' N'"
  using assms by (auto simp: follows_def)

lemma follow_skip:
  assumes "mirrors lk g S tr N"
  shows "\<exists>g' tr' N'. follows lk dup tr N tr' N' \<and> mirrors lk g' S tr' N'"
  using assms by (auto simp: follows_def)

lemma mset_drop_at: "i < length xs \<Longrightarrow> mset xs = add_mset (xs ! i) (mset (drop_at i xs))"
proof -
  assume "i < length xs"
  then have "mset xs = mset (take i xs @ xs ! i # drop (Suc i) xs)" by (simp add: id_take_nth_drop [symmetric])
  then show ?thesis by (simp add: drop_at_def)
qed

lemma mirrorsD:
  assumes "mirrors lk g S tr N" "pr_core (sy_proc S s) = Some n"
  shows "nt_node N s = n" "local_moves s tr = local_taken (sy_proc S s)"
    and "\<exists>f. mset (backlog (sy_proc S s)) = image_mset Datagram (g s + f) \<and> (\<forall>bs \<in># f. \<not> opens lk s n bs)"
    and "mset (sy_flight S) + g s + g (other s) \<subseteq># mset (nt_flight N)"
  using assms side_sum [of g s] by (auto simp: mirrors_def tracks_def explained_def add.assoc)

lemma mirrors_flight:
  assumes "mirrors lk g S tr N" "d \<in> set (sy_flight S)"
  shows "d \<in> set (nt_flight N)"
proof -
  have "d \<in># mset (sy_flight S) + g NodeA + g NodeB" using assms(2) by simp
  then show ?thesis using assms(1) mset_subset_eqD unfolding mirrors_def by fastforce
qed

abbreviation turned :: "side \<Rightarrow> process \<Rightarrow> system \<Rightarrow> system" where
  "turned s p' S \<equiv> S\<lparr>sy_proc := (sy_proc S)(s := p'), sy_flight := sy_flight S @ handed (sy_proc S s) p'\<rparr>"

abbreviation stepped :: "side \<Rightarrow> node \<Rightarrow> bytes list \<Rightarrow> net \<Rightarrow> net" where
  "stepped s n' fl N \<equiv> N\<lparr>nt_node := (nt_node N)(s := n'), nt_flight := fl @ fresh_sent (nt_node N s) n'\<rparr>"

abbreviation can_follow :: "pair_link \<Rightarrow> bool \<Rightarrow> move list \<Rightarrow> net \<Rightarrow> system \<Rightarrow> bool" where
  "can_follow lk dup tr N S \<equiv> \<exists>g' tr' N'. follows lk dup tr N tr' N' \<and> mirrors lk g' S tr' N'"

lemma core_moved:
  assumes at: "mirrors lk g S tr N" and q: "pr_core (sy_proc S s) = Some n"
    and p': "pr_core p' = Some n'" "pr_taken p' = pr_taken (sy_proc S s) @ [(now, ev)]"
    and log: "mset (backlog p') = image_mset Datagram (gs + f)" "\<forall>bs \<in># f. \<not> opens lk s n' bs"
    and mv: "local_of s mv = (if is_datagram ev then None else Some (now, ev))" "local_of (other s) mv = None"
    and flight: "mset (sy_flight S) + gs + g (other s) \<subseteq># mset fl"
  shows "mirrors lk (g(s := gs)) (turned s p' S) (tr @ [mv]) (stepped s n' fl N)"
proof (rule mirrors_update [OF at])
  have "local_moves s (tr @ [mv]) = local_taken p'" using mirrorsD(2) [OF at q] mv(1) p'(2) by (simp add: local_moves_snoc local_taken_def)
  then show "tracks s p' (tr @ [mv]) (stepped s n' fl N)" using p'(1) by (simp add: tracks_def)
  show "explained lk s gs p'" using log p'(1) by (auto simp: explained_def)
  have "handed (sy_proc S s) p' = fresh_sent (nt_node N s) n'" using q p'(1) mirrorsD(1) [OF at q] by (simp add: handed_def)
  then show "mset (sy_flight S @ handed (sy_proc S s) p') + gs + g (other s) \<subseteq># mset (nt_flight (stepped s n' fl N))"
    using flight by (simp add: subset_mset.add_mono ac_simps)
qed (use mv(2) in \<open>cases s; simp add: local_moves_snoc\<close>)+

text \<open>The core takes a datagram from its channel: one that is in flight, or one that does not open.\<close>

lemma core_datagram:
  assumes at: "mirrors lk g S tr N" and q: "pr_core (sy_proc S s) = Some n"
    and p': "pr_core p' = Some n'" "pr_taken p' = pr_taken (sy_proc S s) @ [(now, Datagram bs)]"
    and step: "link_step lk s (now, Datagram bs) n = Some n'"
    and log: "image_mset Datagram (g s + f) = add_mset (Datagram bs) (mset (backlog p'))"
    and f: "\<forall>bs \<in># f. \<not> opens lk s n bs \<and> \<not> opens lk s n' bs"
  shows "can_follow lk False tr N (turned s p' S)"
proof (cases "bs \<in># g s")
  case True
  note d = mirrorsD [OF at q]
  from True obtain gs where gs: "g s = add_mset bs gs" by (metis mset_add)
  then have "bs \<in># mset (nt_flight N)" using d(4) by (auto dest: mset_subset_eqD)
  then obtain i where i: "i < length (nt_flight N)" "nt_flight N ! i = bs" by (auto simp: in_set_conv_nth)
  have fl: "mset (sy_flight S) + gs + g (other s) \<subseteq># mset (drop_at i (nt_flight N))"
    using d(4) mset_drop_at [OF i(1)] i(2) gs by (simp add: add.assoc)
  have "net_step lk N (Deliver s now i) (stepped s n' (drop_at i (nt_flight N)) N)"
    using net_deliver [OF i(1), of lk s now n'] i(2) step d(1) by simp
  moreover have "mirrors lk (g(s := gs)) (turned s p' S) (tr @ [Deliver s now i]) (stepped s n' (drop_at i (nt_flight N)) N)"
    using log gs f fl by (intro core_moved [OF at q p', of gs f]) simp_all
  ultimately show ?thesis by (rule follow_move) simp
next
  case False
  note d = mirrorsD [OF at q]
  have "Datagram bs \<in># image_mset Datagram (g s + f)" unfolding log by simp
  then obtain f' where f': "f = add_mset bs f'" using False by (auto dest: multi_member_split)
  then have "net_step lk N (Inject s now bs) (stepped s n' (nt_flight N) N)"
    using net_inject [of lk s N bs now n'] f step d(1) by simp
  moreover have "mirrors lk (g(s := g s)) (turned s p' S) (tr @ [Inject s now bs]) (stepped s n' (nt_flight N) N)"
    using log f' f d(4) by (intro core_moved [OF at q p', of "g s" f']) simp_all
  ultimately show ?thesis by (rule follow_move) simp
qed

lemma core_mirrors:
  assumes L: "sodium_contract (l_lib lk)" and at: "mirrors lk g S tr N" and ks: "ks_inv (n_world (nt_node N s)) (l_store lk s)"
    and turn: "core_turn (l_host lk s) (l_lib lk) (l_cfg lk s) (l_store lk s) (l_epoch lk) now (sy_proc S s) = Some p'"
    and loc: "\<forall>ev \<in> set (pr_queue (sy_proc S s)). is_datagram ev \<or> local_event ev"
  shows "can_follow lk False tr N (turned s p' S)"
proof -
  obtain n ev rest where q: "pr_core (sy_proc S s) = Some n" "pr_queue (sy_proc S s) = ev # rest"
    and p': "p' = (sy_proc S s)\<lparr>pr_core := link_step lk s (now, ev) n, pr_taken := pr_taken (sy_proc S s) @ [(now, ev)], pr_queue := rest\<rparr>"
    using turn by (auto simp: core_turn_def split: option.splits list.splits)
  note d = mirrorsD [OF at q(1)]
  obtain f where f: "mset (backlog (sy_proc S s)) = image_mset Datagram (g s + f)" "\<forall>bs \<in># f. \<not> opens lk s n bs" using d(3) by blast
  have log: "mset (backlog (sy_proc S s)) = (if is_datagram ev then {#ev#} else {#}) + mset (backlog p')"
    by (simp add: p' q(2) backlog_def udp_left_def)
  show ?thesis
  proof (cases "link_step lk s (now, ev) n")
    case None
    have "tracks s p' tr N" "explained lk s (g s) p'" "handed (sy_proc S s) p' = []"
      using None q(1) d(2) by (auto simp: p' tracks_def explained_def handed_def local_taken_def)
    then have "mirrors lk (g(s := g s)) (turned s p' S) tr N" using d(4) by (intro mirrors_update [OF at]) simp_all
    then show ?thesis by (rule follow_skip)
  next
    case (Some n')
    have core: "pr_core p' = Some n'" "pr_taken p' = pr_taken (sy_proc S s) @ [(now, ev)]" using Some by (simp_all add: p')
    have "heap (n_world n') = heap (n_world n)" using node_step_kv [OF L _ Some] ks d(1) by simp
    then have shut: "\<forall>bs \<in># f. \<not> opens lk s n bs \<and> \<not> opens lk s n' bs" using opens_heap [OF L] ks d(1) f(2) by blast
    show ?thesis
    proof (cases "is_datagram ev")
      case True
      then obtain bs where "ev = Datagram bs" by (cases ev) simp_all
      then show ?thesis using core_datagram [OF at q(1), of p' n' now bs f] core Some log f(1) shut by simp
    next
      case False
      then have "net_step lk N (Local s now ev) (stepped s n' (nt_flight N) N)"
        using net_local [of ev lk s now N n'] loc q(2) Some d(1) by auto
      moreover have "local_of (other s) (Local s now ev) = None" by (cases s) simp_all
      then have "mirrors lk (g(s := g s)) (turned s p' S) (tr @ [Local s now ev]) (stepped s n' (nt_flight N) N)"
        using False log f(1) shut d(4) by (intro core_moved [OF at q(1) core, of "g s" f]) simp_all
      ultimately show ?thesis by (rule follow_move) simp
    qed
  qed
qed

text \<open>A datagram reaches the socket.\<close>

lemma backlog_arrive:
  "backlog (arrive (RecvFailed m) p) = backlog p"
  "backlog (arrive (Received bs) p) = backlog p \<or> backlog (arrive (Received bs) p) = backlog p @ [Datagram (take MAX_DATAGRAM bs)]"
  using arrive_left by (simp_all add: backlog_def)

lemma tracks_arrive: "tracks s (arrive x p) tr N = tracks s p tr N"
  by (simp add: tracks_def local_taken_def)

lemma arrive_mirrors:
  assumes at: "mirrors lk g S tr N" and i: "i < length (sy_flight S)" "length (sy_flight S ! i) \<le> MAX_DATAGRAM"
  shows "can_follow lk False tr N (S\<lparr>sy_proc := (sy_proc S)(s := arrive (Received (sy_flight S ! i)) (sy_proc S s)),
    sy_flight := drop_at i (sy_flight S)\<rparr>)" (is "can_follow _ _ _ _ ?S'")
proof -
  let ?bs = "sy_flight S ! i" and ?p = "sy_proc S s" and ?p' = "arrive (Received (sy_flight S ! i)) (sy_proc S s)"
  have t: "tracks s ?p' tr N" using at by (simp add: mirrors_def tracks_arrive)
  have e: "explained lk s (g s) ?p" and fl: "mset (sy_flight S) + g s + g (other s) \<subseteq># mset (nt_flight N)"
    using at side_sum [of g s] by (simp_all add: mirrors_def add.assoc)
  note m = mset_drop_at [OF i(1)]
  show ?thesis
  proof (cases "backlog ?p' = backlog ?p")
    case True
    then have "explained lk s (g s) ?p'" using e by (simp add: explained_def)
    moreover have "mset (drop_at i (sy_flight S)) + g s + g (other s) \<subseteq># mset (nt_flight N)"
      using fl unfolding m by (auto dest!: mset_subset_eq_insertD)
    ultimately have "mirrors lk (g(s := g s)) ?S' tr N" by (intro mirrors_update [OF at t]) simp_all
    then show ?thesis by (rule follow_skip)
  next
    case False
    then have "backlog ?p' = backlog ?p @ [Datagram ?bs]" using backlog_arrive(2) [of ?bs ?p] i(2) by simp
    then have "explained lk s (add_mset ?bs (g s)) ?p'" using e by (simp add: explained_def)
    moreover have "mset (drop_at i (sy_flight S)) + add_mset ?bs (g s) + g (other s) \<subseteq># mset (nt_flight N)"
      using fl unfolding m by simp
    ultimately have "mirrors lk (g(s := add_mset ?bs (g s))) ?S' tr N" by (intro mirrors_update [OF at t]) simp_all
    then show ?thesis by (rule follow_skip)
  qed
qed

lemma forge_mirrors:
  assumes at: "mirrors lk g S tr N" and bs: "\<forall>n. pr_core (sy_proc S s) = Some n \<longrightarrow> \<not> opens lk s n (take MAX_DATAGRAM bs)"
  shows "can_follow lk False tr N (S\<lparr>sy_proc := (sy_proc S)(s := arrive (Received bs) (sy_proc S s))\<rparr>)"
proof -
  let ?p = "sy_proc S s" and ?p' = "arrive (Received bs) (sy_proc S s)"
  have t: "tracks s ?p' tr N" using at by (simp add: mirrors_def tracks_arrive)
  have e: "explained lk s (g s) ?p" and fl: "mset (sy_flight S) + g s + g (other s) \<subseteq># mset (nt_flight N)"
    using at side_sum [of g s] by (simp_all add: mirrors_def add.assoc)
  have "explained lk s (g s) ?p'"
    unfolding explained_def
  proof (intro allI impI)
    fix n assume n: "pr_core ?p' = Some n"
    then obtain f where f: "mset (backlog ?p) = image_mset Datagram (g s + f)" "\<forall>bs \<in># f. \<not> opens lk s n bs"
      using e by (auto simp: explained_def)
    show "\<exists>f. mset (backlog ?p') = image_mset Datagram (g s + f) \<and> (\<forall>bs \<in># f. \<not> opens lk s n bs)"
    proof (cases "backlog ?p' = backlog ?p")
      case False
      then have "backlog ?p' = backlog ?p @ [Datagram (take MAX_DATAGRAM bs)]" using backlog_arrive(2) [of bs ?p] by simp
      then show ?thesis using f bs n by (intro exI [of _ "add_mset (take MAX_DATAGRAM bs) f"]) simp
    qed (use f in auto)
  qed
  from mirrors_update [OF at t this _ _ fl] show ?thesis by (intro follow_skip [of _ "g(s := g s)"]) simp
qed

text \<open>Datagrams in flight fit the buffer of the UDP reader.\<close>

lemma flight_fits:
  assumes "sodium_contract (l_lib lk)" "net_inv lk key m0 asked dup N" "bs \<in> set (nt_flight N)"
  shows "length bs \<le> MAX_DATAGRAM"
proof -
  obtain ms where at: "net_ok lk key N" "labelled lk key (nt_flight N) ms" using assms(2) by (auto simp: net_inv_def net_at_def)
  have "length key = KEYBYTES"
    using at(1) ks.look_ok [of "(n_world (nt_node N NodeA), l_store lk NodeA)" "c_peer_id (l_cfg lk NodeA)" "l_epoch lk" key]
    by (auto simp: net_ok_def linked_def)
  moreover obtain s m where "carries (l_lib lk) (l_epoch lk) key (l_cfg lk s) m bs"
    using at(2) assms(3) by (fastforce simp: labelled_def list_all2_conv_all_nth in_set_conv_nth)
  ultimately show ?thesis using length_std_frame [OF sodium_contractD(1) [OF assms(1)]]
    by (auto simp: carries_def MAX_DATAGRAM_def standard_sizes MAX_UDP_DATAGRAM_def)
qed

fun is_copy :: "sys_move \<Rightarrow> bool" where
  "is_copy (Copy _) = True"
| "is_copy _ = False"

lemma sys_step_mirrors:
  assumes L: "sodium_contract (l_lib lk)" and ok: "sys_ok lk N0 accepts S" and net: "net_inv lk key m0 asked dup N"
    and at: "mirrors lk g S tr N" and step: "sys_step lk S mv S'"
  shows "can_follow lk (is_copy mv) tr N S'"
  using step
proof cases
  case (sys_turn s t u p')
  then have turn: "thread_turn (l_host lk s) (l_lib lk) (l_cfg lk s) (l_store lk s) (l_epoch lk) t (sy_proc S s) = Some p'"
    by (auto simp: process_turn_def split: if_splits)
  show ?thesis
  proof (cases "\<exists>now. t = CoreTurn now")
    case True
    then obtain now where now: "t = CoreTurn now" by blast
    have "ks_inv (n_world (nt_node N s)) (l_store lk s)" using net by (auto simp: net_inv_def net_at_def net_ok_def linked_def)
    moreover have "\<forall>ev \<in> set (pr_queue (sy_proc S s)). is_datagram ev \<or> local_event ev"
      using ok posted_local unfolding sys_ok_def by (metis Un_iff posted_def set_append)
    ultimately show ?thesis using core_mirrors [OF L at, of s now p'] turn now sys_turn by simp
  next
    case False
    note q = producer_turn [OF turn]
    from False q have "mirrors lk g (S\<lparr>sy_proc := (sy_proc S)(s := p')\<rparr>) tr N" by (intro mirrors_quiet [OF at]) blast+
    then show ?thesis using False q handed_quiet sys_turn by (intro follow_skip [of _ g]) simp
  qed
next
  case (sys_arrive i s)
  then have "sy_flight S ! i \<in> set (nt_flight N)" using mirrors_flight [OF at] by simp
  then show ?thesis using arrive_mirrors [OF at sys_arrive(3)] flight_fits [OF L net] sys_arrive by simp
next
  case (sys_forge s bs)
  then show ?thesis using forge_mirrors [OF at] by simp
next
  case (sys_fail s m)
  then show ?thesis using mirrors_quiet [OF at, of "arrive (RecvFailed m) (sy_proc S s)" s] backlog_arrive(1)
    by (intro follow_skip [of _ g]) simp
next
  case (sys_copy i)
  then have "sy_flight S ! i \<in> set (nt_flight N)" using mirrors_flight [OF at] by simp
  then obtain j where j: "j < length (nt_flight N)" "nt_flight N ! j = sy_flight S ! i" by (auto simp: in_set_conv_nth)
  have "mirrors lk g S' (tr @ [Duplicate j]) (N\<lparr>nt_flight := nt_flight N @ [nt_flight N ! j]\<rparr>)"
    using at j(2) unfolding sys_copy(2) by (simp add: mirrors_def tracks_def local_moves_snoc add.assoc)
  from follow_move [OF net_duplicate [OF j(1)] this] sys_copy(1) show ?thesis by simp
next
  case (sys_discard i)
  have "mirrors lk g S' tr N" using at mset_drop_at [OF sys_discard(3)] unfolding sys_discard(2)
    by (auto simp: mirrors_def dest!: mset_subset_eq_insertD)
  then show ?thesis by (rule follow_skip)
qed

lemma sys_run_mirrors:
  assumes "sys_run lk (sys_start N0 accepts) mvs S" "sodium_contract (l_lib lk)" "net_start lk N0"
  shows "\<exists>g tr N. net_run lk N0 tr N \<and> mirrors lk g S tr N \<and> ((\<exists>mv \<in> set tr. duplicates mv) \<longrightarrow> (\<exists>mv \<in> set mvs. is_copy mv))"
  using assms(1)
proof (induction rule: sys_run.induct)
  case sys_begin
  have "mirrors lk (\<lambda>_. {#}) (sys_start N0 accepts) [] N0"
    by (simp add: mirrors_def sys_start_def tracks_def explained_def local_moves_def local_taken_def backlog_def process_start_def udp_left_def)
  then show ?case using run_start by fastforce
next
  case (sys_next mvs S mv S')
  then obtain g tr N where IH: "net_run lk N0 tr N" "mirrors lk g S tr N" "(\<exists>mv \<in> set tr. duplicates mv) \<longrightarrow> (\<exists>mv \<in> set mvs. is_copy mv)"
    by blast
  have p: "link_paired lk" using assms(3) by (simp add: net_start_def)
  from sys_step_mirrors [OF assms(2) sys_ok_run [OF sys_next(1)] net_run_inv [OF IH(1) assms(2) p net_start_inv [OF assms(2,3)]] IH(2) sys_next(2)]
  obtain g' tr' N' where f: "follows lk (is_copy mv) tr N tr' N'" "mirrors lk g' S' tr' N'" by blast
  have "net_run lk N0 tr' N'" using f(1) IH(1) run_step by (auto simp: follows_def)
  moreover have "(\<exists>mv \<in> set tr'. duplicates mv) \<longrightarrow> (\<exists>mv' \<in> set (mvs @ [mv]). is_copy mv')" using f(1) IH(3) by (auto simp: follows_def)
  ultimately show ?case using f(2) by blast
qed

section \<open>What clients asked for\<close>

text \<open>The operations in the frames that the core threads have taken.\<close>

definition event_ops :: "host \<Rightarrow> (nat \<times> event) list \<Rightarrow> op list" where
  "event_ops H xs = List.map_filter (\<lambda>x. client_op H (snd x)) xs"

definition taken_ops :: "pair_link \<Rightarrow> system \<Rightarrow> op list" where
  "taken_ops lk S = event_ops (l_host lk NodeA) (pr_taken (sy_proc S NodeA)) @ event_ops (l_host lk NodeB) (pr_taken (sy_proc S NodeB))"

lemma event_ops_append: "event_ops H (xs @ ys) = event_ops H xs @ event_ops H ys"
  by (simp add: event_ops_def map_filter_def)

lemma event_ops_local: "event_ops H (local_taken p) = event_ops H (pr_taken p)"
proof -
  have "client_op H ev = None" if "is_datagram ev" for ev using that by (cases ev) simp_all
  then have "event_ops H (filter (\<lambda>x. \<not> is_datagram (snd x)) xs) = event_ops H xs" for xs
    by (induction xs) (auto simp: event_ops_def split: option.split)
  then show ?thesis by (simp add: local_taken_def)
qed

lemma client_ops_local_moves:
  "mset (client_ops lk tr) = mset (event_ops (l_host lk NodeA) (local_moves NodeA tr)) + mset (event_ops (l_host lk NodeB) (local_moves NodeB tr))"
proof (induction tr rule: rev_induct)
  case (snoc mv tr)
  have "mset (move_ops lk mv) = mset (event_ops (l_host lk NodeA) (local_moves NodeA [mv])) + mset (event_ops (l_host lk NodeB) (local_moves NodeB [mv]))"
  proof (cases mv)
    case (Local s t ev)
    then show ?thesis by (cases s) (auto simp: local_moves_def event_ops_def split: option.split)
  qed (simp_all add: local_moves_def event_ops_def)
  moreover have "local_moves s (tr @ [mv]) = local_moves s tr @ local_moves s [mv]" for s by (simp add: local_moves_def map_filter_def)
  ultimately show ?case using snoc by (simp add: event_ops_append)
qed (simp add: client_ops_def local_moves_def event_ops_def)

lemma tracked_ops:
  assumes "mirrors lk g S tr N"
  shows "mset (client_ops lk tr) \<subseteq># mset (taken_ops lk S)"
proof -
  have "mset (event_ops H (local_moves s tr)) \<subseteq># mset (event_ops H (pr_taken (sy_proc S s)))" for H s
    using assms event_ops_local [of H "sy_proc S s"] unfolding mirrors_def tracks_def prefix_def
    by (metis event_ops_append mset_append mset_subset_eq_add_left)
  then show ?thesis unfolding client_ops_local_moves taken_ops_def by (simp add: subset_mset.add_mono)
qed

text \<open>A frame that was taken came over the stream of its connection.\<close>

lemma taken_stream:
  assumes "process_inv H L cfg store e n0 recvs accepts p" "(t, ClientFrame conn fr) \<in> set (pr_taken p)"
  shows "\<exists>r. (conn, r) \<in> set (acceptor 0 accepts) \<and> ClientFrame conn fr \<in> set (client_thread conn r)"
proof -
  obtain cs where cs: "cs @ accept_left p = acceptor 0 accepts" "filter (of_conn conn) (posted p) @ reader_left p conn = events_of cs conn"
    using assms(1) by (auto simp: process_inv_def accepted_so_far_def)
  have "ClientFrame conn fr \<in> set (filter (of_conn conn) (posted p))" using assms(2) by (force simp: posted_def)
  then have "ClientFrame conn fr \<in> set (events_of cs conn)" unfolding cs(2) [symmetric] by simp
  then obtain r where "map_of cs conn = Some r" "ClientFrame conn fr \<in> set (client_thread conn r)"
    unfolding events_of_def connection_events_def by (cases "map_of cs conn") auto
  moreover have "set cs \<subseteq> set (acceptor 0 accepts)" unfolding cs(1) [symmetric] by simp
  ultimately show ?thesis by (blast dest: map_of_SomeD)
qed

text \<open>No process of the system panics before the correlation ids run out.\<close>

lemma sys_alive:
  assumes "sys_run lk (sys_start N0 accepts) mvs S" "sodium_contract (l_lib lk)" "net_start lk N0"
    and "client_frames (pr_taken (sy_proc S s)) < 0xFFFFFFFFFFFFFFFF"
  shows "\<exists>n. pr_core (sy_proc S s) = Some n"
proof -
  obtain st w w' where r: "heap w = []" "length (c_key (l_cfg lk s)) = KEYBYTES"
    "run_setup (l_host lk s) (l_lib lk) (l_cfg lk s) st w = (Ok (l_store lk s, l_epoch lk, nt_node N0 s), w')"
    using assms(3) unfolding net_start_def by blast
  have "pr_core (sy_proc S s) = core_loop (l_host lk s) (l_lib lk) (l_cfg lk s) (l_store lk s) (l_epoch lk) (pr_taken (sy_proc S s)) (nt_node N0 s)"
    using sys_ok_run [OF assms(1)] by (auto simp: sys_ok_def process_inv_def)
  moreover have "n_next_corr (nt_node N0 s) = 0" using run_setup_ok [OF r(3)] by (auto simp: node_start_def)
  ultimately show ?thesis using core_loop_work [OF assms(2), of "l_cfg lk s" "l_store lk s" "nt_node N0 s" "pr_taken (sy_proc S s)"]
      run_setup_linked [OF assms(2) r] assms(4) by fastforce
qed

section \<open>A client of the system\<close>

lemma sys_turns:
  assumes "run_turns (l_host lk s) (l_lib lk) (l_cfg lk s) (l_store lk s) (l_epoch lk) ts (sy_proc S s) = Some p'" "sys_run lk S0 mvs S"
  shows "\<exists>S'. sys_run lk S0 (mvs @ map (Turn s) ts) S' \<and> sy_proc S' s = p' \<and> sy_proc S' (other s) = sy_proc S (other s)"
  using assms
proof (induction ts arbitrary: S mvs)
  case (Cons t ts)
  obtain u p1 where p1: "link_turn lk s t (sy_proc S s) = Some (u, p1)"
    "run_turns (l_host lk s) (l_lib lk) (l_cfg lk s) (l_store lk s) (l_epoch lk) ts p1 = Some p'"
    using Cons.prems(1) by (auto split: Option.bind_splits)
  have "other s \<noteq> s" by (cases s) simp_all
  then show ?case using Cons.IH [of "turned s p1 S" "mvs @ [Turn s t]"] p1(2) sys_next [OF Cons.prems(2) sys_turn [OF p1(1)]] by simp
qed auto

definition demo_accepts :: "side \<Rightarrow> accept_result list" where
  "demo_accepts s = (case s of NodeA \<Rightarrow> [Accepted demo_get_stream] | NodeB \<Rightarrow> [])"

lemma demo_link_fields:
  "l_lib demo_link = demo_sodium" "l_host demo_link s = demo_host" "l_epoch demo_link = Epoch 0"
  "l_cfg demo_link NodeA = demo_config 1 2" "l_store demo_link NodeA = demo_store 1 2 (Epoch 0)"
  by (simp_all add: demo_link_def)

lemma demo_system:
  "\<exists>S n. sys_run demo_link (sys_start demo_net demo_accepts) (map (Turn NodeA) demo_get_schedule) S \<and>
    pr_core (sy_proc S NodeA) = Some n \<and> n_written n = [(1, message_bytes (Some (str ''r'')) (timeout_reply (demo_config 1 2)), True)] \<and>
    (\<forall>s. client_frames (pr_taken (sy_proc S s)) < 0xFFFFFFFFFFFFFFFF)"
proof -
  let ?S0 = "sys_start demo_net demo_accepts"
  obtain p n where p: "run_turns demo_host demo_sodium (demo_config 1 2) (demo_store 1 2 (Epoch 0)) (Epoch 0) demo_get_schedule
      (process_start (node_start demo_world stats_init (banner (demo_config 1 2))) [] [Accepted demo_get_stream]) = Some p" "pr_core p = Some n"
    "pr_taken p = [(0, ClientUp 1), (0, ClientFrame 1 demo_get)] @ [(5000, Tick)]"
    "n_written n = [(1, message_bytes (Some (str ''r'')) (timeout_reply (demo_config 1 2)), True)]"
    using demo_get_process by blast
  have S0: "sy_proc ?S0 NodeA = process_start (node_start demo_world stats_init (banner (demo_config 1 2))) [] [Accepted demo_get_stream]"
    "pr_taken (sy_proc ?S0 NodeB) = []"
    by (simp_all add: sys_start_def demo_net_def demo_link_fields demo_accepts_def process_start_def)
  obtain S where S: "sys_run demo_link ?S0 (map (Turn NodeA) demo_get_schedule) S" "sy_proc S NodeA = p" "sy_proc S NodeB = sy_proc ?S0 NodeB"
    using sys_turns [of demo_link NodeA demo_get_schedule ?S0 p ?S0 "[]"] p(1) S0(1) sys_begin by (auto simp: demo_link_fields)
  have "client_frames (pr_taken (sy_proc S s)) < 0xFFFFFFFFFFFFFFFF" for s
    by (cases s) (use S(2,3) p(3) S0(2) in \<open>simp_all add: client_frames_def\<close>)
  then show ?thesis using S p by blast
qed

section \<open>Properties\<close>

text \<open>C8. The processes implement the network. Run two processes under any schedules of their threads, with
  any connections, while datagrams wait in sockets and channels, are reordered, duplicated and
  lost, and sockets fail: what the core threads are in is a state of two nodes on the abstract network
  after the same client events in the same order, with no duplication unless one happened.\<close>

theorem system_refines_network:
  assumes "sodium_contract (l_lib lk)" "net_start lk N0" "sys_run lk (sys_start N0 accepts) mvs S"
  shows "\<exists>tr N. net_run lk N0 tr N \<and> ((\<forall>i. Copy i \<notin> set mvs) \<longrightarrow> (\<forall>i. Duplicate i \<notin> set tr)) \<and>
    (\<forall>s n. pr_core (sy_proc S s) = Some n \<longrightarrow> nt_node N s = n \<and>
      local_moves s tr = filter (\<lambda>x. \<not> is_datagram (snd x)) (pr_taken (sy_proc S s)))"
proof -
  obtain g tr N where r: "net_run lk N0 tr N" "mirrors lk g S tr N" "(\<exists>mv \<in> set tr. duplicates mv) \<longrightarrow> (\<exists>mv \<in> set mvs. is_copy mv)"
    using sys_run_mirrors [OF assms(3,1,2)] by blast
  have "is_copy mv \<longleftrightarrow> (\<exists>i. mv = Copy i)" for mv by (cases mv) simp_all
  then have "(\<forall>i. Copy i \<notin> set mvs) \<longrightarrow> (\<forall>i. Duplicate i \<notin> set tr)" using r(3) by (metis duplicates.simps(1))
  then show ?thesis using r(1) mirrorsD(1,2) [OF r(2)] unfolding local_taken_def by blast
qed

theorem system_refines_network_witness:
  "\<exists>S n tr N. sys_run demo_link (sys_start demo_net demo_accepts) (map (Turn NodeA) demo_get_schedule) S \<and>
    pr_core (sy_proc S NodeA) = Some n \<and> net_run demo_link demo_net tr N \<and> nt_node N NodeA = n"
proof -
  have c: "sodium_contract (l_lib demo_link)" by (simp add: demo_link_fields demo_contract)
  obtain S n where S: "sys_run demo_link (sys_start demo_net demo_accepts) (map (Turn NodeA) demo_get_schedule) S" "pr_core (sy_proc S NodeA) = Some n"
    using demo_system by blast
  from system_refines_network [OF c demo_net_start S(1)] S show ?thesis by blast
qed

text \<open>C7. The pair serves its clients and nobody else. While fewer than 2^64 - 1 frames are taken at either node,
  neither process panics, whatever the schedules and the network do; the map of the pair is the
  result of operations that clients sent, each applied at most as often as it was sent unless the network
  duplicates; and every frame written to a connection answers a frame that came over its stream.\<close>

theorem system_serves_clients:
  assumes "sodium_contract (l_lib lk)" "net_start lk N0" "sys_run lk (sys_start N0 accepts) mvs S"
    and "\<forall>s. client_frames (pr_taken (sy_proc S s)) < 0xFFFFFFFFFFFFFFFF"
  shows "\<exists>n. (\<forall>s. pr_core (sy_proc S s) = Some (n s)) \<and>
    (\<exists>ops. pair_map (l_cfg lk NodeA) (n NodeA) (n NodeB) = fold map_effect ops Map.empty \<and> set ops \<subseteq> set (taken_ops lk S) \<and>
      ((\<forall>i. Copy i \<notin> set mvs) \<longrightarrow> mset ops \<subseteq># mset (taken_ops lk S))) \<and>
    (\<forall>s conn bs fine. (conn, bs, fine) \<in> set (n_written (n s)) \<longrightarrow>
      (\<exists>r fr. (conn, r) \<in> set (acceptor 0 (accepts s)) \<and> ClientFrame conn fr \<in> set (client_thread conn r) \<and>
        answers_frame (l_host lk s) (c_id (l_cfg lk s)) (taken_ops lk S) fr bs))"
proof -
  obtain n where n: "pr_core (sy_proc S s) = Some (n s)" for s using sys_alive [OF assms(3,1,2)] assms(4) by metis
  obtain g tr N where r: "net_run lk N0 tr N" "mirrors lk g S tr N" "(\<exists>mv \<in> set tr. duplicates mv) \<longrightarrow> (\<exists>mv \<in> set mvs. is_copy mv)"
    using sys_run_mirrors [OF assms(3,1,2)] by blast
  note d = mirrorsD(1,2) [OF r(2) n] and sub = tracked_ops [OF r(2)]
  have "is_copy mv \<longleftrightarrow> (\<exists>i. mv = Copy i)" for mv by (cases mv) simp_all
  then have quiet: "(\<forall>i. Copy i \<notin> set mvs) \<Longrightarrow> (\<forall>i. Duplicate i \<notin> set tr)" using r(3) by (metis duplicates.simps(1))
  obtain ops where ops: "net_map lk N = fold map_effect ops Map.empty" "set ops \<subseteq> set (client_ops lk tr)"
    "(\<forall>i. Duplicate i \<notin> set tr) \<longrightarrow> mset ops \<subseteq># mset (client_ops lk tr)" using net_run_ops [OF assms(1,2) r(1)] by blast
  have "\<exists>r fr. (conn, r) \<in> set (acceptor 0 (accepts s)) \<and> ClientFrame conn fr \<in> set (client_thread conn r) \<and>
      answers_frame (l_host lk s) (c_id (l_cfg lk s)) (taken_ops lk S) fr bs" if w: "(conn, bs, fine) \<in> set (n_written (n s))" for s conn bs fine
  proof -
    obtain t fr where fr: "Local s t (ClientFrame conn fr) \<in> set tr" "answers_frame (l_host lk s) (c_id (l_cfg lk s)) (client_ops lk tr) fr bs"
      using written_answers [OF r(1) assms(1,2)] w d(1) by metis
    have "(t, ClientFrame conn fr) \<in> set (local_moves s tr)" using fr(1) by (force simp: local_moves_def map_filter_def)
    then have "(t, ClientFrame conn fr) \<in> set (pr_taken (sy_proc S s))" unfolding d(2) by (simp add: local_taken_def)
    then show ?thesis using taken_stream sys_ok_run [OF assms(3)] answers_frame_mono [OF fr(2) set_mset_mono [OF sub, simplified]]
      unfolding sys_ok_def by metis
  qed
  moreover have "set ops \<subseteq> set (taken_ops lk S)" using ops(2) set_mset_mono [OF sub] by auto
  moreover have "mset ops \<subseteq># mset (taken_ops lk S)" if "\<forall>i. Copy i \<notin> set mvs"
    using ops(3) quiet [OF that] sub subset_mset.order_trans by blast
  ultimately show ?thesis using n ops(1) d(1) by (intro exI [of _ n]) auto
qed

theorem system_serves_clients_witness:
  "\<exists>S n fr. sys_run demo_link (sys_start demo_net demo_accepts) (map (Turn NodeA) demo_get_schedule) S \<and>
    pr_core (sy_proc S NodeA) = Some n \<and> ClientFrame 1 fr \<in> set (client_thread 1 demo_get_stream) \<and>
    answers_frame demo_host 1 (taken_ops demo_link S) fr (message_bytes (Some (str ''r'')) (timeout_reply (demo_config 1 2)))"
proof -
  have c: "sodium_contract (l_lib demo_link)" by (simp add: demo_link_fields demo_contract)
  obtain S n where S: "sys_run demo_link (sys_start demo_net demo_accepts) (map (Turn NodeA) demo_get_schedule) S" "pr_core (sy_proc S NodeA) = Some n"
    "n_written n = [(1, message_bytes (Some (str ''r'')) (timeout_reply (demo_config 1 2)), True)]"
    "\<forall>s. client_frames (pr_taken (sy_proc S s)) < 0xFFFFFFFFFFFFFFFF" using demo_system by blast
  have w: "(1, message_bytes (Some (str ''r'')) (timeout_reply (demo_config 1 2)), True) \<in> set (n_written n)" using S(3) by simp
  have acc: "set (acceptor 0 (demo_accepts NodeA)) = {(1, demo_get_stream)}" by (simp add: demo_accepts_def)
  have me: "c_id (l_cfg demo_link NodeA) = 1" by (simp add: demo_link_fields demo_config_def)
  from system_serves_clients [OF c demo_net_start S(1,4)] obtain n' where n': "\<forall>s. pr_core (sy_proc S s) = Some (n' s)"
    "\<forall>s conn bs fine. (conn, bs, fine) \<in> set (n_written (n' s)) \<longrightarrow>
      (\<exists>r fr. (conn, r) \<in> set (acceptor 0 (demo_accepts s)) \<and> ClientFrame conn fr \<in> set (client_thread conn r) \<and>
        answers_frame (l_host demo_link s) (c_id (l_cfg demo_link s)) (taken_ops demo_link S) fr bs)" by blast
  have "n' NodeA = n" using n'(1) S(2) by simp
  from n'(2) [rule_format, of _ _ _ NodeA, unfolded this, OF w] show ?thesis
    unfolding acc me demo_link_fields(2) using S(1,2) by blast
qed

end
