(* ===== verification/Vectors.thy ===== *)
theory Vectors
  imports Dek_Fanout
begin

text \<open>
  The fixed-input vectors of \<open>src/src/vectors.rs\<close>: the inputs, the published frames, and the stores
  the tests build. The model lays a frame out exactly as published: the deterministic seams return
  the published bytes if and only if AES-256-GCM gives the published ciphertexts on the published
  inputs.
\<close>

definition PSK :: bytes where
  "PSK = [0xA1, 0xB2, 0xC3, 0xD4, 0xE5, 0xF6, 0x07, 0x18, 0x29, 0x3A, 0x4B, 0x5C, 0x6D, 0x7E, 0x8F, 0x90,
     0x13, 0x24, 0x35, 0x46, 0x57, 0x68, 0x79, 0x8A, 0x9B, 0xAC, 0xBD, 0xCE, 0xDF, 0xE0, 0xF1, 0x02]"

definition FROM :: u16 where "FROM = 0x0A0B"

definition TO :: u16 where "TO = 0x0C0D"

definition CHANNEL :: u32 where "CHANNEL = 0x0E0F"

definition VECTOR_EPOCH :: u8 where "VECTOR_EPOCH = 9"

definition NONCE :: bytes where
  "NONCE = [0xC0, 0xC1, 0xC2, 0xC3, 0xC4, 0xC5, 0xC6, 0xC7, 0xC8, 0xC9, 0xCA, 0xCB]"

definition V2 :: bytes where "V2 = as_bytes (str ''paxe vector v2: standard short payload'')"

definition V2_FRAME_HEX :: ustr where
  "V2_FRAME_HEX = str (
     ''0a0b0c0d00000e0f4cc0c1c2c3c4c5c6'' @
     ''c7c8c9cacb11e08e8e015385ddbc7e77'' @
     ''1d411ecffe2a26717d89c5bc800ee4e3'' @
     ''3262fe2f6d78a58b8a02e23c46700ed4'' @
     ''190d85d57aa0d74052b6ea'')"

definition FANOUT_PAYLOAD :: bytes where "FANOUT_PAYLOAD = as_bytes (str ''fixed reusable-DEK vector'')"

definition FANOUT_DEK :: bytes where "FANOUT_DEK = replicate KEYBYTES 0xE0"

definition FANOUT_BODY_NONCE :: bytes where "FANOUT_BODY_NONCE = replicate NPUBBYTES 0xD0"

definition FANOUT_ENVELOPE_NONCES :: "bytes list" where
  "FANOUT_ENVELOPE_NONCES = [replicate NPUBBYTES 0xB0, replicate NPUBBYTES 0xB1]"

definition FANOUT_FIRST_FRAME_HEX :: ustr where
  "FANOUT_FIRST_FRAME_HEX = str (
     ''0a0b0c0d00000e0f4db0b0b0b0b0b0b0b0b0b0b0b0'' @
     ''c665b11725373b2d9daf03c359fb50ae3cc278c30626f74b0f7b18a58e3adf15'' @
     ''d75fb9dfb2a29beb0d08bea78e4c207b'' @
     ''d0d0d0d0d0d0d0d0d0d0d0d0'' @
     ''5187e7d3f6791322348227884ecce454c12d780f76a3e7020e'' @
     ''4410681f921c4c96cfbd93f92384fdbd'')"

definition FANOUT_SECOND_FRAME_HEX :: ustr where
  "FANOUT_SECOND_FRAME_HEX = str (
     ''0a0b0c0e00000e0f45b1b1b1b1b1b1b1b1b1b1b1b1'' @
     ''73e405815863bcfc7997415ba535082c35316fd14fa1a3011d2102dc8589fa80'' @
     ''852e550a6cc330ee9418d9165e7ae43e'' @
     ''d0d0d0d0d0d0d0d0d0d0d0d0'' @
     ''5187e7d3f6791322348227884ecce454c12d780f76a3e7020e'' @
     ''4410681f921c4c96cfbd93f92384fdbd'')"

text \<open>\<open>None\<close> is a failed \<open>expect\<close>.\<close>

definition ep :: "u8 \<Rightarrow> epoch option" where
  "ep value = (case epoch_new value of Ok e \<Rightarrow> Some e | Err _ \<Rightarrow> None)"

definition gcm_ready :: "sodium_lib \<Rightarrow> world \<Rightarrow> bool \<times> world" where
  "gcm_ready L w =
     (case sodium_init L w of (Ok _, w1) \<Rightarrow> (aes_gcm_available L, w1) | (Err _, w1) \<Rightarrow> (False, w1))"

definition installed ::
  "sodium_lib \<Rightarrow> u16 \<Rightarrow> u8 \<Rightarrow> bytes \<Rightarrow> keystore \<times> world \<Rightarrow> (keystore \<times> world) option" where
  "installed L peer value key sw =
     (case sw of (store, w) \<Rightarrow>
        do {
          e \<leftarrow> ep value;
          (case install L peer e key w store of (Ok _, w1, store1) \<Rightarrow> Some (store1, w1) | (Err _, _, _) \<Rightarrow> None)
        })"

definition vector_store :: "sodium_lib \<Rightarrow> world \<Rightarrow> (keystore \<times> world) option" where
  "vector_store L w =
     (case keystore_new L FROM w of
        (Ok store, w1) \<Rightarrow> installed L TO VECTOR_EPOCH PSK (store, w1)
      | (Err _, _) \<Rightarrow> None)"

fun unhex :: "bytes \<Rightarrow> bytes option" where
  "unhex (a # b # rest) =
     do {
       high \<leftarrow> to_digit 16 (unat a);
       low \<leftarrow> to_digit 16 (unat b);
       bs \<leftarrow> unhex rest;
       Some (ucast (push_bit 4 (of_nat high :: u32) OR of_nat low) # bs)
     }"
| "unhex _ = Some []"

text \<open>The sender of the second test: a second recipient, on an older epoch.\<close>

definition vector_sender :: "sodium_lib \<Rightarrow> world \<Rightarrow> (keystore \<times> world) option" where
  "vector_sender L w = do { sw \<leftarrow> vector_store L w; installed L 0x0C0E 8 (replicate KEYBYTES 0x55) sw }"

section \<open>The published bytes\<close>

lemmas hex_simps = as_bytes_def utf8_char_def mk_byte_def to_digit_def

lemmas prefix_simps = FROM_def TO_def CHANNEL_def serialize_prefix_def flags_new_def header_to_bytes_def u16_to_be_bytes_def
  u32_to_be_bytes_def flags_to_byte_def DEK_BIT_def FIXED_PATTERN_def epoch_bits_def

lemma vector_sizes:
  "length PSK = KEYBYTES" "length NONCE = NPUBBYTES" "length V2 = 38" "length FANOUT_PAYLOAD = 25" "length FANOUT_DEK = KEYBYTES"
  "length FANOUT_BODY_NONCE = NPUBBYTES" "\<forall>en \<in> set FANOUT_ENVELOPE_NONCES. length en = NPUBBYTES" "length FANOUT_ENVELOPE_NONCES = 2"
  by (simp_all add: PSK_def NONCE_def V2_def FANOUT_PAYLOAD_def FANOUT_DEK_def FANOUT_BODY_NONCE_def FANOUT_ENVELOPE_NONCES_def
      sodium_sizes hex_simps)

lemma published_standard:
  assumes "unhex (as_bytes V2_FRAME_HEX) = Some f"
  shows "take 9 f = std_prefix FROM TO CHANNEL (Epoch 9)" "take 12 (drop 9 f) = NONCE"
  using assms by (auto simp: V2_FRAME_HEX_def hex_simps std_prefix_def NONCE_def prefix_simps)

lemma twelve: "replicate NPUBBYTES x = [x, x, x, x, x, x, x, x, x, x, x, x]"
  by (simp add: NPUBBYTES_def numeral_eq_Suc)

lemma published_first:
  assumes "unhex (as_bytes FANOUT_FIRST_FRAME_HEX) = Some f"
  shows "take 9 f = dek_prefix FROM TO CHANNEL (Epoch 9)" "take 12 (drop 9 f) = replicate NPUBBYTES 0xB0"
    "take 12 (drop 69 f) = FANOUT_BODY_NONCE" "length f = 122"
  using assms unfolding FANOUT_BODY_NONCE_def twelve
  by (auto simp: FANOUT_FIRST_FRAME_HEX_def hex_simps dek_prefix_def prefix_simps)

lemma published_second:
  assumes "unhex (as_bytes FANOUT_SECOND_FRAME_HEX) = Some f"
  shows "take 9 f = dek_prefix FROM 0x0C0E CHANNEL (Epoch 8)" "take 12 (drop 9 f) = replicate NPUBBYTES 0xB1"
    "take 12 (drop 69 f) = FANOUT_BODY_NONCE" "length f = 122"
  using assms unfolding FANOUT_BODY_NONCE_def twelve
  by (auto simp: FANOUT_SECOND_FRAME_HEX_def hex_simps dek_prefix_def prefix_simps)

lemma published_shared:
  assumes "unhex (as_bytes FANOUT_FIRST_FRAME_HEX) = Some f1" "unhex (as_bytes FANOUT_SECOND_FRAME_HEX) = Some f2"
  shows "drop 69 f2 = drop 69 f1"
  using assms by (auto simp: FANOUT_FIRST_FRAME_HEX_def FANOUT_SECOND_FRAME_HEX_def hex_simps)

section \<open>The stores of the tests\<close>

lemma ep_ok: "ep value = Some e \<Longrightarrow> e = Epoch value \<and> epoch_ok e"
  by (auto simp: ep_def epoch_new_def epoch_ok_def split: if_splits)

lemma installed_ok:
  assumes "memory_contract L" "ks_inv w store" "length key = KEYBYTES" "installed L peer value key (store, w) = Some (store1, w1)"
  shows "ks_inv w1 store1 \<and> ks_local_id store1 = ks_local_id store \<and>
    ks_abs w1 store1 = (ks_abs w store)((peer, Epoch value) \<mapsto> key)"
proof -
  obtain e where e: "e = Epoch value" "epoch_ok e" "install L peer e key w store = (Ok (), w1, store1)"
    using assms(4) by (auto simp: installed_def split: Option.bind_splits prod.splits sum.splits dest!: ep_ok)
  from install_refines [OF assms(1,2) e(2) assms(3) e(3)] e
  have "ks_inv w1 store1" "ks_abs w1 store1 = (ks_abs w store)((peer, Epoch value) \<mapsto> key)" by simp_all
  moreover have "ks_local_id store1 = ks_local_id store"
    using e(3) by (auto simp: install_def Let_def split: if_splits prod.splits sum.splits option.splits)
  ultimately show ?thesis by blast
qed

lemma vector_store_ok:
  assumes "memory_contract L" "heap w = []" "vector_store L w = Some (store, w1)"
  shows "ks_inv w1 store \<and> ks_local_id store = FROM \<and> ks_abs w1 store = [(TO, Epoch 9) \<mapsto> PSK]"
proof -
  obtain store0 w0 where k: "keystore_new L FROM w = (Ok store0, w0)" "installed L TO VECTOR_EPOCH PSK (store0, w0) = Some (store, w1)"
    using assms(3) by (auto simp: vector_store_def split: prod.splits sum.splits)
  have s: "store0 = \<lparr>ks_local_id = FROM, entries = []\<rparr>" "heap w0 = []"
    using k(1) assms(2) by (auto simp: keystore_new_def sodium_init_def Let_def split: prod.splits sum.splits if_splits)
  have "ks_abs w0 store0 = Map.empty" by (simp add: s(1) ks_abs_def bt_get_def fun_eq_iff)
  then show ?thesis
    using installed_ok [OF assms(1) _ vector_sizes(1) k(2)] ks_inv_fresh [OF s(2)] by (simp add: s(1) VECTOR_EPOCH_def)
qed

lemma vector_sender_ok:
  assumes "memory_contract L" "heap w = []" "vector_sender L w = Some (store, w1)"
  shows "ks_inv w1 store \<and> ks_local_id store = FROM \<and>
    current w1 store TO = Some (Epoch 9, PSK) \<and> current w1 store 0x0C0E = Some (Epoch 8, replicate KEYBYTES 0x55)"
proof -
  obtain sw where sw: "vector_store L w = Some sw" "installed L 0x0C0E 8 (replicate KEYBYTES 0x55) sw = Some (store, w1)"
    using assms(3) by (auto simp: vector_sender_def split: Option.bind_splits)
  obtain s0 w0 where s0: "sw = (s0, w0)" by fastforce
  note v = vector_store_ok [OF assms(1,2) sw(1) [unfolded s0]]
  have s: "ks_inv w1 store" "ks_local_id store = FROM"
    "ks_abs w1 store = [(TO, Epoch 9) \<mapsto> PSK, (0x0C0E, Epoch 8) \<mapsto> replicate KEYBYTES 0x55]"
    using installed_ok [OF assms(1) _ _ sw(2) [unfolded s0]] v by simp_all
  have cur: "current w1 store p = Some (e, k)" if "lookup w1 store p e = Some k" "\<And>d. lookup w1 store p d \<noteq> None \<Longrightarrow> d = e" for p e k
    using ks.newest_eqI [of "(w1, store)" p e k] s(1) that by fastforce
  have "current w1 store TO = Some (Epoch 9, PSK)" by (rule cur) (auto simp: lookup_abs s TO_def split: if_splits)
  moreover have "current w1 store 0x0C0E = Some (Epoch 8, replicate KEYBYTES 0x55)"
    by (rule cur) (auto simp: lookup_abs s TO_def split: if_splits)
  ultimately show ?thesis using s by blast
qed

section \<open>A frame cut at its fields\<close>

lemma std_frame_eq:
  assumes "take 9 f = std_prefix src to ch e" "take 12 (drop 9 f) = nonce" "length nonce = NPUBBYTES"
  shows "std_frame L key src to ch e nonce payload = f \<longleftrightarrow> gcm L key nonce (take 9 f) payload = drop 21 f"
proof
  assume "std_frame L key src to ch e nonce payload = f"
  then show "gcm L key nonce (take 9 f) payload = drop 21 f"
    using assms(3) by (auto simp: std_frame_def NPUBBYTES_def)
next
  assume "gcm L key nonce (take 9 f) payload = drop 21 f"
  then have "std_frame L key src to ch e nonce payload = take 9 f @ take 12 (drop 9 f) @ drop 21 f"
    using assms by (simp add: std_frame_def)
  also have "\<dots> = f" using append_take_drop_id [of 9 f] append_take_drop_id [of 12 "drop 9 f"] by simp
  finally show "std_frame L key src to ch e nonce payload = f" .
qed

lemma dek_frame_eq:
  assumes "aead_contract L" "length key = KEYBYTES" "length dek = KEYBYTES"
    and "take 9 f = dek_prefix src to ch e" "take 12 (drop 9 f) = en" "take 12 (drop 69 f) = bn"
    and "length en = NPUBBYTES" "length bn = NPUBBYTES" "length f = length payload + 97"
  shows "dek_frame L key src to ch e en dek bn payload = f \<longleftrightarrow>
    gcm L dek bn (body_aad src ch) payload = drop 81 f \<and>
    gcm L key en (take 9 f @ bn @ drop (length payload + 81) f) dek = take 48 (drop 21 f)"
proof -
  define B where "B = gcm L dek bn (body_aad src ch) payload"
  have lB: "length B = length payload + 16" using length_gcm [OF assms(1,3,8)] by (simp add: B_def ABYTES_def)
  have n: "length en = 12" "length bn = 12" using assms(7,8) by (simp_all add: NPUBBYTES_def)
  have lE: "length (gcm L key en a dek) = 48" for a
    using length_gcm [OF assms(1,2,7)] assms(3) by (simp add: sodium_sizes)
  have fr: "dek_frame L key src to ch e en dek bn payload =
      take 9 f @ en @ gcm L key en (take 9 f @ bn @ drop (length payload) B) dek @ bn @ B"
    by (simp add: dek_frame_def Let_def dek_body_def B_def [symmetric] lB n assms(4) envelope_aad_def ABYTES_def)
  have l9: "length (take 9 f) = 9" by (simp add: assms(4))
  show ?thesis
  proof
    assume "dek_frame L key src to ch e en dek bn payload = f"
    then have f: "f = take 9 f @ en @ gcm L key en (take 9 f @ bn @ drop (length payload) B) dek @ bn @ B" using fr by simp
    define p where "p = take 9 f"
    have f': "f = p @ en @ gcm L key en (p @ bn @ drop (length payload) B) dek @ bn @ B" using f by (simp only: p_def)
    have "length p = 9" using l9 by (simp add: p_def)
    then show "gcm L dek bn (body_aad src ch) payload = drop 81 f \<and>
        gcm L key en (take 9 f @ bn @ drop (length payload + 81) f) dek = take 48 (drop 21 f)"
      unfolding p_def [symmetric] B_def [symmetric] by (subst (1 2 3) f') (simp add: n lE lB)
  next
    assume r: "gcm L dek bn (body_aad src ch) payload = drop 81 f \<and>
        gcm L key en (take 9 f @ bn @ drop (length payload + 81) f) dek = take 48 (drop 21 f)"
    then have "drop (length payload) B = drop (length payload + 81) f" by (simp add: B_def)
    with r fr have "dek_frame L key src to ch e en dek bn payload =
        take 9 f @ take 12 (drop 9 f) @ take 48 (drop 21 f) @ take 12 (drop 69 f) @ drop 81 f"
      by (simp add: B_def assms(5,6))
    also have "\<dots> = f"
      using append_take_drop_id [of 9 f] append_take_drop_id [of 12 "drop 9 f"] append_take_drop_id [of 48 "drop 21 f"]
        append_take_drop_id [of 12 "drop 69 f"] by simp
    finally show "dek_frame L key src to ch e en dek bn payload = f" .
  qed
qed

section \<open>Properties\<close>

text \<open>C28. The published vectors. With the store of the tests, on any library that meets its contract, the
  deterministic seal of the published standard inputs is the published frame if and only if
  AES-256-GCM, under the published key and nonce with the first nine bytes of the frame as
  associated data, gives the rest of the frame; and the deterministic fanout is the two published
  frames if and only if it gives their common body and their two envelopes, whose associated data
  are the prefix, the body nonce and the body tag.\<close>

theorem published_vectors:
  assumes "sodium_contract L" "heap w = []" "vector_store L w = Some (store, w1)" "vector_sender L w = Some (sender, w2)"
    and "unhex (as_bytes V2_FRAME_HEX) = Some f" "unhex (as_bytes FANOUT_FIRST_FRAME_HEX) = Some f1"
    and "unhex (as_bytes FANOUT_SECOND_FRAME_HEX) = Some f2"
  shows "(seal_standard_deterministic L w1 store TO CHANNEL (Epoch 9) V2 NONCE = Some (Ok f) \<longleftrightarrow>
      gcm L PSK NONCE (take 9 f) V2 = drop 21 f) \<and>
    (map_option fst (seal_fanout_deterministic L sender [TO, 0x0C0E] CHANNEL FANOUT_PAYLOAD FANOUT_DEK FANOUT_BODY_NONCE
        FANOUT_ENVELOPE_NONCES w2) =
      Some (Ok [\<lparr>ff_to_id = TO, ff_epoch = Epoch 9, ff_frame = f1\<rparr>, \<lparr>ff_to_id = 0x0C0E, ff_epoch = Epoch 8, ff_frame = f2\<rparr>]) \<longleftrightarrow>
      gcm L FANOUT_DEK FANOUT_BODY_NONCE (body_aad FROM CHANNEL) FANOUT_PAYLOAD = drop 81 f1 \<and>
      gcm L PSK (FANOUT_ENVELOPE_NONCES ! 0) (take 9 f1 @ FANOUT_BODY_NONCE @ drop 106 f1) FANOUT_DEK = take 48 (drop 21 f1) \<and>
      gcm L (replicate KEYBYTES 0x55) (FANOUT_ENVELOPE_NONCES ! 1) (take 9 f2 @ FANOUT_BODY_NONCE @ drop 106 f2) FANOUT_DEK =
        take 48 (drop 21 f2))"
proof -
  note L = sodium_contractD [OF assms(1)] and z = vector_sizes
  note s = vector_store_ok [OF L(2) assms(2,3)] and t = vector_sender_ok [OF L(2) assms(2,4)]
  note p1 = published_first [OF assms(6)] and p2 = published_second [OF assms(7)]
  have k: "lookup w1 store TO (Epoch 9) = Some PSK" using s by (simp add: lookup_abs)
  have "seal_standard_deterministic L w1 store TO CHANNEL (Epoch 9) V2 NONCE =
      Some (Ok (std_frame L PSK FROM TO CHANNEL (Epoch 9) NONCE V2))"
    using s k length_std_frame [OF L(1) z(1,2), of FROM TO CHANNEL "Epoch 9" V2]
    by (simp add: seal_standard_deterministic_def seal_core_spec [OF L(1) _ z(2)] z standard_sizes)
  then have std: "seal_standard_deterministic L w1 store TO CHANNEL (Epoch 9) V2 NONCE = Some (Ok f) \<longleftrightarrow>
      gcm L PSK NONCE (take 9 f) V2 = drop 21 f"
    using std_frame_eq [OF published_standard [OF assms(5)] z(2), of L PSK V2] by simp
  have "fanout_accepts w2 sender [TO, 0x0C0E] FANOUT_PAYLOAD" using t by (simp add: fanout_accepts_def z TO_def)
  from seal_fanout_deterministic_ok [OF assms(1) conjunct1 [OF t] this z(5,6) _ z(7)] t
  have fan: "map_option fst (seal_fanout_deterministic L sender [TO, 0x0C0E] CHANNEL FANOUT_PAYLOAD FANOUT_DEK FANOUT_BODY_NONCE
        FANOUT_ENVELOPE_NONCES w2) =
      Some (Ok [\<lparr>ff_to_id = TO, ff_epoch = Epoch 9,
          ff_frame = dek_frame L PSK FROM TO CHANNEL (Epoch 9) (FANOUT_ENVELOPE_NONCES ! 0) FANOUT_DEK FANOUT_BODY_NONCE FANOUT_PAYLOAD\<rparr>,
        \<lparr>ff_to_id = 0x0C0E, ff_epoch = Epoch 8, ff_frame = dek_frame L (replicate KEYBYTES 0x55) FROM 0x0C0E CHANNEL (Epoch 8)
          (FANOUT_ENVELOPE_NONCES ! 1) FANOUT_DEK FANOUT_BODY_NONCE FANOUT_PAYLOAD\<rparr>])"
    by (simp add: FANOUT_ENVELOPE_NONCES_def fanout_entry_def)
  have en: "FANOUT_ENVELOPE_NONCES ! 0 = replicate NPUBBYTES 0xB0" "FANOUT_ENVELOPE_NONCES ! 1 = replicate NPUBBYTES 0xB1"
    by (simp_all add: FANOUT_ENVELOPE_NONCES_def)
  have d1: "dek_frame L PSK FROM TO CHANNEL (Epoch 9) (FANOUT_ENVELOPE_NONCES ! 0) FANOUT_DEK FANOUT_BODY_NONCE FANOUT_PAYLOAD = f1 \<longleftrightarrow>
      gcm L FANOUT_DEK FANOUT_BODY_NONCE (body_aad FROM CHANNEL) FANOUT_PAYLOAD = drop 81 f1 \<and>
      gcm L PSK (FANOUT_ENVELOPE_NONCES ! 0) (take 9 f1 @ FANOUT_BODY_NONCE @ drop 106 f1) FANOUT_DEK = take 48 (drop 21 f1)"
    using dek_frame_eq [OF L(1) z(1,5) p1(1) _ p1(3) _ z(6), of "FANOUT_ENVELOPE_NONCES ! 0" FANOUT_PAYLOAD] p1(2,4) z(4) en(1) by simp
  have d2: "dek_frame L (replicate KEYBYTES 0x55) FROM 0x0C0E CHANNEL (Epoch 8) (FANOUT_ENVELOPE_NONCES ! 1) FANOUT_DEK
        FANOUT_BODY_NONCE FANOUT_PAYLOAD = f2 \<longleftrightarrow>
      gcm L FANOUT_DEK FANOUT_BODY_NONCE (body_aad FROM CHANNEL) FANOUT_PAYLOAD = drop 81 f2 \<and>
      gcm L (replicate KEYBYTES 0x55) (FANOUT_ENVELOPE_NONCES ! 1) (take 9 f2 @ FANOUT_BODY_NONCE @ drop 106 f2) FANOUT_DEK =
        take 48 (drop 21 f2)"
    using dek_frame_eq [OF L(1) _ z(5) p2(1) _ p2(3) _ z(6), of "replicate KEYBYTES 0x55" "FANOUT_ENVELOPE_NONCES ! 1" FANOUT_PAYLOAD]
      p2(2,4) z(4) en(2) by simp
  have "drop 81 f2 = drop 81 f1" using arg_cong [OF published_shared [OF assms(6,7)], of "drop 12"] by simp
  then show ?thesis unfolding fan using std d1 d2 by auto
qed

lemma demo_install:
  assumes "length key = 32" "length (entries ks) < MAX_ENTRIES"
  shows "\<exists>w1 g. install demo_sodium p e key w ks = (Ok (), w1, ks\<lparr>entries := snd (bt_insert (p, e) g (entries ks))\<rparr>)"
proof -
  have "key \<noteq> []" using assms(1) by auto
  then have "\<exists>g w1. stored_key_new demo_sodium key w = (Ok g, w1)"
    using assms(1) by (simp add: stored_key_new_def galloc_new_def demo_fields Let_def galloc_write_def galloc_slice_def
        mem_def mlock_def try_mlock_def KEYBYTES_def)
  then obtain g w1 where "stored_key_new demo_sodium key w = (Ok g, w1)" by blast
  then show ?thesis using assms(2) by (cases "bt_get (entries ks) (p, e)") (auto simp: install_def bt_insert_def)
qed

lemma demo_vectors:
  "\<exists>store w1 sender w2. vector_store demo_sodium fresh_world = Some (store, w1) \<and> vector_sender demo_sodium fresh_world = Some (sender, w2)"
proof -
  have e: "ep VECTOR_EPOCH = Some (Epoch 9)" "ep 8 = Some (Epoch 8)"
    by (simp_all add: ep_def epoch_new_def VECTOR_EPOCH_def MAX_EPOCH_def)
  have k: "length PSK = 32" by (simp add: PSK_def)
  have n: "keystore_new demo_sodium FROM fresh_world = (Ok \<lparr>ks_local_id = FROM, entries = []\<rparr>, fresh_world\<lparr>lib_ready := True\<rparr>)"
    by (simp add: keystore_new_def sodium_init_def demo_fields fresh_fields Let_def)
  obtain w1 g where i1: "install demo_sodium TO (Epoch 9) PSK (fresh_world\<lparr>lib_ready := True\<rparr>) \<lparr>ks_local_id = FROM, entries = []\<rparr> =
      (Ok (), w1, \<lparr>ks_local_id = FROM, entries = [((TO, Epoch 9), g)]\<rparr>)"
    using demo_install [OF k, of "\<lparr>ks_local_id = FROM, entries = []\<rparr>" TO "Epoch 9" "fresh_world\<lparr>lib_ready := True\<rparr>"]
    by (auto simp: bt_insert_def MAX_ENTRIES_def)
  obtain w2 ks2 where i2: "install demo_sodium 0x0C0E (Epoch 8) (replicate KEYBYTES 0x55) w1 \<lparr>ks_local_id = FROM, entries = [((TO, Epoch 9), g)]\<rparr> =
      (Ok (), w2, ks2)"
    using demo_install [of "replicate KEYBYTES 0x55" "\<lparr>ks_local_id = FROM, entries = [((TO, Epoch 9), g)]\<rparr>" "0x0C0E" "Epoch 8" w1]
    by (auto simp: MAX_ENTRIES_def KEYBYTES_def)
  show ?thesis by (simp add: vector_sender_def vector_store_def installed_def e n i1 i2)
qed

lemma demo_hex: "\<exists>f f1 f2. unhex (as_bytes V2_FRAME_HEX) = Some f \<and> unhex (as_bytes FANOUT_FIRST_FRAME_HEX) = Some f1 \<and>
    unhex (as_bytes FANOUT_SECOND_FRAME_HEX) = Some f2"
  by (simp add: V2_FRAME_HEX_def FANOUT_FIRST_FRAME_HEX_def FANOUT_SECOND_FRAME_HEX_def hex_simps)

theorem published_vectors_witness:
  "\<exists>store w1 f. vector_store demo_sodium fresh_world = Some (store, w1) \<and> unhex (as_bytes V2_FRAME_HEX) = Some f \<and>
    (seal_standard_deterministic demo_sodium w1 store TO CHANNEL (Epoch 9) V2 NONCE = Some (Ok f) \<longleftrightarrow>
      gcm demo_sodium PSK NONCE (take 9 f) V2 = drop 21 f)"
proof -
  obtain store w1 sender w2 where s: "vector_store demo_sodium fresh_world = Some (store, w1)"
    "vector_sender demo_sodium fresh_world = Some (sender, w2)" using demo_vectors by blast
  obtain f f1 f2 where f: "unhex (as_bytes V2_FRAME_HEX) = Some f" "unhex (as_bytes FANOUT_FIRST_FRAME_HEX) = Some f1"
    "unhex (as_bytes FANOUT_SECOND_FRAME_HEX) = Some f2" using demo_hex by blast
  from published_vectors [OF demo_contract fresh_fields(1) s f] s f show ?thesis by blast
qed

end
