(* ===== verification/Build_Script.thy ===== *)
theory Build_Script
  imports Rust_Text
begin

text \<open>
  The build script, \<open>src/build.rs\<close>: which libsodium is linked, and how. What the script asks of its
  surroundings is the record \<open>build_env\<close>: environment variables, the answers of \<open>pkg-config\<close> (exit
  success and its standard output as text), which files exist, how the build platform joins paths,
  and whether removing and copying a file succeeds. A run is the sequence of lines printed and
  files touched, and either success or the failure that stops the build.

  The lemmas show that a static build only ever links the archive it located, staged in a directory
  of its own, that it succeeds exactly when such an archive is found and staged, and which of the
  candidate directories is taken.
\<close>

declare str_simps [simp del]

section \<open>Surroundings\<close>

datatype env_value = Unicode ustr | NotUnicode

datatype remove_result = Removed | NotFound | RemoveFailed ustr

record build_env =
  b_env :: "ustr \<Rightarrow> env_value option"
  b_pkg_config :: "ustr list \<Rightarrow> (bool \<times> ustr) option"
  b_is_file :: "ustr \<Rightarrow> bool"
  b_join :: "ustr \<Rightarrow> ustr \<Rightarrow> ustr"
  b_remove :: "ustr \<Rightarrow> remove_result"
  b_copy :: "ustr \<Rightarrow> ustr \<Rightarrow> ustr option"
  b_plain :: "nat \<Rightarrow> bool"

datatype build_event = Print ustr | RemoveFile ustr | CopyFile ustr ustr

text \<open>A panic with its message; for \<open>expect\<close>, the message without the rendering of the error.\<close>

datatype build_failure = Panic ustr | ExpectFailed ustr

text \<open>\<open>env::var(name)\<close>, as an option, and \<open>env::var_os(name).is_some()\<close>.\<close>

definition env_var :: "build_env \<Rightarrow> string \<Rightarrow> ustr option" where
  "env_var b name = (case b_env b (str name) of Some (Unicode t) \<Rightarrow> Some t | _ \<Rightarrow> None)"

definition env_set :: "build_env \<Rightarrow> string \<Rightarrow> bool" where
  "env_set b name \<longleftrightarrow> b_env b (str name) \<noteq> None"

text \<open>\<open>split_whitespace\<close>, \<open>strip_prefix\<close>, and \<open>{:?}\<close> of a list of paths.\<close>

fun words_from :: "ustr \<Rightarrow> ustr \<Rightarrow> ustr list" where
  "words_from cur [] = (if cur = [] then [] else [cur])"
| "words_from cur (c # s) =
     (if is_whitespace c then (if cur = [] then words_from [] s else cur # words_from [] s)
      else words_from (cur @ [c]) s)"

definition split_whitespace :: "ustr \<Rightarrow> ustr list" where
  "split_whitespace s = words_from [] s"

definition strip_prefix :: "ustr \<Rightarrow> ustr \<Rightarrow> ustr option" where
  "strip_prefix pat s = (if take (length pat) s = pat then Some (drop (length pat) s) else None)"

fun debug_items :: "(nat \<Rightarrow> bool) \<Rightarrow> ustr list \<Rightarrow> ustr" where
  "debug_items p [] = []"
| "debug_items p [x] = debug_str p x"
| "debug_items p (x # xs) = debug_str p x @ str '', '' @ debug_items p xs"

definition debug_list :: "(nat \<Rightarrow> bool) \<Rightarrow> ustr list \<Rightarrow> ustr" where
  "debug_list p xs = str ''['' @ debug_items p xs @ str '']''"

section \<open>Names\<close>

definition windows_target :: "build_env \<Rightarrow> bool" where
  "windows_target b \<longleftrightarrow> env_var b ''CARGO_CFG_WINDOWS'' \<noteq> None"

definition archive_name :: "build_env \<Rightarrow> ustr" where
  "archive_name b = (if windows_target b then str ''libsodium.lib'' else str ''libsodium.a'')"

definition link_name :: "build_env \<Rightarrow> ustr" where
  "link_name b = (if windows_target b then str ''libsodium'' else str ''sodium'')"

definition fatal :: "ustr \<Rightarrow> build_failure + 'a" where
  "fatal msg = Err (Panic (str ''paxe-core build.rs: '' @ msg))"

section \<open>Locating the archive\<close>

text \<open>The loop over the words of a \<open>pkg-config\<close> answer that collects the \<open>-L\<close> directories.\<close>

fun link_dirs :: "ustr list \<Rightarrow> ustr list" where
  "link_dirs [] = []"
| "link_dirs (tok # rest) =
     (if tok = str ''-L'' then (case rest of [] \<Rightarrow> [] | dir # rest' \<Rightarrow> dir # link_dirs rest')
      else (case strip_prefix (str ''-L'') tok of
          Some dir \<Rightarrow> dir # link_dirs rest
        | None \<Rightarrow> link_dirs rest))"

definition flag_dirs :: "build_env \<Rightarrow> ustr list \<Rightarrow> ustr list" where
  "flag_dirs b query =
     (case b_pkg_config b query of
        Some (True, text) \<Rightarrow> link_dirs (split_whitespace text)
      | _ \<Rightarrow> [])"

definition libdir :: "build_env \<Rightarrow> ustr list" where
  "libdir b =
     (case b_pkg_config b [str ''--variable=libdir'', str ''libsodium''] of
        Some (True, text) \<Rightarrow> (let dir = trim text in if dir \<noteq> [] then [dir] else [])
      | _ \<Rightarrow> [])"

definition system_dirs :: "ustr list" where
  "system_dirs = map str [''/usr/lib/x86_64-linux-gnu'', ''/usr/lib/aarch64-linux-gnu'', ''/usr/lib64'',
     ''/usr/lib'', ''/usr/local/lib'']"

text \<open>The loop that returns the first directory with the archive.\<close>

fun first_with :: "build_env \<Rightarrow> ustr \<Rightarrow> ustr list \<Rightarrow> ustr option" where
  "first_with b archive [] = None"
| "first_with b archive (dir # dirs) =
     (if b_is_file b (b_join b dir archive) then Some dir else first_with b archive dirs)"

definition pkg_config_dirs :: "build_env \<Rightarrow> ustr list" where
  "pkg_config_dirs b =
     flag_dirs b [str ''--libs'', str ''--static'', str ''libsodium''] @ libdir b @ system_dirs"

definition locate_pkg_config :: "build_env \<Rightarrow> ustr \<Rightarrow> build_failure + ustr" where
  "locate_pkg_config b archive =
     (let search_dirs = pkg_config_dirs b in
      case first_with b archive search_dirs of
        Some dir \<Rightarrow> Ok dir
      | None \<Rightarrow>
          fatal (str ''pkg-config found libsodium but no static archive '' @ archive @ str '' in any of: '' @
            debug_list (b_plain b) search_dirs @
            str ''. PAXE will not fall back to the shared library. Both libsodium-dev and Homebrew libsodium ship the archive; or set PAXE_SODIUM_LIB_DIR.''))"

definition vcpkg_dirs :: "build_env \<Rightarrow> ustr list" where
  "vcpkg_dirs b =
     (case env_var b ''VCPKG_ROOT'' of
        None \<Rightarrow> []
      | Some root \<Rightarrow> [foldl (b_join b) root (map str [''installed'', ''x64-windows'', ''lib''])]) @
     (case env_var b ''CARGO_MANIFEST_DIR'' of
        None \<Rightarrow> []
      | Some manifest \<Rightarrow>
          [foldl (b_join b) manifest (map str [''..'', ''..'', ''vcpkg'', ''installed'', ''x64-windows'', ''lib''])])"

definition locate_vcpkg :: "build_env \<Rightarrow> ustr \<Rightarrow> build_failure + ustr" where
  "locate_vcpkg b archive =
     (let candidates = vcpkg_dirs b in
      case first_with b archive candidates of
        Some dir \<Rightarrow> Ok dir
      | None \<Rightarrow>
          fatal (str ''no static libsodium.lib found. Probed: '' @ debug_list (b_plain b) candidates @
            str ''. Run `vcpkg install libsodium:x64-windows` (see contributing/deps/windows.ps1) or set PAXE_SODIUM_LIB_DIR.''))"

definition locate :: "build_env \<Rightarrow> build_failure + ustr" where
  "locate b =
     (let archive = archive_name b in
      case env_var b ''PAXE_SODIUM_LIB_DIR'' of
        Some dir \<Rightarrow>
          if b_is_file b (b_join b dir archive) then Ok dir
          else fatal (str ''PAXE_SODIUM_LIB_DIR points at '' @ dir @ str '', which does not contain '' @ archive @
            str ''. PAXE requires static linking and will not fall back to the shared library.'')
      | None \<Rightarrow> if windows_target b then locate_vcpkg b archive else locate_pkg_config b archive)"

section \<open>Linking\<close>

definition print_search :: "ustr \<Rightarrow> build_event" where
  "print_search dir = Print (str ''cargo:rustc-link-search=native='' @ dir)"

definition print_lib :: "ustr \<Rightarrow> build_event" where
  "print_lib lib = Print (str ''cargo:rustc-link-lib='' @ lib)"

definition link_static :: "build_env \<Rightarrow> build_event list \<times> (build_failure + unit)" where
  "link_static b =
     (case locate b of
        Err x \<Rightarrow> ([], Err x)
      | Ok dir \<Rightarrow>
          let src = b_join b dir (archive_name b);
              told = [Print (str ''cargo:rerun-if-changed='' @ src)] in
          (case env_var b ''OUT_DIR'' of
             None \<Rightarrow> (told, Err (ExpectFailed (str ''OUT_DIR is always set for build scripts'')))
           | Some out_dir \<Rightarrow>
               let staged = b_join b out_dir (archive_name b);
                   cleared = told @ [RemoveFile staged] in
               (case b_remove b staged of
                  RemoveFailed e \<Rightarrow>
                    (cleared, fatal (str ''failed to clear the previously staged '' @ staged @ str '': '' @ e))
                | _ \<Rightarrow>
                    let copied = cleared @ [CopyFile src staged] in
                    (case b_copy b src staged of
                       Some e \<Rightarrow>
                         (copied, fatal (str ''failed to stage '' @ src @ str '' into '' @ staged @ str '': '' @ e))
                     | None \<Rightarrow>
                         (copied @ [print_search out_dir, print_lib (str ''static='' @ link_name b),
                            print_lib (if windows_target b then str ''advapi32'' else str ''pthread'')], Ok ())))))"

definition link_dynamic :: "build_env \<Rightarrow> build_event list \<times> (build_failure + unit)" where
  "link_dynamic b =
     (if windows_target b then
        ([], fatal (str ''the sodium-dynamic feature is not supported on Windows: there is no system libsodium provider. Build the default (static) artefact instead.''))
      else
        (map print_search (flag_dirs b [str ''--libs'', str ''libsodium''] @
           flag_dirs b [str ''--variable=libdir'', str ''libsodium'']) @
         [print_lib (str ''dylib=sodium''), print_lib (str ''pthread'')], Ok ()))"

definition build_main :: "build_env \<Rightarrow> build_event list \<times> (build_failure + unit)" where
  "build_main b =
     (let told = [Print (str ''cargo:rerun-if-env-changed=PAXE_SODIUM_LIB_DIR''),
                  Print (str ''cargo:rerun-if-env-changed=VCPKG_ROOT'')];
          (events, r) = (if env_set b ''CARGO_FEATURE_SODIUM_DYNAMIC'' then link_dynamic b else link_static b) in
      (told @ events, r))"

section \<open>Where the archive is found\<close>

definition candidates :: "build_env \<Rightarrow> ustr list" where
  "candidates b =
     (case env_var b ''PAXE_SODIUM_LIB_DIR'' of
        Some dir \<Rightarrow> [dir]
      | None \<Rightarrow> if windows_target b then vcpkg_dirs b else pkg_config_dirs b)"

lemma first_with_find: "first_with b a dirs = find (\<lambda>d. b_is_file b (b_join b d a)) dirs"
  by (induction dirs) auto

text \<open>The first candidate directory that has the archive.\<close>

abbreviation archive_dir :: "build_env \<Rightarrow> ustr option" where
  "archive_dir b \<equiv> find (\<lambda>d. b_is_file b (b_join b d (archive_name b))) (candidates b)"

lemma locate_first: "locate b = Ok dir \<longleftrightarrow> archive_dir b = Some dir"
  by (auto simp: locate_def candidates_def locate_vcpkg_def locate_pkg_config_def first_with_find fatal_def Let_def
      split: option.splits)

lemma locate_none: "archive_dir b = None \<Longrightarrow> \<exists>x. locate b = Err x"
  using locate_first [of b] by (cases "locate b") auto

text \<open>The lines of a static run that succeeds, and what they tell the linker.\<close>

definition static_events :: "build_env \<Rightarrow> ustr \<Rightarrow> ustr \<Rightarrow> build_event list" where
  "static_events b dir out =
     [Print (str ''cargo:rerun-if-env-changed=PAXE_SODIUM_LIB_DIR''), Print (str ''cargo:rerun-if-env-changed=VCPKG_ROOT''),
      Print (str ''cargo:rerun-if-changed='' @ b_join b dir (archive_name b)), RemoveFile (b_join b out (archive_name b)),
      CopyFile (b_join b dir (archive_name b)) (b_join b out (archive_name b)),
      print_search out, print_lib (str ''static='' @ link_name b),
      print_lib (if windows_target b then str ''advapi32'' else str ''pthread'')]"

lemma static_events_tell:
  "{(s, d). CopyFile s d \<in> set (static_events b dir out)} = {(b_join b dir (archive_name b), b_join b out (archive_name b))}"
  "{d. Print (str ''cargo:rustc-link-search=native='' @ d) \<in> set (static_events b dir out)} = {out}"
  "{l. Print (str ''cargo:rustc-link-lib='' @ l) \<in> set (static_events b dir out)} =
    {str ''static='' @ link_name b, if windows_target b then str ''advapi32'' else str ''pthread''}"
proof -
  define x where "x = str ''static='' @ link_name b"
  define y where "y = (if windows_target b then str ''advapi32'' else str ''pthread'')"
  note ev = static_events_def [of b dir out, folded x_def y_def]
  show "{(s, d). CopyFile s d \<in> set (static_events b dir out)} = {(b_join b dir (archive_name b), b_join b out (archive_name b))}"
    by (auto simp: ev print_search_def print_lib_def)
  show "{d. Print (str ''cargo:rustc-link-search=native='' @ d) \<in> set (static_events b dir out)} = {out}"
    unfolding ev by (auto simp: print_search_def print_lib_def str_simps)
  show "{l. Print (str ''cargo:rustc-link-lib='' @ l) \<in> set (static_events b dir out)} =
      {str ''static='' @ link_name b, if windows_target b then str ''advapi32'' else str ''pthread''}"
    unfolding ev x_def [symmetric] y_def [symmetric] by (auto simp: print_search_def print_lib_def str_simps)
qed

text \<open>A static run on every branch.\<close>

definition staged :: "build_env \<Rightarrow> ustr \<Rightarrow> ustr \<Rightarrow> bool" where
  "staged b dir out \<longleftrightarrow> archive_dir b = Some dir \<and> env_var b ''OUT_DIR'' = Some out \<and>
     (\<forall>e. b_remove b (b_join b out (archive_name b)) \<noteq> RemoveFailed e) \<and>
     b_copy b (b_join b dir (archive_name b)) (b_join b out (archive_name b)) = None"

lemma static_run:
  assumes "\<not> env_set b ''CARGO_FEATURE_SODIUM_DYNAMIC''" "build_main b = (events, r)" "staged b dir out"
  shows "r = Ok () \<and> events = static_events b dir out"
  using assms locate_first [of b dir]
  by (cases "b_remove b (b_join b out (archive_name b))")
    (auto simp: staged_def build_main_def link_static_def Let_def static_events_def)

lemma static_succeeds:
  assumes "\<not> env_set b ''CARGO_FEATURE_SODIUM_DYNAMIC''" "build_main b = (events, Ok ())"
  shows "\<exists>dir out. staged b dir out"
proof (cases "archive_dir b")
  case None
  then show ?thesis using assms locate_none [of b] by (auto simp: build_main_def link_static_def)
next
  case (Some dir)
  then show ?thesis using assms locate_first [of b dir]
    by (auto simp: staged_def build_main_def link_static_def Let_def fatal_def split: option.splits remove_result.splits)
qed

text \<open>\<open>pkg-config --variable=libdir\<close> prints a bare directory, which the flag loop does not collect.\<close>

lemma link_dirs_bare: "\<forall>w \<in> set ws. strip_prefix (str ''-L'') w = None \<Longrightarrow> link_dirs ws = []"
proof (induction ws)
  case (Cons w ws)
  then have "w \<noteq> str ''-L''" by (auto simp: strip_prefix_def)
  with Cons show ?case by simp
qed simp

lemma dynamic_ignores_libdir:
  assumes "b_pkg_config b [str ''--variable=libdir'', str ''libsodium''] = Some (True, text)"
    and "\<forall>w \<in> set (split_whitespace text). strip_prefix (str ''-L'') w = None" "\<not> windows_target b"
  shows "link_dynamic b = (map print_search (flag_dirs b [str ''--libs'', str ''libsodium'']) @
    [print_lib (str ''dylib=sodium''), print_lib (str ''pthread'')], Ok ())"
  using assms link_dirs_bare by (simp add: link_dynamic_def flag_dirs_def)

text \<open>A Debian layout: the archive sits in the second system directory and \<open>pkg-config\<close> prints no flag.\<close>

definition demo_build :: build_env where
  "demo_build = \<lparr>b_env = [str ''OUT_DIR'' \<mapsto> Unicode (str ''/out'')],
     b_pkg_config = (\<lambda>q. if q = [str ''--variable=libdir'', str ''libsodium''] then Some (True, str ''/opt'') else Some (True, str ''-lsodium'')),
     b_is_file = (\<lambda>p. p = str ''/usr/lib/aarch64-linux-gnu/libsodium.a''), b_join = (\<lambda>p q. p @ [47] @ q),
     b_remove = (\<lambda>_. NotFound), b_copy = (\<lambda>_ _. None), b_plain = (\<lambda>_. True)\<rparr>"

section \<open>Properties\<close>

text \<open>C27. A static build never falls back to the shared library. Without the \<open>sodium-dynamic\<close> feature, a run that
  succeeds has found the archive in the first candidate directory that has it, has copied exactly
  that file into \<open>OUT_DIR\<close>, and tells the linker to search \<open>OUT_DIR\<close> only and to link libsodium
  statically; and a run succeeds exactly when a candidate directory has the archive, \<open>OUT_DIR\<close> is
  known, and clearing and copying succeed.\<close>

theorem static_build_links_archive:
  assumes "\<not> env_set b ''CARGO_FEATURE_SODIUM_DYNAMIC''" "build_main b = (events, r)"
  shows "(r = Ok () \<longrightarrow> (\<exists>dir out.
      find (\<lambda>d. b_is_file b (b_join b d (archive_name b))) (candidates b) = Some dir \<and>
      env_var b ''OUT_DIR'' = Some out \<and>
      {(s, d). CopyFile s d \<in> set events} = {(b_join b dir (archive_name b), b_join b out (archive_name b))} \<and>
      {d. Print (str ''cargo:rustc-link-search=native='' @ d) \<in> set events} = {out} \<and>
      {l. Print (str ''cargo:rustc-link-lib='' @ l) \<in> set events} =
        {str ''static='' @ link_name b, if windows_target b then str ''advapi32'' else str ''pthread''})) \<and>
    (r = Ok () \<longleftrightarrow> (\<exists>dir out.
      find (\<lambda>d. b_is_file b (b_join b d (archive_name b))) (candidates b) = Some dir \<and>
      env_var b ''OUT_DIR'' = Some out \<and> (\<forall>e. b_remove b (b_join b out (archive_name b)) \<noteq> RemoveFailed e) \<and>
      b_copy b (b_join b dir (archive_name b)) (b_join b out (archive_name b)) = None))"
proof -
  have iff: "r = Ok () \<longleftrightarrow> (\<exists>dir out. staged b dir out)"
    using assms static_succeeds [OF assms(1)] static_run [OF assms] by blast
  moreover have "\<exists>dir out. archive_dir b = Some dir \<and> env_var b ''OUT_DIR'' = Some out \<and>
      {(s, d). CopyFile s d \<in> set events} = {(b_join b dir (archive_name b), b_join b out (archive_name b))} \<and>
      {d. Print (str ''cargo:rustc-link-search=native='' @ d) \<in> set events} = {out} \<and>
      {l. Print (str ''cargo:rustc-link-lib='' @ l) \<in> set events} =
        {str ''static='' @ link_name b, if windows_target b then str ''advapi32'' else str ''pthread''}" if ok: "r = Ok ()"
  proof -
    obtain dir out where st: "staged b dir out" using iff ok by blast
    then have "events = static_events b dir out" using static_run [OF assms] by blast
    then show ?thesis using st static_events_tell [of b dir out]
      by (intro exI [of _ dir] exI [of _ out]) (simp add: staged_def)
  qed
  ultimately show ?thesis unfolding staged_def by blast
qed

theorem static_build_links_archive_witness:
  "\<exists>events. build_main demo_build = (events, Ok ()) \<and>
    {d. Print (str ''cargo:rustc-link-search=native='' @ d) \<in> set events} = {str ''/out''} \<and>
    {l. Print (str ''cargo:rustc-link-lib='' @ l) \<in> set events} = {str ''static=sodium'', str ''pthread''}"
proof -
  obtain events r where m: "build_main demo_build = (events, r)" by fastforce
  have e: "\<not> env_set demo_build ''CARGO_FEATURE_SODIUM_DYNAMIC''" "env_var demo_build ''OUT_DIR'' = Some (str ''/out'')"
    "\<not> windows_target demo_build" "env_var demo_build ''PAXE_SODIUM_LIB_DIR'' = None"
    by (simp_all add: env_set_def env_var_def windows_target_def demo_build_def str_simps)
  have "find (\<lambda>d. b_is_file demo_build (b_join demo_build d (archive_name demo_build))) (candidates demo_build) =
      Some (str ''/usr/lib/aarch64-linux-gnu'')"
    using e(3,4) by (simp add: candidates_def archive_name_def pkg_config_dirs_def flag_dirs_def libdir_def system_dirs_def
        demo_build_def str_simps split_whitespace_def is_whitespace_def strip_prefix_def trim_def trim_start_def
        trim_end_matches_def Let_def)
  moreover have "b_remove demo_build p = NotFound" "b_copy demo_build p q = None" for p q by (simp_all add: demo_build_def)
  ultimately have r: "r = Ok ()" using static_build_links_archive [OF e(1) m] e(2) by simp
  then show ?thesis using static_build_links_archive [OF e(1) m] m e(2,3) by (auto simp: link_name_def str_simps)
qed

end
