(* ===== verification/Spec2Isabelle.thy ===== *)
theory Spec2Isabelle
  imports Ffi_Session Whole_System Vectors Build_Script
begin

text \<open>
  A verification development for paxe-core, a Rust crate for authenticated datagrams between
  provisioned nodes (package PAXE), and for the demo server it ships.

  \<^bold>\<open>The program.\<close> A node holds one 32-byte key for each (peer, epoch) and seals a payload into one UDP
  datagram, under AES-256-GCM of libsodium, for one recipient (standard mode) or, with one body and
  one wrapped data key for each recipient, for several (reusable-DEK mode). Opening a datagram
  parses the 9-byte prefix, looks the key up by claimed source and epoch, and authenticates; every
  failure is a drop whose reason shows only in counters. A C ABI wraps this for a Lua host. The
  demo \<open>six-seven-server\<close> is a pair of nodes that share one key-value map: clients speak STOMP over
  TCP, keys are placed by parity, and a node forwards what it does not own to its peer in a sealed
  datagram.

  \<^bold>\<open>Theories\<close>, in dependency order, each with the file it models.
  \<^item> \<open>Paxe_Prelude\<close>: machine words, slices and their panics, saturating counters; the locales
    \<open>coding\<close> and \<open>exact_coding\<close> (what an encoder and its decoder promise), \<open>safe_machine\<close> and
    \<open>machine\<close> (a state machine with an invariant and an order its calls respect; the second never
    gets stuck).
  \<^item> \<open>Rust_Text\<close>: the text functions of Rust's library: UTF-8, decimal and hexadecimal numbers,
    trimming, splitting, slicing by byte offset, debug rendering.
  \<^item> \<open>Ordered_Map\<close>: \<open>BTreeMap\<close>, with the locale \<open>key_table\<close>.
  \<^item> \<open>Sodium\<close> (\<open>src/src/sodium.rs\<close>): every wrapper. libsodium, libc and Win32 are the record
    \<open>sodium_lib\<close>, an argument; \<open>sodium_contract\<close> is what is relied on. \<open>world\<close> is the process state.
  \<^item> \<open>Keystore\<close> (\<open>src/src/keystore.rs\<close>): the table of link keys over the guarded heap; locales
    \<open>link_keys\<close> and \<open>vault\<close> state what the frame modes rely on.
  \<^item> \<open>Codec\<close> (\<open>src/src/codec.rs\<close>): header, flags byte, prefix.
  \<^item> \<open>Stats\<close> (\<open>src/src/stats.rs\<close>): counters, failure policy, log-once memo, emitted lines.
  \<^item> \<open>Standard\<close> (\<open>src/src/standard.rs\<close>) and \<open>Dek_Fanout\<close> (\<open>src/src/dek.rs\<close>): sealing, opening, dispatch
    and the deterministic test seams; the locale \<open>frame_mode\<close> states the contract of both modes.
  \<^item> \<open>Ffi_Session\<close> (\<open>src/src/ffi.rs\<close>): \<open>session\<close> is the thread-local state, one definition for each
    exported function, \<open>exec\<close> runs one call of any of the seventeen; \<open>documented_codes\<close> is what the
    header of the C interface says of their results.
  \<^item> \<open>Kv\<close>, \<open>Stomp\<close>, \<open>Peer_Message\<close> (\<open>kv.rs\<close>, \<open>stomp.rs\<close>, \<open>peer.rs\<close> under
    \<open>src/src/bin/six-seven-server\<close>): placement, requests and the store; client frames and the stream
    reader; node-to-node messages.
  \<^item> \<open>Six_Seven\<close> (\<open>main.rs\<close> there): command line, start-up, what each producer thread posts, every event
    handler, the core loop and the exit status; \<open>progress\<close> tells a program that has returned from one
    that serves. \<open>Pair\<close>: invariants of a node and of a pair of nodes.
  \<^item> \<open>Threads\<close> (\<open>main.rs\<close>, \<open>run\<close> and \<open>core_loop\<close>): the process of a node. \<open>process\<close> has the core thread,
    the channel and every producer; \<open>process_turn\<close> lets one thread run; a schedule is any sequence
    of turns.
  \<^item> \<open>Network\<close>: two nodes and the datagrams in flight between them; \<open>net_step\<close> is an event at a node or
    a delivery, loss, duplication or injection by the network.
  \<^item> \<open>Settlement\<close>: the accounts of a connection of a process: what it sent, was written and is owed.
    \<open>Answers\<close>: what the clients of the two nodes are told.
  \<^item> \<open>Whole_System\<close>: two processes of \<open>Threads\<close> on one network; \<open>sys_step\<close> lets a thread run, or a datagram,
    foreign bytes or an error reach a socket. Every behaviour is one of \<open>Network\<close> (\<open>mirrors\<close>).
  \<^item> \<open>Vectors\<close> (\<open>src/src/vectors.rs\<close>): the published frames.
  \<^item> \<open>Build_Script\<close> (\<open>src/build.rs\<close>): which libsodium is linked, and how; environment, \<open>pkg-config\<close> and
    file system are the record \<open>build_env\<close>.
  \<^item> This theory: the properties of the C ABI along arbitrary sequences of calls.

  \<^bold>\<open>What is shown.\<close> For the wire format: bytes and records determine each other, and a frame opens
  exactly when it was sealed for this node under the key this node holds for its source and epoch
  (\<open>Codec\<close>, \<open>Standard\<close>, \<open>Dek_Fanout\<close>). For the keystore: it refines a partial map, sends under the
  newest epoch, and zeroes every key before its memory is released. For the ABI: seal and open are
  inverse between two sessions, the counters balance and never decrease, every call from any reachable
  state returns a documented code, with a message exactly on failure, a drop is opaque, no draw of the generator serves as nonce of two frames, shutdown
  leaves nothing behind, and the addressing gate agrees with open. For the server: frames and
  messages survive the wire whatever way the stream is cut and however long it goes on, what is
  gathered for one frame is bounded and decided by a bounded part of the stream, a
  node stores only keys of its own, the pair is one map that changes only by operations a client or
  the authenticated peer asked for, a forwarded request is answered with what the peer's store
  says, overdue requests are answered at the next tick, and of the link key exactly one guarded copy
  exists while the program serves and none when it has returned. Whatever the scheduler does, the core thread sees each source's events in order and
  none is lost; it panics on none of them, answers and sends no more than it was asked, and keeps
  nothing of a connection that has ended. On an open connection every frame is answered exactly once, a
  SEND with one MESSAGE under its receipt, and a tick that comes five seconds after all else leaves none
  unanswered. Two processes on a network behave as two nodes on it, and whatever the network does to datagrams, the map of the
  pair is the result of operations its clients asked for, each at most as often as asked
  unless the network duplicates (the protocol has no replay window); every frame written to a
  connection answers a frame that came over its stream, and a value it reads was put by a client. For
  the build script: a static build links only the archive it found and staged.

  \<^bold>\<open>Conventions.\<close> \<open>Err\<close> and \<open>Ok\<close> abbreviate the two sides of a sum. \<open>None\<close> as the result of an
  operation is a panic, so that its absence is proved and not assumed. Buffers passed by reference
  are returned beside the result. All recursion is total: loops over data are structural, the stream
  readers terminate because every call consumes input (\<open>stream_size\<close>), and there is no fuel.
  Arithmetic on integers is that of a build with overflow checks; the only counters it touches in
  the server are the correlation and connection ids, which would need 2^64 requests. The
  operating system of the server is the record \<open>host\<close>: which addresses parse and bind, which writes
  and sends succeed, the order in which a hash table is traversed, and the Unicode table of the
  debug rendering. Time is an argument of every step.

  \<^bold>\<open>Not modelled.\<close> \<open>src/src/lib.rs\<close> (documentation and module declarations) and the tests, except the
  vectors. AES-256-GCM is a parameter, so the published ciphertexts are compared with what the
  library returns, not computed. Of \<open>ffi.rs\<close>, the arms for a keystore that is already borrowed,
  which no exported call can reach. Of the server, how long the ticker sleeps (a tick may come at
  any time), and the stack depth of the recursion that skips heart-beat filler. A list of reads or of
  events stands for what has arrived up to some moment: \<open>run\<close> holds a sender of its own channel, so
  the core loop waits after the last event and does not end. A producer's turn
  is one pass of its loop; sends on the channel cannot fail while the core thread lives, which
  holds the receiver. Timing side channels and the quality of randomness are outside the model: the
  generator is any function of the number of draws that returns the requested length.
\<close>

definition demo_session :: "u32 \<Rightarrow> u32 \<Rightarrow> u32 \<Rightarrow> session" where
  "demo_session me peer e =
     snd (lunet_paxe_keystore_set demo_sodium peer e (Some demo_key) 32
       (snd (lunet_paxe_set_local_id demo_sodium me (session_start fresh_world))))"

lemma demo_session_inv: "session_inv (demo_session me peer e)"
proof -
  have "session_inv (session_start fresh_world)"
    by (rule session_inv_start) (simp_all add: fresh_world_def)
  then have "session_inv (snd (lunet_paxe_set_local_id demo_sodium me (session_start fresh_world)))"
    using set_local_id_step [of "session_start fresh_world" demo_sodium me] by (metis prod.collapse)
  then show ?thesis
    unfolding demo_session_def using keystore_set_step [OF demo_memory] by (metis prod.collapse)
qed

lemma session_start_fields:
  "STORE (session_start w) = None" "proc (session_start w) = w" "counters (session_start w) = stats_init"
  by (simp_all add: session_start_def)

lemma demo_session_eq:
  assumes "unat me < 65536" "unat peer < 65536" "unat e < 32"
  shows "STORE (demo_session me peer e) = Some (demo_store (ucast me) (ucast peer) (Epoch (ucast e)))"
    and "proc (demo_session me peer e) = demo_world"
    and "counters (demo_session me peer e) = stats_init"
proof -
  have e: "check_epoch e = Ok (Epoch (ucast e))"
  proof -
    have "unat (ucast e :: u8) = unat e" using assms(3) by (simp add: unsigned_ucast_eq take_bit_eq_mod)
    then show ?thesis using assms(3) by (simp add: check_epoch_def epoch_new_def MAX_EPOCH_def word_less_nat_alt)
  qed
  have 1: "lunet_paxe_set_local_id demo_sodium me (session_start fresh_world) =
      (RC_OK, (session_start fresh_world)\<lparr>STORE := Some \<lparr>ks_local_id = ucast me, entries = []\<rparr>,
        proc := fresh_world\<lparr>lib_ready := True\<rparr>\<rparr>)"
    using assms by (simp add: lunet_paxe_set_local_id_def check_u16_def keystore_new_def
        sodium_init_def demo_fields fresh_fields session_start_fields)
  show "STORE (demo_session me peer e) = Some (demo_store (ucast me) (ucast peer) (Epoch (ucast e)))"
    and "proc (demo_session me peer e) = demo_world"
    and "counters (demo_session me peer e) = stats_init"
    using assms
    by (simp_all add: demo_session_def 1 lunet_paxe_keystore_set_def check_u16_def e buf_in_def KEYBYTES_def
        demo_key_length demo_installed session_start_fields)
qed

section \<open>Reachable sessions\<close>

text \<open>A process that has not allocated, released or wiped anything yet.\<close>

definition fresh_process :: "world \<Rightarrow> bool" where
  "fresh_process w \<longleftrightarrow> heap w = [] \<and> released w = [] \<and> wiped w = []"

lemma fresh_process_demo: "fresh_process fresh_world"
  by (simp add: fresh_process_def fresh_world_def)

lemma reachable_session:
  assumes "sodium_contract L" "fresh_process w" "reachable (exec L os) (session_start w) s"
  shows "session_inv s"
  using api.reachable_inv [OF assms(3)] assms(1,2) session_inv_start [of w] by (simp add: fresh_process_def)

lemma demo_reachable: "reachable (exec demo_sodium os) (session_start fresh_world) (demo_session me peer e)"
proof -
  define s1 where "s1 = snd (lunet_paxe_set_local_id demo_sodium me (session_start fresh_world))"
  have 1: "exec demo_sodium os (SetLocalId me) (session_start fresh_world) =
      Some (fst (lunet_paxe_set_local_id demo_sodium me (session_start fresh_world)), s1)"
    by (simp add: s1_def)
  have 2: "exec demo_sodium os (KeystoreSet peer e (Some demo_key) 32) s1 =
      Some (fst (lunet_paxe_keystore_set demo_sodium peer e (Some demo_key) 32 s1), demo_session me peer e)"
    by (simp add: s1_def demo_session_def)
  have "reachable (exec demo_sodium os) (session_start fresh_world) s1"
    using 1 by (blast intro: reachable_start reachable_call)
  with 2 show ?thesis by (blast intro: reachable_call)
qed

lemma shutdown_twice: "shutdown_state L (shutdown_state L s) = shutdown_state L s"
  by (simp add: shutdown_state_def Let_def reset_log_once_memo_def)

lemma shutdown_power: "0 < n \<Longrightarrow> (shutdown_state L ^^ n) s = shutdown_state L s"
proof (induction n)
  case (Suc n)
  then show ?case by (cases n) (simp_all add: shutdown_twice)
qed simp

text \<open>What an open returns, in terms of the verdict of \<open>dek_open\<close>.\<close>

lemma open_cases:
  assumes "sodium_contract L" "session_inv s" "STORE s = Some store"
    and "buf_in fp fl (str ''frame'') = Ok frame" "buf_out op cap (str ''payload output'') = Ok out"
  obtains (accepted) hdr fl' m w where
      "dek_open L store frame (proc s) (counters s) = Some (Ok (hdr, fl', m), w, counters s)"
      "lunet_paxe_open L fp fl op cap False s =
        (if length m > length out then
           Some (invalid (str ''payload output buffer too small: need '' @ show_nat (length m) @ str '', have '' @
             show_nat (length out)) (s\<lparr>proc := w\<rparr>), (case op of None \<Rightarrow> [] | Some bs \<Rightarrow> take cap bs), None)
         else Some ((RC_OK, s\<lparr>proc := w, counters := record_rx_ok (counters s)\<rparr>), overwrite out m,
           Some \<lparr>op_len = length m, op_from = ucast (from_id hdr), op_channel = channel hdr,
             op_mode = (case flags_mode fl' of Standard \<Rightarrow> 0 | Dek \<Rightarrow> 1)\<rparr>))"
    | (dropped) x w where
      "dek_open L store frame (proc s) (counters s) =
        Some (Err x, w, record_reject (drop_reason (proc s) store frame) (counters s))"
      "w = proc s \<or> w = wipe_dek (proc s)"
      "lunet_paxe_open L fp fl op cap False s =
        Some ((RC_DROP, s\<lparr>proc := w, counters :=
            record_rx_drop (record_reject (drop_reason (proc s) store frame) (counters s))\<rparr>),
          (case op of None \<Rightarrow> [] | Some bs \<Rightarrow> take cap bs), None)"
proof -
  note L = sodium_contractD [OF assms(1)]
  have ks: "ks_inv (proc s) store" using session_invD(1) [OF assms(2)] assms(3) by (simp add: store_ok_def)
  obtain r w st where d: "dek_open L store frame (proc s) (counters s) = Some (r, w, st)"
    using dek_open_no_panic [of L store frame "proc s" "counters s"] by auto
  note acc = dek_open_accounts [OF L(1,2) ks d]
  show thesis
  proof (cases r)
    case (Inl x)
    have st: "st = record_reject (drop_reason (proc s) store frame) (counters s)"
      by (rule dek_open_drops [OF L(1,2) ks d [unfolded Inl]])
    have "\<forall>y. x \<noteq> OpenSodium y" using acc Inl by simp
    then have "lunet_paxe_open L fp fl op cap False s = Some ((RC_DROP, s\<lparr>proc := w, counters :=
            record_rx_drop st\<rparr>), (case op of None \<Rightarrow> [] | Some bs \<Rightarrow> take cap bs), None)"
      using d Inl assms(3-5) by (cases x) (simp_all add: lunet_paxe_open_def Let_def)
    with d Inl st acc show thesis by (intro dropped) auto
  next
    case (Inr x)
    obtain hdr fl' m where x: "x = (hdr, fl', m)" by (metis prod_cases3)
    have st: "st = counters s" using acc Inr by simp
    show thesis
      by (rule accepted [of hdr fl' m w])
        (use d Inr x st assms(3-5) in \<open>simp_all add: lunet_paxe_open_def Let_def not_less\<close>)
  qed
qed

lemma open_unchecked:
  assumes "lunet_paxe_open L fp fl op cap nul s = Some ((rc, s'), out', res)"
    and "\<not> (\<exists>frame out store. \<not> nul \<and> buf_in fp fl (str ''frame'') = Ok frame \<and>
      buf_out op cap (str ''payload output'') = Ok out \<and> STORE s = Some store)"
  shows "(rc = RC_DROP \<and> s' = s \<and> STORE s = None \<or> rc = RC_INVAL) \<and> res = None \<and>
    out' = (case op of None \<Rightarrow> [] | Some bs \<Rightarrow> take cap bs)"
  using assms by (auto simp: lunet_paxe_open_def Let_def split: sum.splits option.splits if_splits)

text \<open>The calls that leave the store alone, and what the others keep of the identity.\<close>

lemma init_store: "lunet_paxe_init L env os s = (rc, s') \<Longrightarrow> STORE s' = STORE s"
  by (auto simp: lunet_paxe_init_def Let_def warn_core_disable_failed_def fail_def set_last_error_def
      split: prod.splits sum.splits if_splits)

lemma seal_store: "lunet_paxe_seal L pp pl to ch op cap nul s = Some ((rc, s'), out, n) \<Longrightarrow> STORE s' = STORE s"
  by (auto simp: lunet_paxe_seal_def Let_def
      split: if_splits sum.splits option.splits prod.splits Option.bind_splits)

lemma open_store: "lunet_paxe_open L fp fl op cap nul s = Some ((rc, s'), out, n) \<Longrightarrow> STORE s' = STORE s"
  by (auto simp: lunet_paxe_open_def Let_def
      split: if_splits sum.splits option.splits prod.splits Option.bind_splits open_error.splits)

lemma quiet_store:
  "lunet_paxe_frame_for_us fp fl s = (rc, s') \<Longrightarrow> STORE s' = STORE s"
  "lunet_paxe_fail_policy_set np nl s = (rc, s') \<Longrightarrow> STORE s' = STORE s"
  by (auto simp: lunet_paxe_frame_for_us_def lunet_paxe_fail_policy_set_def Let_def
      split: if_splits sum.splits option.splits)

lemma store_identity:
  "install L p e m w store = (r, w', t) \<Longrightarrow> ks_local_id t = ks_local_id store"
  "retire L p e w store = (b, w', t) \<Longrightarrow> ks_local_id t = ks_local_id store"
  "keystore_clear L w store = (w', t) \<Longrightarrow> ks_local_id t = ks_local_id store"
  by (auto simp: install_def retire_def keystore_clear_def Let_def bt_insert_def bt_remove_def
      split: if_splits prod.splits sum.splits option.splits)

lemma keystore_call_identity:
  "lunet_paxe_keystore_set L p e kp kl s = (rc, s') \<Longrightarrow>
    map_option ks_local_id (STORE s') = map_option ks_local_id (STORE s)"
  "lunet_paxe_keystore_retire L p e s = (rc, s') \<Longrightarrow>
    map_option ks_local_id (STORE s') = map_option ks_local_id (STORE s)"
  "lunet_paxe_keystore_clear L s = (rc, s') \<Longrightarrow>
    map_option ks_local_id (STORE s') = map_option ks_local_id (STORE s)"
  by (auto simp: lunet_paxe_keystore_set_def lunet_paxe_keystore_retire_def lunet_paxe_keystore_clear_def
      dest: store_identity split: if_splits sum.splits option.splits prod.splits)

lemma set_local_id_identity:
  assumes "lunet_paxe_set_local_id L n s = (rc, s')"
  shows "STORE s \<noteq> None \<Longrightarrow> STORE s' = STORE s"
    and "STORE s = None \<Longrightarrow> STORE s' \<noteq> None \<Longrightarrow>
      unat n < 65536 \<and> map_option ks_local_id (STORE s') = Some (ucast n)"
  using assms by (auto simp: lunet_paxe_set_local_id_def check_u16_def keystore_new_def
      split: if_splits sum.splits option.splits prod.splits)

text \<open>The argument checks as conditions, and the conditions under which a seal succeeds.\<close>

lemma check_iff:
  "check_u16 v what = Ok x \<longleftrightarrow> unat v < 65536 \<and> x = ucast v"
  "check_channel ch = Ok c \<longleftrightarrow> (ch = 0 \<or> 100 \<le> ch) \<and> c = ch"
  "buf_in p n what = Ok b \<longleftrightarrow> (n = 0 \<or> p \<noteq> None) \<and> b = (case p of None \<Rightarrow> [] | Some bs \<Rightarrow> take n bs)"
  "buf_out p n what = Ok b \<longleftrightarrow> (n = 0 \<or> p \<noteq> None) \<and> b = (case p of None \<Rightarrow> [] | Some bs \<Rightarrow> take n bs)"
proof -
  have "\<not> (1 \<le> ch \<and> ch \<le> 99) \<longleftrightarrow> ch = 0 \<or> 100 \<le> ch"
    by (auto simp: word_le_nat_alt word_unat_eq_iff)
  then show "check_channel ch = Ok c \<longleftrightarrow> (ch = 0 \<or> 100 \<le> ch) \<and> c = ch"
    by (auto simp: check_channel_def)
qed (auto simp: check_u16_def buf_in_def buf_out_def split: option.splits)

definition can_seal :: "bytes option \<Rightarrow> nat \<Rightarrow> u32 \<Rightarrow> u32 \<Rightarrow> bytes option \<Rightarrow> nat \<Rightarrow> bool \<Rightarrow> session \<Rightarrow> bool" where
  "can_seal pp pl to ch op cap nul s \<longleftrightarrow> \<not> nul \<and> unat to < 65536 \<and> (ch = 0 \<or> 100 \<le> ch) \<and>
     (pl = 0 \<or> pp \<noteq> None) \<and> (cap = 0 \<or> op \<noteq> None) \<and>
     (case STORE s of None \<Rightarrow> False | Some store \<Rightarrow> current (proc s) store (ucast to) \<noteq> None) \<and>
     (let n = length (case pp of None \<Rightarrow> [] | Some bs \<Rightarrow> take pl bs) in
      n \<le> MAX_PAYLOAD \<and> n + 37 \<le> length (case op of None \<Rightarrow> [] | Some bs \<Rightarrow> take cap bs))"

lemma seal_refused:
  assumes "lunet_paxe_seal L pp pl to ch op cap nul s = Some ((rc, s'), out', n)"
    and "\<not> (\<not> nul \<and> (\<exists>dest chan payload out store e key.
      check_u16 to (str ''destination node id'') = Ok dest \<and> check_channel ch = Ok chan \<and>
      buf_in pp pl (str ''payload'') = Ok payload \<and> buf_out op cap (str ''frame output'') = Ok out \<and>
      length payload \<le> MAX_PAYLOAD \<and> STORE s = Some store \<and> current (proc s) store dest = Some (e, key)))"
  shows "rc \<noteq> RC_OK \<and> out' = (case op of None \<Rightarrow> [] | Some bs \<Rightarrow> take cap bs) \<and> n = None \<and>
    tx_total (snapshot (counters s')) = tx_total (snapshot (counters s))"
  using assms
  by (auto simp: lunet_paxe_seal_def Let_def current_def not_less rc_defs snapshot_def record_tx_oversize_def bump_def
      split: sum.splits option.splits prod.splits if_splits)

text \<open>The generator: a seal that succeeds takes its nonce from one draw, and no call goes back.\<close>

lemma sealed_nonce:
  assumes "sodium_contract L" "session_inv s" "lunet_paxe_seal L pp pl to ch op cap nul s = Some ((RC_OK, s'), out', n)"
  shows "take NPUBBYTES (drop PREFIX_LEN out') = x_random L (draws (proc s)) NPUBBYTES \<and> draws (proc s') = Suc (draws (proc s))"
proof -
  obtain dest chan payload out store e key where ok: "\<not> nul"
    "check_u16 to (str ''destination node id'') = Ok dest" "check_channel ch = Ok chan"
    "buf_in pp pl (str ''payload'') = Ok payload" "buf_out op cap (str ''frame output'') = Ok out"
    "length payload \<le> MAX_PAYLOAD" "STORE s = Some store" "current (proc s) store dest = Some (e, key)"
    using seal_refused [OF assms(3)] by blast
  have "length (x_random L (draws (proc s)) NPUBBYTES) = NPUBBYTES"
    using sodium_contractD(3) [OF assms(1)] by (simp add: random_contract_def)
  then show ?thesis using assms(3) ok(1) unfolding seal_checked [OF assms(1,2) ok(2-8), unfolded Let_def]
    by (cases nul) (auto simp: seal_checked [OF assms(1,2) ok(2-8)] Let_def std_frame_def overwrite_def PREFIX_LEN_def invalid_def rc_defs split: if_splits)
qed

lemma mlock_draws: "mlock L buf w = (r, w') \<Longrightarrow> draws w' = draws w"
proof -
  assume "mlock L buf w = (r, w')"
  then obtain a b where "w' = w\<lparr>lock_calls := a, ws_granted := b\<rparr>" using mlock_frame unfolding lock_frame_def by blast
  then show "draws w' = draws w" by simp
qed

lemma drop_draws: "draws (stored_key_drop L g w) = draws w" "draws (drop_all L gs w) = draws w"
proof -
  have d: "draws (stored_key_drop L g w) = draws w" for g w
    by (simp add: stored_key_drop_def galloc_drop_def galloc_write_def Let_def)
  then show "draws (stored_key_drop L g w) = draws w" .
  show "draws (drop_all L gs w) = draws w" unfolding drop_all_def by (induction gs arbitrary: w) (simp_all add: d)
qed

lemma install_draws: "install L p e m w ks = (r, w', ks') \<Longrightarrow> draws w' = draws w"
proof -
  have "stored_key_new L m w = (x, v) \<Longrightarrow> draws v = draws w" for x v
    by (auto simp: stored_key_new_def galloc_new_def galloc_write_def galloc_drop_def Let_def
        split: option.splits prod.splits sum.splits dest!: mlock_draws)
  then show "install L p e m w ks = (r, w', ks') \<Longrightarrow> draws w' = draws w"
    by (auto simp: install_def drop_draws split: if_splits prod.splits sum.splits option.splits)
qed

lemma retire_draws: "retire L p e w ks = (b, w', ks') \<Longrightarrow> draws w' = draws w"
  by (auto simp: retire_def drop_draws split: prod.splits option.splits)

lemma sodium_init_draws: "sodium_init L w = (r, w') \<Longrightarrow> draws w' = draws w"
  by (auto simp: sodium_init_def Let_def split: if_splits)

lemma init_draws:
  assumes "lunet_paxe_init L env os s = (rc, s')"
  shows "draws (proc s') = draws (proc s)"
proof -
  define s1 where "s1 = (if core_dumps_allowed_by_env env then s
                else case disable_core_dumps L (proc s) of
                  (Err e, w) \<Rightarrow> warn_core_disable_failed (os e) (s\<lparr>proc := w\<rparr>)
                | (Ok _, w) \<Rightarrow> s\<lparr>proc := w\<rparr>)"
  have s1: "draws (proc s1) = draws (proc s)"
    by (auto simp: s1_def warn_core_disable_failed_def disable_core_dumps_def Let_def split: prod.splits sum.splits)
  obtain r w where i: "sodium_init L (proc s1) = (r, w)" by fastforce
  show ?thesis
    using assms s1 i sodium_init_draws [OF i] unfolding lunet_paxe_init_def s1_def [symmetric]
    by (auto simp: Let_def fail_def set_last_error_def register_exit_hook_def split: sum.splits if_splits)
qed

lemma keystore_call_draws:
  "lunet_paxe_set_local_id L n s = (rc, s') \<Longrightarrow> draws (proc s') = draws (proc s)"
  "lunet_paxe_keystore_set L p e k m s = (rc, s') \<Longrightarrow> draws (proc s') = draws (proc s)"
  "lunet_paxe_keystore_retire L p e s = (rc, s') \<Longrightarrow> draws (proc s') = draws (proc s)"
  "lunet_paxe_keystore_clear L s = (rc, s') \<Longrightarrow> draws (proc s') = draws (proc s)"
  "draws (proc (lunet_paxe_shutdown L s)) = draws (proc s)"
  by (auto simp: lunet_paxe_set_local_id_def keystore_new_def lunet_paxe_keystore_set_def lunet_paxe_keystore_retire_def
      lunet_paxe_keystore_clear_def keystore_clear_def lunet_paxe_shutdown_def shutdown_state_def keystore_drop_def Let_def drop_draws
      invalid_def fail_def set_last_error_def
      dest: install_draws retire_draws sodium_init_draws split: prod.splits sum.splits option.splits if_splits)

lemma check_draws:
  "lunet_paxe_frame_for_us fp fl s = (rc, s') \<Longrightarrow> draws (proc s') = draws (proc s)"
  "lunet_paxe_fail_policy_set np nl s = (rc, s') \<Longrightarrow> draws (proc s') = draws (proc s)"
  by (auto simp: lunet_paxe_frame_for_us_def lunet_paxe_fail_policy_set_def Let_def invalid_def set_last_error_def
      split: if_splits sum.splits option.splits)

lemma seal_draws: "lunet_paxe_seal L pp pl to ch op cap nul s = Some ((rc, s'), out, n) \<Longrightarrow> draws (proc s) \<le> draws (proc s')"
proof -
  have "dek_seal L store dest chan e m w = Some (r, w') \<Longrightarrow> draws w \<le> draws w'" for store dest chan e m w r w'
    by (auto simp: dek_seal_def seal_def random_nonce_eq split: if_splits Option.bind_splits sum.splits seal_error.splits)
  then show "lunet_paxe_seal L pp pl to ch op cap nul s = Some ((rc, s'), out, n) \<Longrightarrow> draws (proc s) \<le> draws (proc s')"
    by (auto simp: lunet_paxe_seal_def Let_def invalid_def fail_def set_last_error_def
        split: if_splits sum.splits option.splits prod.splits Option.bind_splits)
qed

lemma open_draws:
  assumes "sodium_contract L" "session_inv s" "lunet_paxe_open L fp fl op cap nul s = Some ((rc, s'), out, n)"
  shows "draws (proc s') = draws (proc s)"
proof (cases "\<exists>frame out store. \<not> nul \<and> buf_in fp fl (str ''frame'') = Ok frame \<and> buf_out op cap (str ''payload output'') = Ok out \<and> STORE s = Some store")
  case True
  then obtain frame out' store where o: "\<not> nul" "buf_in fp fl (str ''frame'') = Ok frame" "buf_out op cap (str ''payload output'') = Ok out'"
    "STORE s = Some store" by blast
  have nul: "nul = False" using o(1) by simp
  have ks: "ks_inv (proc s) store" using session_invD(1) [OF assms(2)] o(4) by (simp add: store_ok_def)
  have acc: "w = proc s \<or> w = wipe_dek (proc s)" if "dek_open L store frame (proc s) (counters s) = Some (r, w, st)" for r w st
    using dek_open_accounts [OF sodium_contractD(1,2) [OF assms(1)] ks that] by blast
  show ?thesis
    by (rule open_cases [OF assms(1,2) o(4,2,3)])
      (use assms(3) acc nul in \<open>auto simp: invalid_def set_last_error_def wipe_dek_def split: if_splits\<close>)
next
  case False
  then show ?thesis using assms(3)
    by (auto simp: lunet_paxe_open_def Let_def invalid_def set_last_error_def split: sum.splits option.splits if_splits)
qed

lemma exec_draws:
  assumes "sodium_contract L" "session_inv s" "exec L os c s = Some (rc, s')"
  shows "draws (proc s) \<le> draws (proc s')"
  using assms(3) by (cases c) (auto dest: init_draws keystore_call_draws(1-4) check_draws seal_draws open_draws [OF assms(1,2)] simp: keystore_call_draws(5))

interpretation generator: safe_machine "exec L os" "\<lambda>s. sodium_contract L \<and> session_inv s" "\<lambda>s s'. draws (proc s) \<le> draws (proc s')" for L os
  using api.step_inv by unfold_locales (auto dest: exec_draws)

text \<open>The gate of a protected socket, and the destination bytes of a frame that parses.\<close>

lemma two_bytes: "length xs = 2 \<Longrightarrow> \<exists>a b. xs = [a, b]"
  by (auto simp: numeral_2_eq_2 length_Suc_conv)

lemma u16_bytes_iff: "u16_from_be_bytes a b = x \<longleftrightarrow> [a, b] = u16_to_be_bytes x"
proof
  assume "[a, b] = u16_to_be_bytes x"
  then have "u16_from_be_bytes a b = u16_from_be_bytes (ucast (drop_bit 8 x)) (ucast x)"
    by (simp add: u16_to_be_bytes_def)
  then show "u16_from_be_bytes a b = x" by (simp only: u16_from_to_be)
qed auto

lemma gate_verdict:
  assumes "buf_in fp fl (str ''frame'') = Ok frame" "STORE s = Some store"
  shows "lunet_paxe_frame_for_us fp fl s =
    (if 9 \<le> length frame \<and> take 2 (drop 2 frame) = u16_to_be_bytes (ks_local_id store) then (1, s)
     else (0, s\<lparr>counters := record_reject RPlaintext (record_rx_drop (counters s))\<rparr>))"
proof (cases "9 \<le> length frame")
  case True
  then obtain a b where ab: "take 2 (drop 2 frame) = [a, b]" using two_bytes [of "take 2 (drop 2 frame)"] by auto
  then have "subslice 2 4 frame = Some [a, b]" using True by simp
  with True assms ab show ?thesis
    by (simp add: lunet_paxe_frame_for_us_def Let_def PREFIX_LEN_def u16_bytes_iff)
next
  case False
  with assms show ?thesis by (simp add: lunet_paxe_frame_for_us_def Let_def PREFIX_LEN_def)
qed

lemma parse_prefix_dest:
  assumes "parse_prefix frame = Ok (hdr, fl)"
  shows "9 \<le> length frame \<and> take 2 (drop 2 frame) = u16_to_be_bytes (to_id hdr)"
proof -
  have frame: "frame = serialize_prefix hdr fl @ drop 9 frame" using parse_prefix_sound [OF assms] by simp
  then have "9 \<le> length frame" using length_serialize_prefix [of hdr fl] by (metis le_add1 length_append)
  moreover have "take 2 (drop 2 frame) = u16_to_be_bytes (to_id hdr)"
    by (subst frame) (simp add: serialize_prefix_def header_to_bytes_def u16_to_be_bytes_def u32_to_be_bytes_def)
  ultimately show ?thesis by simp
qed

section \<open>Properties\<close>

text \<open>C1. A payload sealed through the C interface of one node and presented to the C interface of
  another that shares the sender's newest key opens there: the frame is 37 bytes longer than the
  payload, the receiver gets the payload, the sender's id and the channel, in standard mode, and
  both calls return success.\<close>

theorem ffi_roundtrip:
  assumes "sodium_contract L" "session_inv a" "session_inv b" "STORE a = Some sa" "STORE b = Some sb"
    and "unat to < 65536" "ks_local_id sb = ucast to" "ch = 0 \<or> 100 \<le> ch"
    and "current (proc a) sa (ucast to) = Some (e, key)"
    and "lookup (proc b) sb (ks_local_id sa) e = Some key"
    and "length payload \<le> MAX_PAYLOAD" "length payload + 37 \<le> length out" "length payload \<le> length out2"
  shows "\<exists>frame a' b'. length frame = length payload + 37 \<and>
    lunet_paxe_seal L (Some payload) (length payload) to ch (Some out) (length out) False a =
      Some ((RC_OK, a'), overwrite out frame, Some (length frame)) \<and>
    lunet_paxe_open L (Some frame) (length frame) (Some out2) (length out2) False b =
      Some ((RC_OK, b'), overwrite out2 payload,
        Some \<lparr>op_len = length payload, op_from = ucast (ks_local_id sa), op_channel = ch, op_mode = 0\<rparr>)"
proof -
  note L = sodium_contractD [OF assms(1)]
  define n where "n = x_random L (draws (proc a)) NPUBBYTES"
  define frame where "frame = std_frame L key (ks_local_id sa) (ucast to) ch e n payload"
  have ksb: "ks_inv (proc b) sb" using session_invD(1) [OF assms(3)] assms(5) by (simp add: store_ok_def)
  have k: "length key = KEYBYTES" using ks.look_ok [of "(proc b, sb)"] ksb assms(10) by auto
  have n: "length n = NPUBBYTES" using L(3) by (simp add: n_def random_contract_def)
  have len: "length frame = length payload + 37"
    unfolding frame_def length_std_frame [OF L(1) k n] by (simp add: OVERHEAD_37)
  have ch: "check_channel ch = Ok ch"
    using assms(8) order_trans [of 100 ch 99] by (auto simp: check_channel_def)
  have seal: "lunet_paxe_seal L (Some payload) (length payload) to ch (Some out) (length out) False a =
      Some ((RC_OK, a\<lparr>proc := (proc a)\<lparr>draws := Suc (draws (proc a))\<rparr>,
        counters := record_tx_sealed Standard (counters a)\<rparr>), overwrite out frame, Some (length frame))"
    using seal_checked [OF assms(1,2) _ ch _ _ assms(11,4,9), of to "Some payload" "length payload" "Some out" "length out" out]
      assms(6,12) len
    by (simp add: check_u16_def buf_in_def buf_out_def OVERHEAD_37 frame_def n_def Let_def)
  have open_b: "dek_open L sb frame (proc b) (counters b) =
      Some (Ok (\<lparr>from_id = ks_local_id sa, to_id = ucast to, channel = ch\<rparr>, flags_new Standard e, payload),
        proc b, counters b)"
    using dek_open_standard [OF L(1,2) ksb n assms(10), of ch payload "counters b"] assms(7)
    by (simp add: frame_def)
  have "frame \<noteq> []" using len by auto
  then have "lunet_paxe_open L (Some frame) (length frame) (Some out2) (length out2) False b =
      Some ((RC_OK, b\<lparr>counters := record_rx_ok (counters b)\<rparr>), overwrite out2 payload,
        Some \<lparr>op_len = length payload, op_from = ucast (ks_local_id sa), op_channel = ch, op_mode = 0\<rparr>)"
    using assms(5,13) open_b
    by (auto simp: lunet_paxe_open_def Let_def buf_in_def buf_out_def flags_new_sel not_less)
  with seal len show ?thesis by blast
qed

theorem ffi_roundtrip_witness:
  "\<exists>frame a' b'. length frame = 2 + 37 \<and>
    lunet_paxe_seal demo_sodium (Some (replicate 2 9)) 2 2 100 (Some (replicate 39 0)) 39 False (demo_session 1 2 3) =
      Some ((RC_OK, a'), overwrite (replicate 39 0) frame, Some (length frame)) \<and>
    lunet_paxe_open demo_sodium (Some frame) (length frame) (Some (replicate 2 0)) 2 False (demo_session 2 1 3) =
      Some ((RC_OK, b'), overwrite (replicate 2 0) (replicate 2 9),
        Some \<lparr>op_len = 2, op_from = 1, op_channel = 100, op_mode = 0\<rparr>)"
proof -
  note a = demo_session_eq(1) [of 1 2 3] demo_session_eq(1) [of 2 1 3]
  note p = demo_session_eq(2) [of 1 2 3] demo_session_eq(2) [of 2 1 3]
  show ?thesis
    using ffi_roundtrip [OF demo_contract demo_session_inv demo_session_inv a, of 2 100 "Epoch 3" demo_key
        "replicate 2 9" "replicate 39 0" "replicate 2 0"] a p
    by (simp add: MAX_PAYLOAD_def MAX_UDP_DATAGRAM_def OVERHEAD_37 demo_lookup demo_current demo_epoch_3)
      (simp add: demo_store_def)
qed

text \<open>C3. The documented accounting invariant: after any sequence of calls from process start, and
  until the 64-bit total saturates, the frames received are the frames opened plus the frames
  rejected, summed over the seven reasons.\<close>

theorem api_counters_balance:
  assumes "sodium_contract L" "fresh_process w" "reachable (exec L os) (session_start w) s"
    and "unat (rx_total (snapshot (counters s))) < U64_MAX"
  shows "unat (rx_total (snapshot (counters s))) =
    unat (rx_ok (snapshot (counters s))) + sum_list (map (\<lambda>r. unat (reject (snapshot (counters s)) r)) ALL_REASONS)"
proof -
  have inv: "session_inv s" by (rule reachable_session [OF assms(1-3)])
  have "balanced (counters s)" using session_invD(4) [OF inv] assms(4) by (simp add: accounted_def snapshot_def)
  then show ?thesis
    using reject_total_reasons [OF session_invD(3) [OF inv]] by (simp add: balanced_def snapshot_def)
qed

theorem api_counters_balance_witness:
  "unat (rx_total (snapshot (counters (demo_session 1 2 3)))) =
    unat (rx_ok (snapshot (counters (demo_session 1 2 3)))) +
    sum_list (map (\<lambda>r. unat (reject (snapshot (counters (demo_session 1 2 3))) r)) ALL_REASONS)"
  by (rule api_counters_balance [OF demo_contract fresh_process_demo demo_reachable [of "\<lambda>_. []"]])
    (simp add: demo_session_eq(3) snapshot_def stats_init_def stats_zero_def U64_MAX_def)



text \<open>C6. Shutdown erases: from any reachable state, shutdown leaves no store, no live guarded region and
  no last error; each installed key is zeroed before its region is handed to \<open>sodium_free\<close>, and
  no region released and no data key dropped in the life of the process was left holding anything
  but zeroes. The same holds at process exit once an exit hook has been registered.\<close>

theorem shutdown_erases_keys:
  assumes "sodium_contract L" "fresh_process w" "reachable (exec L os) (session_start w) s"
    and "s' = lunet_paxe_shutdown L s \<or> s' = process_exit L s \<and> 0 < exit_hooks (proc s)"
  shows "STORE s' = None \<and> heap (proc s') = [] \<and> LAST_ERROR s' = [] \<and>
    released (proc s') = replicate (case STORE s of None \<Rightarrow> 0 | Some store \<Rightarrow> keystore_len store)
      (zeros KEYBYTES, zeros KEYBYTES) @ released (proc s) \<and>
    (\<forall>(_, left) \<in> set (released (proc s')). left = zeros KEYBYTES) \<and>
    (\<forall>d \<in> set (wiped (proc s')). d = zeros KEYBYTES)"
proof -
  have inv: "session_inv s" by (rule reachable_session [OF assms(1-3)])
  have s': "s' = shutdown_state L s"
    using assms(4) by (auto simp: lunet_paxe_shutdown_def process_exit_def shutdown_at_exit_def [abs_def]
        shutdown_power)
  note M = sodium_contractD(2) [OF assms(1)]
  have "residue_ok (proc s')" using shutdown_step [OF M inv] session_invD(2) by (simp add: s')
  moreover have "heap (proc s') = [] \<and> released (proc s') =
      replicate (case STORE s of None \<Rightarrow> 0 | Some store \<Rightarrow> keystore_len store)
      (zeros KEYBYTES, zeros KEYBYTES) @ released (proc s)"
  proof (cases "STORE s")
    case None
    then show ?thesis using session_invD(1) [OF inv] by (simp add: s' shutdown_state_def Let_def store_ok_def)
  next
    case (Some store)
    then have ks: "ks_inv (proc s) store" using session_invD(1) [OF inv] by (simp add: store_ok_def)
    from clear_refines [OF M ks] Some show ?thesis
      by (simp add: s' shutdown_state_def Let_def keystore_drop_def keystore_clear_def)
  qed
  ultimately show ?thesis by (simp add: s' shutdown_state_def Let_def residue_ok_def)
qed

theorem shutdown_erases_keys_witness:
  "heap (proc (lunet_paxe_shutdown demo_sodium (demo_session 1 2 3))) = [] \<and>
   released (proc (lunet_paxe_shutdown demo_sodium (demo_session 1 2 3))) = [(zeros 32, zeros 32)]"
  using shutdown_erases_keys [OF demo_contract fresh_process_demo demo_reachable [of "\<lambda>_. []" 1 2 3] disjI1 [OF refl]]
  by (simp add: demo_session_eq(1,2) keystore_len_def demo_store_def demo_world_def fresh_world_def KEYBYTES_def)

text \<open>C4. A drop is opaque. When an open returns the drop code, the output region is untouched and none
  of the four results is written, the last error, the store and the keys are what they were, and
  the verdict shows only in the counters: none move if no identity is configured, and otherwise
  the total and exactly one reason do, the reason determined by the frame and the store.\<close>

theorem drop_is_opaque:
  assumes "sodium_contract L" "session_inv s"
    and "lunet_paxe_open L fp fl op cap nul s = Some ((RC_DROP, s'), out', res)"
  shows "out' = (case op of None \<Rightarrow> [] | Some bs \<Rightarrow> take cap bs) \<and> res = None \<and>
    STORE s' = STORE s \<and> LAST_ERROR s' = LAST_ERROR s \<and> heap (proc s') = heap (proc s) \<and>
    counters s' = (case STORE s of
        None \<Rightarrow> counters s
      | Some store \<Rightarrow> record_rx_drop (record_reject
          (drop_reason (proc s) store (case fp of None \<Rightarrow> [] | Some bs \<Rightarrow> take fl bs)) (counters s)))"
proof (cases "\<exists>frame out store. \<not> nul \<and> buf_in fp fl (str ''frame'') = Ok frame \<and>
      buf_out op cap (str ''payload output'') = Ok out \<and> STORE s = Some store")
  case False
  with open_unchecked [OF assms(3)] show ?thesis by (auto simp: rc_defs)
next
  case True
  then obtain frame out store where ok: "\<not> nul" "buf_in fp fl (str ''frame'') = Ok frame"
    "buf_out op cap (str ''payload output'') = Ok out" "STORE s = Some store" by blast
  have frame: "frame = (case fp of None \<Rightarrow> [] | Some bs \<Rightarrow> take fl bs)"
    using ok(2) by (auto simp: buf_in_def split: if_splits option.splits)
  show ?thesis
    by (rule open_cases [OF assms(1,2) ok(4,2,3)])
      (use assms(3) ok(1,4) frame in \<open>auto simp: rc_defs wipe_dek_def invalid_def split: if_splits\<close>)
qed

theorem drop_is_opaque_witness:
  "\<exists>s'. lunet_paxe_open demo_sodium (Some [1, 2, 3]) 3 (Some [9, 9]) 2 False (demo_session 1 2 3) =
      Some ((RC_DROP, s'), [9, 9], None) \<and>
    LAST_ERROR s' = LAST_ERROR (demo_session 1 2 3) \<and>
    counters s' = record_rx_drop (record_reject RTooShort stats_init)"
proof -
  have p: "parse_prefix [1, 2, 3] = Err (TooShort 3)" by code_simp
  note d = demo_session_eq [of 1 2 3]
  obtain s' where o: "lunet_paxe_open demo_sodium (Some [1, 2, 3]) 3 (Some [9, 9]) 2 False (demo_session 1 2 3) =
      Some ((RC_DROP, s'), [9, 9], None)"
    using d by (simp add: lunet_paxe_open_def Let_def buf_in_def buf_out_def dek_open_def p)
  from drop_is_opaque [OF demo_contract demo_session_inv o] o d show ?thesis
    by (simp add: drop_reason_def p)
qed

text \<open>C20. What an open delivers is authentic. When an open returns success, the frame is the sealing of
  the delivered payload under a key this node holds for the reported source, addressed to this
  node, on the reported channel and in the reported mode; the payload is at the front of the
  output buffer, the frame counts as opened, and the store, the guarded memory with every key in it
  and the last error are unchanged.\<close>

theorem open_delivers_authentic:
  assumes "sodium_contract L" "session_inv s"
    and "lunet_paxe_open L fp fl (Some buf) cap nul s = Some ((RC_OK, s'), out', res)"
  shows "\<exists>store hdr fl' key payload. STORE s = Some store \<and> to_id hdr = ks_local_id store \<and>
    lookup (proc s) store (from_id hdr) (flags_epoch fl') = Some key \<and>
    sealed_frame L key hdr fl' payload (case fp of None \<Rightarrow> [] | Some bs \<Rightarrow> take fl bs) \<and>
    res = Some \<lparr>op_len = length payload, op_from = ucast (from_id hdr), op_channel = channel hdr,
      op_mode = (case flags_mode fl' of Standard \<Rightarrow> 0 | Dek \<Rightarrow> 1)\<rparr> \<and>
    length payload \<le> cap \<and> out' = overwrite (take cap buf) payload \<and>
    counters s' = record_rx_ok (counters s) \<and> STORE s' = STORE s \<and> heap (proc s') = heap (proc s) \<and>
    LAST_ERROR s' = LAST_ERROR s"
proof -
  note L = sodium_contractD [OF assms(1)]
  obtain frame out store where ok: "\<not> nul" "buf_in fp fl (str ''frame'') = Ok frame"
    "buf_out (Some buf) cap (str ''payload output'') = Ok out" "STORE s = Some store"
    using open_unchecked [OF assms(3)] by (auto simp: rc_defs)
  have frame: "frame = (case fp of None \<Rightarrow> [] | Some bs \<Rightarrow> take fl bs)"
    using ok(2) by (auto simp: buf_in_def split: if_splits option.splits)
  have out: "out = take cap buf" using ok(3) by (auto simp: buf_out_def split: if_splits)
  have ks: "ks_inv (proc s) store" using session_invD(1) [OF assms(2)] ok(4) by (simp add: store_ok_def)
  show ?thesis
  proof (rule open_cases [OF assms(1,2) ok(4,2,3)])
    fix hdr fl' m w
    assume d: "dek_open L store frame (proc s) (counters s) = Some (Ok (hdr, fl', m), w, counters s)"
      and o: "lunet_paxe_open L fp fl (Some buf) cap False s =
        (if length m > length out then
           Some (invalid (str ''payload output buffer too small: need '' @ show_nat (length m) @ str '', have '' @
             show_nat (length out)) (s\<lparr>proc := w\<rparr>), (case Some buf of None \<Rightarrow> [] | Some bs \<Rightarrow> take cap bs), None)
         else Some ((RC_OK, s\<lparr>proc := w, counters := record_rx_ok (counters s)\<rparr>), overwrite out m,
           Some \<lparr>op_len = length m, op_from = ucast (from_id hdr), op_channel = channel hdr,
             op_mode = (case flags_mode fl' of Standard \<Rightarrow> 0 | Dek \<Rightarrow> 1)\<rparr>))"
    from dek_open_accepts [OF L(1,2) ks d] obtain key where
      "to_id hdr = ks_local_id store" "lookup (proc s) store (from_id hdr) (flags_epoch fl') = Some key"
      "sealed_frame L key hdr fl' m frame" by blast
    moreover from o assms(3) ok(1) have "length m \<le> length out" "out' = overwrite out m"
      "s' = s\<lparr>proc := w, counters := record_rx_ok (counters s)\<rparr>"
      "res = Some \<lparr>op_len = length m, op_from = ucast (from_id hdr), op_channel = channel hdr,
             op_mode = (case flags_mode fl' of Standard \<Rightarrow> 0 | Dek \<Rightarrow> 1)\<rparr>"
      by (auto simp: rc_defs invalid_def split: if_splits)
    moreover from this have "length m \<le> cap" by (simp add: out)
    moreover have "heap w = heap (proc s)" using dek_open_accounts [OF L(1,2) ks d] by (auto simp: wipe_dek_def)
    ultimately show ?thesis using ok(4) by (fastforce simp: frame [symmetric] out)
  qed (use assms(3) ok(1) in \<open>auto simp: rc_defs\<close>)
qed

theorem open_delivers_authentic_witness:
  "\<exists>s' out' res hdr fl' key payload.
    lunet_paxe_open demo_sodium (Some (std_frame demo_sodium demo_key 2 1 100 (Epoch 3) (replicate 12 8) [5, 6])) 39
      (Some [0, 0]) 2 False (demo_session 1 2 3) = Some ((RC_OK, s'), out', res) \<and>
    sealed_frame demo_sodium key hdr fl' payload
      (std_frame demo_sodium demo_key 2 1 100 (Epoch 3) (replicate 12 8) [5, 6]) \<and>
    to_id hdr = 1 \<and> out' = overwrite [0, 0] payload"
proof -
  note d = demo_session_eq [of 1 2 3]
  define f where "f = std_frame demo_sodium demo_key 2 1 100 (Epoch 3) (replicate 12 8) [5, 6]"
  have id: "ks_local_id (demo_store 1 2 (Epoch 3)) = 1" by (simp add: demo_store_def)
  have n: "length (replicate 12 8 :: bytes) = NPUBBYTES" by (simp add: NPUBBYTES_def)
  have len: "length f = 39"
    unfolding f_def using length_std_frame [OF demo_aead _ n] by (simp add: demo_key_length KEYBYTES_def OVERHEAD_37)
  have "dek_open demo_sodium (demo_store 1 2 (Epoch 3)) f demo_world stats_init =
      Some (Ok (\<lparr>from_id = 2, to_id = 1, channel = 100\<rparr>, flags_new Standard (Epoch 3), [5, 6]), demo_world, stats_init)"
    using dek_open_standard [OF demo_aead demo_memory demo_ks_inv [OF demo_epoch_3, of 1 2] n, of 2 "Epoch 3" demo_key]
    by (simp add: id demo_lookup f_def)
  then obtain s' out' res where o: "lunet_paxe_open demo_sodium (Some f) 39 (Some [0, 0]) 2 False (demo_session 1 2 3) =
      Some ((RC_OK, s'), out', res)"
    using d len by (simp add: lunet_paxe_open_def Let_def buf_in_def buf_out_def)
  from open_delivers_authentic [OF demo_contract demo_session_inv o] o d len show ?thesis
    unfolding f_def [symmetric] by (auto simp: id)
qed

text \<open>The identity is fixed: no call except shutdown changes the configured local id, and only
  \<open>lunet_paxe_set_local_id\<close>, on an unconfigured session, can set one.\<close>

lemma identity_fixed:
  assumes "exec L os c s = Some (rc, s')"
  shows "(c \<noteq> Shutdown \<longrightarrow> STORE s \<noteq> None \<longrightarrow>
      map_option ks_local_id (STORE s') = map_option ks_local_id (STORE s)) \<and>
    (STORE s = None \<longrightarrow> STORE s' \<noteq> None \<longrightarrow>
      (\<exists>n. c = SetLocalId n \<and> unat n < 65536 \<and> map_option ks_local_id (STORE s') = Some (ucast n)))"
proof (cases "c = Shutdown \<or> (\<exists>n. c = SetLocalId n)")
  case True
  then show ?thesis using assms set_local_id_identity [of L _ s rc s']
    by (auto simp: lunet_paxe_shutdown_def shutdown_state_def Let_def)
next
  case False
  then have "map_option ks_local_id (STORE s') = map_option ks_local_id (STORE s)"
    using assms by (cases c) (auto dest: init_store seal_store open_store quiet_store keystore_call_identity)
  then show ?thesis using False by (auto simp: option.map_sel)
qed

text \<open>Counters never go back: along any sequence of calls each of the thirteen exported counters is
  at least what it was.\<close>

lemma counters_never_decrease:
  assumes "sodium_contract L" "session_inv s" "reachable (exec L os) s s'"
  shows "list_all2 (\<le>) (stats_fields (snapshot (counters s))) (stats_fields (snapshot (counters s')))"
  using api.reachable_inv [OF assms(3)] assms(1,2) by (simp add: later_def stats_le_def snapshot_def)

text \<open>C10. No nonce draw serves two frames. The twelve nonce bytes of a sealed frame are one draw of the
  generator, and of two successful seals in the life of a process the later one, whatever was called
  between them, uses a later draw.\<close>

theorem nonces_never_reused:
  assumes "sodium_contract L" "session_inv s"
    and "lunet_paxe_seal L pp pl to ch op cap nul s = Some ((RC_OK, s1), out1, len1)" "reachable (exec L os) s1 s2"
    and "lunet_paxe_seal L pp' pl' to' ch' op' cap' nul' s2 = Some ((RC_OK, s3), out2, len2)"
  shows "\<exists>i j. i < j \<and> take NPUBBYTES (drop PREFIX_LEN out1) = x_random L i NPUBBYTES \<and>
    take NPUBBYTES (drop PREFIX_LEN out2) = x_random L j NPUBBYTES"
proof -
  have inv: "session_inv s1" using api.step_inv [of L s os "Seal pp pl to ch op cap nul" RC_OK s1] assms(1-3) by simp
  then have "session_inv s2" using api.reachable_inv [OF assms(4)] assms(1) by blast
  note two = sealed_nonce [OF assms(1,2,3)] sealed_nonce [OF assms(1) this assms(5)]
  have "draws (proc s1) \<le> draws (proc s2)" using generator.reachable_inv [OF assms(4)] inv assms(1) by blast
  with two show ?thesis by (intro exI [of _ "draws (proc s)"] exI [of _ "draws (proc s2)"]) simp
qed

lemma demo_seal:
  assumes "session_inv s" "STORE s = Some (demo_store 1 2 (Epoch 3))" "heap (proc s) = heap demo_world"
  shows "\<exists>s1 out1 l1. lunet_paxe_seal demo_sodium (Some [5]) 1 2 100 (Some (replicate 38 0)) 38 False s = Some ((RC_OK, s1), out1, l1) \<and>
    STORE s1 = STORE s \<and> heap (proc s1) = heap (proc s)"
proof -
  have c: "current (proc s) (demo_store 1 2 (Epoch 3)) (ucast (2 :: u32)) = Some (Epoch 3, demo_key)"
  proof -
    have "current (proc s) (demo_store 1 2 (Epoch 3)) 2 = current demo_world (demo_store 1 2 (Epoch 3)) 2"
      by (simp add: current_def expose_def galloc_slice_def mem_def assms(3))
    then show ?thesis using demo_current [OF demo_epoch_3] by simp
  qed
  have "check_u16 2 (str ''destination node id'') = Ok (ucast (2 :: u32))" "check_channel 100 = Ok 100"
    "buf_in (Some [5]) 1 (str ''payload'') = Ok [5]" "buf_out (Some (replicate 38 0)) 38 (str ''frame output'') = Ok (replicate 38 0)"
    "length [5 :: byte] \<le> MAX_PAYLOAD" by (simp_all add: check_iff MAX_PAYLOAD_def MAX_UDP_DATAGRAM_def OVERHEAD_37)
  from seal_checked [OF demo_contract assms(1) this assms(2) c] show ?thesis by (simp add: OVERHEAD_37 Let_def)
qed

lemma demo_session_store:
  "STORE (demo_session 1 2 3) = Some (demo_store 1 2 (Epoch 3))" "heap (proc (demo_session 1 2 3)) = heap demo_world"
  using demo_session_eq [of 1 2 3] by simp_all

theorem nonces_never_reused_witness:
  "\<exists>s1 out1 l1 s3 out2 l2 i j.
    lunet_paxe_seal demo_sodium (Some [5]) 1 2 100 (Some (replicate 38 0)) 38 False (demo_session 1 2 3) = Some ((RC_OK, s1), out1, l1) \<and>
    lunet_paxe_seal demo_sodium (Some [5]) 1 2 100 (Some (replicate 38 0)) 38 False s1 = Some ((RC_OK, s3), out2, l2) \<and> i < j \<and>
    take NPUBBYTES (drop PREFIX_LEN out1) = x_random demo_sodium i NPUBBYTES \<and>
    take NPUBBYTES (drop PREFIX_LEN out2) = x_random demo_sodium j NPUBBYTES"
proof -
  obtain s1 out1 l1 where 1: "lunet_paxe_seal demo_sodium (Some [5]) 1 2 100 (Some (replicate 38 0)) 38 False (demo_session 1 2 3) = Some ((RC_OK, s1), out1, l1)"
    "STORE s1 = Some (demo_store 1 2 (Epoch 3))" "heap (proc s1) = heap demo_world" using demo_seal [OF demo_session_inv demo_session_store] demo_session_store by auto
  have "session_inv s1"
    using api.step_inv [of demo_sodium "demo_session 1 2 3" "\<lambda>_. []" "Seal (Some [5]) 1 2 100 (Some (replicate 38 0)) 38 False" RC_OK s1]
      demo_contract demo_session_inv 1(1) by simp
  from demo_seal [OF this 1(2,3)] obtain s3 out2 l2 where
    2: "lunet_paxe_seal demo_sodium (Some [5]) 1 2 100 (Some (replicate 38 0)) 38 False s1 = Some ((RC_OK, s3), out2, l2)" by blast
  from nonces_never_reused [OF demo_contract demo_session_inv 1(1) reachable_start 2] 1(1) 2 show ?thesis by blast
qed

text \<open>C33. When sealing succeeds, for a channel in the documented 16-bit range: exactly when the length
  pointer is given, the destination fits 16 bits, the channel is not one of 1 to 99, no non-empty
  buffer is NULL, the payload is within the limit, an identity is configured, a key for the
  destination is installed, and the output has room for 37 bytes more than the payload. On any
  failure the output region is untouched, no length is written, and no frame is counted as sent.\<close>

theorem seal_succeeds_iff:
  assumes "sodium_contract L" "session_inv s"
    and "lunet_paxe_seal L pp pl to ch op cap nul s = Some ((rc, s'), out', n)" "unat ch < 65536"
  shows "(rc = RC_OK \<longleftrightarrow> can_seal pp pl to ch op cap nul s) \<and>
    (rc \<noteq> RC_OK \<longrightarrow> out' = (case op of None \<Rightarrow> [] | Some bs \<Rightarrow> take cap bs) \<and> n = None \<and>
      tx_total (snapshot (counters s')) = tx_total (snapshot (counters s)))"
proof (cases "\<not> nul \<and> (\<exists>dest chan payload out store e key.
      check_u16 to (str ''destination node id'') = Ok dest \<and> check_channel ch = Ok chan \<and>
      buf_in pp pl (str ''payload'') = Ok payload \<and> buf_out op cap (str ''frame output'') = Ok out \<and>
      length payload \<le> MAX_PAYLOAD \<and> STORE s = Some store \<and> current (proc s) store dest = Some (e, key))")
  case False
  have "\<not> can_seal pp pl to ch op cap nul s"
    using False by (auto simp: can_seal_def check_iff Let_def split: option.splits)
  with seal_refused [OF assms(3) False] show ?thesis by blast
next
  case True
  then obtain dest chan payload out store e key where ok: "\<not> nul"
    "check_u16 to (str ''destination node id'') = Ok dest" "check_channel ch = Ok chan"
    "buf_in pp pl (str ''payload'') = Ok payload" "buf_out op cap (str ''frame output'') = Ok out"
    "length payload \<le> MAX_PAYLOAD" "STORE s = Some store" "current (proc s) store dest = Some (e, key)"
    by blast
  have can: "can_seal pp pl to ch op cap False s \<longleftrightarrow> length payload + OVERHEAD \<le> length out"
    using ok by (auto simp: can_seal_def check_iff Let_def OVERHEAD_37)
  have nul: "nul = False" using ok(1) by simp
  show ?thesis
    using assms(3) unfolding nul using seal_checked [OF assms(1,2) ok(2-8)]
    by (auto simp: can Let_def rc_defs snapshot_def invalid_def set_last_error_def split: if_splits)
qed

theorem seal_succeeds_iff_witness:
  "(\<exists>rc s' out' n. lunet_paxe_seal demo_sodium (Some [5]) 1 2 50 (Some [0]) 1 False (demo_session 1 2 3) =
      Some ((rc, s'), out', n) \<and> rc \<noteq> RC_OK \<and> out' = [0] \<and> n = None) \<and>
   can_seal (Some [5]) 1 2 100 (Some (replicate 38 0)) 38 False (demo_session 1 2 3)"
proof
  obtain rc s' out' n where o: "lunet_paxe_seal demo_sodium (Some [5]) 1 2 50 (Some [0]) 1 False (demo_session 1 2 3) =
      Some ((rc, s'), out', n)"
    using seal_step [OF demo_contract demo_session_inv] by blast
  from seal_succeeds_iff [OF demo_contract demo_session_inv o] o
  show "\<exists>rc s' out' n. lunet_paxe_seal demo_sodium (Some [5]) 1 2 50 (Some [0]) 1 False (demo_session 1 2 3) =
      Some ((rc, s'), out', n) \<and> rc \<noteq> RC_OK \<and> out' = [0] \<and> n = None" by (simp add: can_seal_def)
next
  obtain s' out' n where o: "lunet_paxe_seal demo_sodium (Some [5]) 1 2 100 (Some (replicate 38 0)) 38 False (demo_session 1 2 3) =
      Some ((RC_OK, s'), out', n)"
    using demo_seal [OF demo_session_inv demo_session_store] by blast
  from seal_succeeds_iff [OF demo_contract demo_session_inv o]
  show "can_seal (Some [5]) 1 2 100 (Some (replicate 38 0)) 38 False (demo_session 1 2 3)" by simp
qed

text \<open>C21. The protected-socket gate: with an identity configured, a frame passes exactly when it has at
  least nine bytes and bytes 2 and 3 are the local id in big-endian order; then nothing changes.
  Otherwise the total and the plaintext reason are counted, and the gate hides nothing: opening
  that frame drops it as well.\<close>

theorem gate_agrees_with_open:
  assumes "sodium_contract L" "session_inv s" "STORE s = Some store"
    and "lunet_paxe_frame_for_us (Some frame) (length frame) s = (rc, s')"
  shows "if 9 \<le> length frame \<and> take 2 (drop 2 frame) = u16_to_be_bytes (ks_local_id store) then rc = 1 \<and> s' = s
    else rc = 0 \<and> s' = s\<lparr>counters := record_reject RPlaintext (record_rx_drop (counters s))\<rparr> \<and>
      (\<exists>s2. lunet_paxe_open L (Some frame) (length frame) (Some buf) (length buf) False s = Some ((RC_DROP, s2), buf, None))"
proof -
  have frame: "buf_in (Some frame) (length frame) (str ''frame'') = Ok frame" by (simp add: check_iff)
  have out: "buf_out (Some buf) (length buf) (str ''payload output'') = Ok buf" by (simp add: check_iff)
  have ks: "ks_inv (proc s) store" using session_invD(1) [OF assms(2)] assms(3) by (simp add: store_ok_def)
  note gate = gate_verdict [OF frame assms(3)]
  show ?thesis
  proof (cases "9 \<le> length frame \<and> take 2 (drop 2 frame) = u16_to_be_bytes (ks_local_id store)")
    case True
    then show ?thesis using assms(4) by (simp add: gate)
  next
    case False
    have "\<exists>s2. lunet_paxe_open L (Some frame) (length frame) (Some buf) (length buf) False s = Some ((RC_DROP, s2), buf, None)"
    proof (rule open_cases [OF assms(1-3) frame out])
      fix hdr fl' m w
      assume d: "dek_open L store frame (proc s) (counters s) = Some (Ok (hdr, fl', m), w, counters s)"
      have "to_id hdr = ks_local_id store"
        using dek_open_accepts [OF sodium_contractD(1,2) [OF assms(1)] ks d] by simp
      with parse_prefix_dest [OF dek_open_header [OF assms(1) ks d]] False show ?thesis by simp
    qed auto
    with False show ?thesis using assms(4) by (auto simp: gate)
  qed
qed

theorem gate_agrees_with_open_witness:
  "lunet_paxe_frame_for_us (Some [0, 2, 0, 1, 0, 0, 0, 0, 0]) (length [0, 2, 0, 1, 0, 0, 0, 0, 0 :: byte])
    (demo_session 1 2 3) = (1, demo_session 1 2 3)"
proof -
  obtain rc s' where g: "lunet_paxe_frame_for_us (Some [0, 2, 0, 1, 0, 0, 0, 0, 0])
      (length [0, 2, 0, 1, 0, 0, 0, 0, 0 :: byte]) (demo_session 1 2 3) = (rc, s')" by fastforce
  have "u16_to_be_bytes (ks_local_id (demo_store 1 2 (Epoch 3))) = [0, 1]"
    by (simp add: demo_store_def u16_to_be_bytes_def)
  with gate_agrees_with_open [OF demo_contract demo_session_inv demo_session_eq(1) g, of "[]"] g
  show ?thesis by simp
qed

text \<open>C35. Retirement is immediate: after \<open>lunet_paxe_keystore_retire\<close> returns success for a peer and an
  epoch (present or not), every frame ever sealed by that peer under that epoch, in either mode
  and under any key, is dropped.\<close>

theorem retired_epoch_is_dropped:
  assumes "sodium_contract L" "session_inv s"
    and "lunet_paxe_keystore_retire L p e s = (rc, s1)" "rc = RC_OK \<or> rc = RC_OK_ABSENT"
    and "sealed_frame L key hdr (flags_new md (Epoch (ucast e))) payload frame" "from_id hdr = ucast p"
  shows "\<exists>s2. lunet_paxe_open L (Some frame) (length frame) (Some buf) (length buf) False s1 =
    Some ((RC_DROP, s2), buf, None)"
proof -
  note M = sodium_contractD(2) [OF assms(1)]
  obtain store where st: "STORE s = Some store" and e: "check_epoch e = Ok (Epoch (ucast e))"
    and r: "retire L (ucast p) (Epoch (ucast e)) (proc s) store = (fst (retire L (ucast p) (Epoch (ucast e)) (proc s) store), proc s1, the (STORE s1))"
    and s1: "STORE s1 \<noteq> None"
    using assms(3,4)
    by (auto simp: lunet_paxe_keystore_retire_def check_iff rc_defs check_epoch_def epoch_new_def
        split: sum.splits option.splits prod.splits if_splits)
  obtain store1 where st1: "STORE s1 = Some store1" using s1 by blast
  have ks: "ks_inv (proc s) store" using session_invD(1) [OF assms(2)] st by (simp add: store_ok_def)
  note ref = retire_refines [OF M ks r]
  have ks1: "ks_inv (proc s1) store1" and gone: "lookup (proc s1) store1 (from_id hdr) (Epoch (ucast e)) = None"
    using ref by (simp_all add: st1 lookup_abs assms(6))
  have inv1: "session_inv s1" using keystore_retire_step [OF M assms(2,3)] by simp
  have frame: "buf_in (Some frame) (length frame) (str ''frame'') = Ok frame" by (simp add: check_iff)
  have out: "buf_out (Some buf) (length buf) (str ''payload output'') = Ok buf" by (simp add: check_iff)
  obtain x w st' where "dek_open L store1 frame (proc s1) (counters s1) = Some (Err x, w, st')"
    using refuse_foreign [OF assms(1) ks1 check_epoch_ok [OF e] assms(5)] gone by blast
  then show ?thesis by (cases rule: open_cases [OF assms(1) inv1 st1 frame out]) auto
qed

theorem retired_epoch_is_dropped_witness:
  "\<exists>rc s1 s2. lunet_paxe_keystore_retire demo_sodium 2 3 (demo_session 1 2 3) = (rc, s1) \<and>
    lunet_paxe_open demo_sodium (Some (std_frame demo_sodium demo_key 2 1 100 (Epoch 3) (replicate 12 8) [5, 6]))
      (length (std_frame demo_sodium demo_key 2 1 100 (Epoch 3) (replicate 12 8) [5, 6]))
      (Some [0, 0]) (length [0, 0 :: byte]) False s1 = Some ((RC_DROP, s2), [0, 0], None)"
proof -
  obtain rc s1 where r: "lunet_paxe_keystore_retire demo_sodium 2 3 (demo_session 1 2 3) = (rc, s1)" by fastforce
  have "rc = RC_OK \<or> rc = RC_OK_ABSENT"
    using r demo_session_eq(1) [of 1 2 3]
    by (auto simp: lunet_paxe_keystore_retire_def check_u16_def check_epoch_def epoch_new_def MAX_EPOCH_def
        split: prod.splits)
  moreover have "sealed_frame demo_sodium demo_key \<lparr>from_id = 2, to_id = 1, channel = 100\<rparr>
      (flags_new Standard (Epoch (ucast (3 :: u32)))) [5, 6]
      (std_frame demo_sodium demo_key 2 1 100 (Epoch 3) (replicate 12 8) [5, 6])"
    by (auto simp: sealed_frame_def flags_new_sel NPUBBYTES_def intro: exI [of _ "replicate 12 8"])
  ultimately show ?thesis
    using retired_epoch_is_dropped [OF demo_contract demo_session_inv r] r by fastforce
qed

end
